(* ===== verification/TLSS_Prelude.thy ===== *)
theory TLSS_Prelude
  imports Main "HOL-Library.Word" "HOL-Library.Monad_Syntax"
begin

unbundle bit_operations_syntax

text \<open>
  Shared vocabulary of the development: the fixed-width integers of the C++
  sources, byte buffers with bounds-checked access, and the generic list and
  word facts the component theories rely on.

  A C++ byte buffer (\<^verbatim>\<open>std::vector<std::uint8_t>\<close>, or a pointer with a length) is
  a list of 8-bit words. Every read and write names its offset, and an access
  outside the buffer, which is undefined behaviour in C++, is the value
  \<^term>\<open>None\<close>: a theorem that an operation returns \<^term>\<open>Some\<close> result says that it
  never leaves its buffer. A \<^verbatim>\<open>std::string\<close> is a \<^typ>\<open>string\<close>, and the
  \<^verbatim>\<open>reinterpret_cast\<close> between characters and octets is the pair
  \<open>byte_of_char\<close>, \<open>char_of_byte\<close>.
\<close>

type_synonym u8 = "8 word"
type_synonym u16 = "16 word"
type_synonym u32 = "32 word"
type_synonym u64 = "64 word"
type_synonym bytes = "u8 list"

named_theorems layout_simps \<open>symbolic execution of field-by-field buffer layout\<close>
named_theorems codec_simps \<open>round trips of the integer codecs\<close>

section \<open>Bounds-checked buffer access\<close>

definition byte_at :: "bytes \<Rightarrow> nat \<Rightarrow> u8 option" where
  "byte_at m i = (if i < length m then Some (m ! i) else None)"

definition set_byte :: "bytes \<Rightarrow> nat \<Rightarrow> u8 \<Rightarrow> bytes option" where
  "set_byte m i b = (if i < length m then Some (m[i := b]) else None)"

definition copy_out :: "bytes \<Rightarrow> nat \<Rightarrow> nat \<Rightarrow> bytes option" where
  "copy_out m off n = (if off + n \<le> length m then Some (take n (drop off m)) else None)"

definition copy_in :: "bytes \<Rightarrow> nat \<Rightarrow> bytes \<Rightarrow> bytes option" where
  "copy_in m off src =
     (if off + length src \<le> length m
      then Some (take off m @ src @ drop (off + length src) m) else None)"

text \<open>
  A buffer that has been filled from the front: \<open>zpad p n\<close> holds the written
  prefix \<open>p\<close> followed by \<open>n\<close> bytes that are still zero.
\<close>

definition zpad :: "bytes \<Rightarrow> nat \<Rightarrow> bytes" where
  "zpad p n = p @ replicate n 0"

lemma length_zpad [simp]: "length (zpad p n) = length p + n"
  by (simp add: zpad_def)

lemma zpad_0 [simp]: "zpad p 0 = p"
  by (simp add: zpad_def)

lemma zpad_start: "replicate n 0 = zpad [] n"
  by (simp add: zpad_def)

lemma set_byte_zpad [layout_simps]:
  assumes "length p = i" and "0 < n"
  shows "set_byte (zpad p n) i b = Some (zpad (p @ [b]) (n - 1))"
proof -
  from assms(2) obtain m where "n = Suc m" by (cases n) auto
  with assms(1) show ?thesis
    by (simp add: set_byte_def zpad_def list_update_append)
qed

lemma copy_in_zpad [layout_simps]:
  assumes "length p = off" and "length src \<le> n"
  shows "copy_in (zpad p n) off src = Some (zpad (p @ src) (n - length src))"
  using assms by (simp add: copy_in_def zpad_def)

lemma byte_at_Some [simp]: "i < length m \<Longrightarrow> byte_at m i = Some (m ! i)"
  by (simp add: byte_at_def)

lemma copy_out_Some [simp]: "off + n \<le> length m \<Longrightarrow> copy_out m off n = Some (take n (drop off m))"
  by (simp add: copy_out_def)

lemma copy_in_Some:
  "off + length src \<le> length m \<Longrightarrow>
     copy_in m off src = Some (take off m @ src @ drop (off + length src) m)"
  by (simp add: copy_in_def)

lemma copy_in_Nil [simp]: "off \<le> length m \<Longrightarrow> copy_in m off [] = Some m"
  by (simp add: copy_in_def)

lemma length_copy_in: "copy_in m off src = Some m' \<Longrightarrow> length m' = length m"
  by (auto simp: copy_in_def split: if_splits)

section \<open>Characters and octets\<close>

definition byte_of_char :: "char \<Rightarrow> u8" where
  "byte_of_char c = word_of_nat (of_char c)"

definition char_of_byte :: "u8 \<Rightarrow> char" where
  "char_of_byte b = char_of (unat b)"

lemma char_of_byte_of_char [simp]: "char_of_byte (byte_of_char c) = c"
proof -
  have "(of_char c :: nat) < 256" by simp
  then show ?thesis
    by (simp add: char_of_byte_def byte_of_char_def unat_of_nat take_bit_eq_mod)
qed

lemma byte_of_char_of_byte [simp]: "byte_of_char (char_of_byte b) = b"
proof -
  have "unat b < 256" using unsigned_less [of b] by simp
  then show ?thesis
    by (simp add: char_of_byte_def byte_of_char_def)
qed

definition bytes_of_string :: "string \<Rightarrow> bytes" where
  "bytes_of_string s = map byte_of_char s"

definition string_of_bytes :: "bytes \<Rightarrow> string" where
  "string_of_bytes bs = map char_of_byte bs"

lemma length_bytes_of_string [simp]: "length (bytes_of_string s) = length s"
  by (simp add: bytes_of_string_def)

lemma length_string_of_bytes [simp]: "length (string_of_bytes bs) = length bs"
  by (simp add: string_of_bytes_def)

lemma bytes_of_string_Nil [simp]: "bytes_of_string [] = []"
  by (simp add: bytes_of_string_def)

lemma string_of_bytes_of_string [simp]: "string_of_bytes (bytes_of_string s) = s"
  by (simp add: string_of_bytes_def bytes_of_string_def comp_def)

lemma bytes_of_string_of_bytes [simp]: "bytes_of_string (string_of_bytes bs) = bs"
  by (simp add: string_of_bytes_def bytes_of_string_def comp_def)

lemma byte_of_char_eq_0 [simp]: "byte_of_char c = 0 \<longleftrightarrow> c = CHR 0x00"
proof -
  have "byte_of_char c = 0 \<longleftrightarrow> byte_of_char c = byte_of_char (CHR 0x00)"
    by (simp add: byte_of_char_def)
  also have "\<dots> \<longleftrightarrow> c = CHR 0x00"
    by (metis char_of_byte_of_char)
  finally show ?thesis .
qed

section \<open>Lists\<close>

lemma take_append_exact: "length xs = n \<Longrightarrow> take n (xs @ ys) = xs"
  by simp

lemma drop_append_exact: "length xs = n \<Longrightarrow> drop n (xs @ ys) = ys"
  by simp

lemma takeWhile_map: "takeWhile P (map f xs) = map f (takeWhile (P \<circ> f) xs)"
  by (induction xs) auto

section \<open>The C++ library and language on values\<close>

text \<open>
  \<^verbatim>\<open>std::find\<close> over a range: the index of the first match, or the length of the
  range (its end). \<^verbatim>\<open>std::string::find\<close> returns \<^verbatim>\<open>npos\<close> instead, here \<^term>\<open>None\<close>.
\<close>

fun find_idx :: "'a \<Rightarrow> 'a list \<Rightarrow> nat" where
  "find_idx x [] = 0"
| "find_idx x (y # ys) = (if y = x then 0 else Suc (find_idx x ys))"

definition str_find :: "'a \<Rightarrow> 'a list \<Rightarrow> nat option" where
  "str_find x xs = (if find_idx x xs < length xs then Some (find_idx x xs) else None)"

lemma find_idx_takeWhile: "find_idx x xs = length (takeWhile (\<lambda>y. y \<noteq> x) xs)"
  by (induction xs) auto

lemma find_idx_le: "find_idx x xs \<le> length xs"
  by (induction xs) auto

lemma find_idx_map: "(\<And>y. y \<in> set xs \<Longrightarrow> f y = f x \<longleftrightarrow> y = x) \<Longrightarrow> find_idx (f x) (map f xs) = find_idx x xs"
  by (induction xs) auto

lemma find_idx_append:
  "find_idx x (xs @ ys) = (if x \<in> set xs then find_idx x xs else length xs + find_idx x ys)"
  by (induction xs) auto

lemma find_idx_notin: "x \<notin> set xs \<Longrightarrow> find_idx x xs = length xs"
  by (induction xs) auto

lemma find_idx_less_iff: "find_idx x xs < length xs \<longleftrightarrow> x \<in> set xs"
  by (induction xs) auto

lemma notin_take_find_idx: "x \<notin> set (take (find_idx x xs) xs)"
  by (induction xs) auto

lemma str_find_size:
  "(case str_find x xs of None \<Rightarrow> length xs | Some i \<Rightarrow> i) = find_idx x xs"
  using find_idx_le [of x xs] by (auto simp: str_find_def)

text \<open>Signed division and remainder of C++ round towards zero.\<close>

definition c_div :: "int \<Rightarrow> int \<Rightarrow> int" where
  "c_div a b = sgn a * sgn b * (\<bar>a\<bar> div \<bar>b\<bar>)"

definition c_mod :: "int \<Rightarrow> int \<Rightarrow> int" where
  "c_mod a b = a - b * c_div a b"

lemma c_div_mod_nonneg: "0 \<le> a \<Longrightarrow> 0 < b \<Longrightarrow> c_div a b = a div b \<and> c_mod a b = a mod b"
  by (cases "a = 0") (auto simp: c_div_def c_mod_def minus_mult_div_eq_mod)

lemma c_div_neg: "a < 0 \<Longrightarrow> 0 < b \<Longrightarrow> c_div a b = - ((- a) div b)"
  by (simp add: c_div_def)


text \<open>A pointer with a length: the null pointer with any claimed size, or a buffer.\<close>

datatype buf = NullPtr nat | Ptr bytes

text \<open>The values of \<^verbatim>\<open>std::int64_t\<close>.\<close>

definition is_int64 :: "int \<Rightarrow> bool" where
  "is_int64 i \<longleftrightarrow> - 9223372036854775808 \<le> i \<and> i \<le> 9223372036854775807"

text \<open>Signed 64-bit addition, multiplication and subtraction; an overflow, undefined in C++, has no result.\<close>

definition i64_add :: "int \<Rightarrow> int \<Rightarrow> int option" where
  "i64_add a b = (if is_int64 (a + b) then Some (a + b) else None)"

definition i64_mul :: "int \<Rightarrow> int \<Rightarrow> int option" where
  "i64_mul a b = (if is_int64 (a * b) then Some (a * b) else None)"

definition i64_sub :: "int \<Rightarrow> int \<Rightarrow> int option" where
  "i64_sub a b = (if is_int64 (a - b) then Some (a - b) else None)"

lemma i64_sub_nonneg: "0 \<le> b \<Longrightarrow> b \<le> a \<Longrightarrow> is_int64 a \<Longrightarrow> i64_sub a b = Some (a - b)"
  by (auto simp: i64_sub_def is_int64_def)

lemma word_less_Suc: "x \<le> n \<Longrightarrow> n + 1 \<noteq> 0 \<Longrightarrow> x < n + (1 :: 'a :: len word)"
proof -
  assume a: "x \<le> n" "n + 1 \<noteq> 0"
  then have "unat (n + 1) = Suc (unat n)" using unatSuc [of n] by (simp add: add.commute)
  with a(1) show ?thesis by (simp add: word_less_nat_alt word_le_nat_alt)
qed

text \<open>Elimination of a sequenced computation that succeeds.\<close>

lemma bind_SomeE:
  assumes "Option.bind m f = Some y"
  obtains x where "m = Some x" and "f x = Some y"
  using assms by (cases m) auto

text \<open>Values of \<^verbatim>\<open>std::size_t\<close> are naturals; a subtraction below zero wraps.\<close>

definition SIZE_LIMIT :: nat where "SIZE_LIMIT = 2 ^ 64"

definition size_sub :: "nat \<Rightarrow> nat \<Rightarrow> nat" where
  "size_sub a b = (if b \<le> a then a - b else SIZE_LIMIT + a - b)"

lemma size_sub_le [simp]: "b \<le> a \<Longrightarrow> size_sub a b = a - b"
  by (simp add: size_sub_def)

section \<open>Words\<close>

lemma unat_of_nat_less: "n < 2 ^ LENGTH('a) \<Longrightarrow> unat (word_of_nat n :: 'a::len word) = n"
  by (simp add: unat_of_nat take_bit_eq_mod)

lemma unat_of_nat_u16 [simp]: "n < 65536 \<Longrightarrow> unat (word_of_nat n :: u16) = n"
  by (rule unat_of_nat_less) simp

lemma unat_of_nat_u32 [simp]: "n < 4294967296 \<Longrightarrow> unat (word_of_nat n :: u32) = n"
  by (rule unat_of_nat_less) simp

end
