(* ===== verification/Byte_Codec.thy ===== *)
theory Byte_Codec
  imports TLSS_Prelude
begin

text \<open>
  The network-byte-order integer codecs of
  \<^verbatim>\<open>src/monitor/monitor_wire.cpp\<close> (namespace \<open>Detail\<close>) and the private ones of
  \<^verbatim>\<open>src/monitor/alarm_protocol.cpp\<close>. Each writes or reads a fixed number of bytes
  at an offset of a buffer. The lemmas give the byte layout (\<open>be16\<close>, \<open>be32\<close>,
  \<open>be64\<close>) that every writer produces, and that every reader inverts it.
\<close>

section \<open>Monitor wire codecs\<close>

definition put_u16 :: "bytes \<Rightarrow> nat \<Rightarrow> u16 \<Rightarrow> bytes option" where
  "put_u16 out p v = do {
     out \<leftarrow> set_byte out p (ucast (drop_bit 8 v AND 0xff));
     set_byte out (p + 1) (ucast (v AND 0xff)) }"

definition get_u16 :: "bytes \<Rightarrow> nat \<Rightarrow> u16 option" where
  "get_u16 inp p = do {
     b0 \<leftarrow> byte_at inp p;
     b1 \<leftarrow> byte_at inp (p + 1);
     Some (ucast (push_bit 8 (ucast b0 :: u32) OR (ucast b1 :: u32))) }"

definition put_u32 :: "bytes \<Rightarrow> nat \<Rightarrow> u32 \<Rightarrow> bytes option" where
  "put_u32 out p v = do {
     out \<leftarrow> set_byte out p (ucast (drop_bit 24 v AND 0xff));
     out \<leftarrow> set_byte out (p + 1) (ucast (drop_bit 16 v AND 0xff));
     out \<leftarrow> set_byte out (p + 2) (ucast (drop_bit 8 v AND 0xff));
     set_byte out (p + 3) (ucast (v AND 0xff)) }"

definition get_u32 :: "bytes \<Rightarrow> nat \<Rightarrow> u32 option" where
  "get_u32 inp p = do {
     b0 \<leftarrow> byte_at inp p;
     b1 \<leftarrow> byte_at inp (p + 1);
     b2 \<leftarrow> byte_at inp (p + 2);
     b3 \<leftarrow> byte_at inp (p + 3);
     Some (push_bit 24 (ucast b0) OR push_bit 16 (ucast b1) OR push_bit 8 (ucast b2)
           OR ucast b3) }"

definition put_u64 :: "bytes \<Rightarrow> nat \<Rightarrow> u64 \<Rightarrow> bytes option" where
  "put_u64 out p v = do {
     out \<leftarrow> set_byte out p (ucast (drop_bit 56 v AND 0xff));
     out \<leftarrow> set_byte out (p + 1) (ucast (drop_bit 48 v AND 0xff));
     out \<leftarrow> set_byte out (p + 2) (ucast (drop_bit 40 v AND 0xff));
     out \<leftarrow> set_byte out (p + 3) (ucast (drop_bit 32 v AND 0xff));
     out \<leftarrow> set_byte out (p + 4) (ucast (drop_bit 24 v AND 0xff));
     out \<leftarrow> set_byte out (p + 5) (ucast (drop_bit 16 v AND 0xff));
     out \<leftarrow> set_byte out (p + 6) (ucast (drop_bit 8 v AND 0xff));
     set_byte out (p + 7) (ucast (v AND 0xff)) }"

definition get_u64 :: "bytes \<Rightarrow> nat \<Rightarrow> u64 option" where
  "get_u64 inp p = do {
     b0 \<leftarrow> byte_at inp p;
     b1 \<leftarrow> byte_at inp (p + 1);
     b2 \<leftarrow> byte_at inp (p + 2);
     b3 \<leftarrow> byte_at inp (p + 3);
     b4 \<leftarrow> byte_at inp (p + 4);
     b5 \<leftarrow> byte_at inp (p + 5);
     b6 \<leftarrow> byte_at inp (p + 6);
     b7 \<leftarrow> byte_at inp (p + 7);
     Some (push_bit 56 (ucast b0) OR push_bit 48 (ucast b1) OR push_bit 40 (ucast b2)
           OR push_bit 32 (ucast b3) OR push_bit 24 (ucast b4) OR push_bit 16 (ucast b5)
           OR push_bit 8 (ucast b6) OR ucast b7) }"

text \<open>
  \<^verbatim>\<open>std::int64_t\<close> values are integers in \<open>[-2^63, 2^63)\<close>; the cast to
  \<^verbatim>\<open>std::uint64_t\<close> is reduction modulo \<open>2^64\<close>. The reader is the source's
  explicit two's-complement reconstruction, case by case.
\<close>

definition put_i64_twos_complement :: "bytes \<Rightarrow> nat \<Rightarrow> int \<Rightarrow> bytes option" where
  "put_i64_twos_complement out p v = put_u64 out p (word_of_int v)"

definition sign_bit :: u64 where
  "sign_bit = push_bit 63 1"

definition i64_of_bits :: "u64 \<Rightarrow> int" where
  "i64_of_bits bits =
     (if bits AND sign_bit = 0 then uint bits
      else let magnitude = NOT bits + 1
           in if magnitude = sign_bit then - (2 ^ 63) else - uint magnitude)"

definition get_i64_twos_complement :: "bytes \<Rightarrow> nat \<Rightarrow> int option" where
  "get_i64_twos_complement inp p = map_option i64_of_bits (get_u64 inp p)"

section \<open>Alarm protocol codecs\<close>

text \<open>The alarm envelope has its own copies; \<open>alarm_get_u64\<close> is a loop over the bytes.\<close>

definition alarm_put_u16 :: "bytes \<Rightarrow> nat \<Rightarrow> u16 \<Rightarrow> bytes option" where
  "alarm_put_u16 out p v = do {
     out \<leftarrow> set_byte out p (ucast (drop_bit 8 v));
     set_byte out (p + 1) (ucast v) }"

definition alarm_put_u32 :: "bytes \<Rightarrow> nat \<Rightarrow> u32 \<Rightarrow> bytes option" where
  "alarm_put_u32 out p v = do {
     out \<leftarrow> set_byte out p (ucast (drop_bit 24 v));
     out \<leftarrow> set_byte out (p + 1) (ucast (drop_bit 16 v));
     out \<leftarrow> set_byte out (p + 2) (ucast (drop_bit 8 v));
     set_byte out (p + 3) (ucast v) }"

definition alarm_put_u64 :: "bytes \<Rightarrow> nat \<Rightarrow> u64 \<Rightarrow> bytes option" where
  "alarm_put_u64 out p v = do {
     out \<leftarrow> set_byte out p (ucast (drop_bit 56 v));
     out \<leftarrow> set_byte out (p + 1) (ucast (drop_bit 48 v));
     out \<leftarrow> set_byte out (p + 2) (ucast (drop_bit 40 v));
     out \<leftarrow> set_byte out (p + 3) (ucast (drop_bit 32 v));
     out \<leftarrow> set_byte out (p + 4) (ucast (drop_bit 24 v));
     out \<leftarrow> set_byte out (p + 5) (ucast (drop_bit 16 v));
     out \<leftarrow> set_byte out (p + 6) (ucast (drop_bit 8 v));
     set_byte out (p + 7) (ucast v) }"

definition alarm_get_u16 :: "bytes \<Rightarrow> nat \<Rightarrow> u16 option" where
  "alarm_get_u16 inp p = do {
     b0 \<leftarrow> byte_at inp p;
     b1 \<leftarrow> byte_at inp (p + 1);
     Some (push_bit 8 (ucast b0) OR ucast b1) }"

definition alarm_get_u32 :: "bytes \<Rightarrow> nat \<Rightarrow> u32 option" where
  "alarm_get_u32 inp p = do {
     b0 \<leftarrow> byte_at inp p;
     b1 \<leftarrow> byte_at inp (p + 1);
     b2 \<leftarrow> byte_at inp (p + 2);
     b3 \<leftarrow> byte_at inp (p + 3);
     Some (push_bit 24 (ucast b0) OR push_bit 16 (ucast b1) OR push_bit 8 (ucast b2)
           OR ucast b3) }"

primrec alarm_get_u64_loop :: "nat \<Rightarrow> bytes \<Rightarrow> nat \<Rightarrow> u64 \<Rightarrow> u64 option" where
  "alarm_get_u64_loop 0 inp p v = Some v"
| "alarm_get_u64_loop (Suc n) inp p v = do {
     b \<leftarrow> byte_at inp p;
     alarm_get_u64_loop n inp (p + 1) (push_bit 8 v OR ucast b) }"

definition alarm_get_u64 :: "bytes \<Rightarrow> nat \<Rightarrow> u64 option" where
  "alarm_get_u64 inp p = alarm_get_u64_loop 8 inp p 0"

section \<open>Byte layout\<close>

definition be16 :: "u16 \<Rightarrow> bytes" where
  "be16 v = [ucast (drop_bit 8 v), ucast v]"

definition be32 :: "u32 \<Rightarrow> bytes" where
  "be32 v = [ucast (drop_bit 24 v), ucast (drop_bit 16 v), ucast (drop_bit 8 v), ucast v]"

definition be64 :: "u64 \<Rightarrow> bytes" where
  "be64 v = [ucast (drop_bit 56 v), ucast (drop_bit 48 v), ucast (drop_bit 40 v),
     ucast (drop_bit 32 v), ucast (drop_bit 24 v), ucast (drop_bit 16 v),
     ucast (drop_bit 8 v), ucast v]"

lemma length_be [simp]: "length (be16 a) = 2" "length (be32 b) = 4" "length (be64 c) = 8"
  by (simp_all add: be16_def be32_def be64_def)

lemma ucast_and_ff:
  "(ucast (a AND 0xff) :: u8) = ucast (a :: u16)"
  "(ucast (b AND 0xff) :: u8) = ucast (b :: u32)"
  "(ucast (c AND 0xff) :: u8) = ucast (c :: u64)"
proof -
  have ff: "(0xff :: u16) = mask 8" "(0xff :: u32) = mask 8" "(0xff :: u64) = mask 8"
    by (simp_all add: mask_eq_exp_minus_1)
  show "(ucast (a AND 0xff) :: u8) = ucast a"
    "(ucast (b AND 0xff) :: u8) = ucast b"
    "(ucast (c AND 0xff) :: u8) = ucast c"
    unfolding ff by (rule bit_word_eqI; auto simp: bit_simps)+
qed

lemma put_u16_alarm: "put_u16 = alarm_put_u16"
  by (simp add: fun_eq_iff put_u16_def alarm_put_u16_def ucast_and_ff)

lemma put_u32_alarm: "put_u32 = alarm_put_u32"
  by (simp add: fun_eq_iff put_u32_def alarm_put_u32_def ucast_and_ff)

lemma put_u64_alarm: "put_u64 = alarm_put_u64"
  by (simp add: fun_eq_iff put_u64_def alarm_put_u64_def ucast_and_ff)

lemma get_u32_alarm: "get_u32 = alarm_get_u32"
  by (simp add: fun_eq_iff get_u32_def alarm_get_u32_def)

lemma join_u16: "(ucast (push_bit 8 (ucast b0 :: u32) OR (ucast b1 :: u32)) :: u16)
    = push_bit 8 (ucast (b0 :: u8)) OR ucast (b1 :: u8)"
  by (rule bit_word_eqI) (auto simp: bit_simps)

lemma get_u16_alarm: "get_u16 = alarm_get_u16"
  by (simp add: fun_eq_iff get_u16_def alarm_get_u16_def join_u16)

lemma get_u64_alarm: "get_u64 = alarm_get_u64"
  by (simp add: fun_eq_iff get_u64_def alarm_get_u64_def numeral_eq_Suc push_bit_or
    or.assoc)

section \<open>Writers produce the layout, readers invert it\<close>

lemma alarm_put_u16_zpad [layout_simps]:
  "length p = i \<Longrightarrow> 2 \<le> n \<Longrightarrow> alarm_put_u16 (zpad p n) i v = Some (zpad (p @ be16 v) (n - 2))"
  by (simp add: alarm_put_u16_def layout_simps be16_def numeral_eq_Suc)

lemma alarm_put_u32_zpad [layout_simps]:
  "length p = i \<Longrightarrow> 4 \<le> n \<Longrightarrow> alarm_put_u32 (zpad p n) i v = Some (zpad (p @ be32 v) (n - 4))"
  by (simp add: alarm_put_u32_def layout_simps be32_def numeral_eq_Suc)

lemma alarm_put_u64_zpad [layout_simps]:
  "length p = i \<Longrightarrow> 8 \<le> n \<Longrightarrow> alarm_put_u64 (zpad p n) i v = Some (zpad (p @ be64 v) (n - 8))"
  by (simp add: alarm_put_u64_def layout_simps be64_def numeral_eq_Suc)

lemmas put_zpad [layout_simps] =
  alarm_put_u16_zpad [folded put_u16_alarm]
  alarm_put_u32_zpad [folded put_u32_alarm]
  alarm_put_u64_zpad [folded put_u64_alarm]

fun dec16 :: "bytes \<Rightarrow> u16" where
  "dec16 [a, b] = push_bit 8 (ucast a) OR ucast b"
| "dec16 _ = 0"

fun dec32 :: "bytes \<Rightarrow> u32" where
  "dec32 [a, b, c, d] =
     push_bit 24 (ucast a) OR push_bit 16 (ucast b) OR push_bit 8 (ucast c) OR ucast d"
| "dec32 _ = 0"

fun dec64 :: "bytes \<Rightarrow> u64" where
  "dec64 [a, b, c, d, e, f, g, h] =
     push_bit 56 (ucast a) OR push_bit 48 (ucast b) OR push_bit 40 (ucast c)
     OR push_bit 32 (ucast d) OR push_bit 24 (ucast e) OR push_bit 16 (ucast f)
     OR push_bit 8 (ucast g) OR ucast h"
| "dec64 _ = 0"

lemma byte_join_step:
  "push_bit k (take_bit 8 (drop_bit k v)) OR take_bit k v = take_bit (k + 8) v"
  for v :: "'a::len word"
proof (rule bit_word_eqI)
  fix n assume "n < LENGTH('a)"
  consider "n < k" | "k \<le> n" "n - k < 8" | "k \<le> n" "8 \<le> n - k" by linarith
  then show "bit (push_bit k (take_bit 8 (drop_bit k v)) OR take_bit k v) n
      = bit (take_bit (k + 8) v) n"
    by cases (auto simp: bit_simps dest: bit_imp_le_length)
qed

lemma byte_join_last: "ucast (ucast v :: u8) = take_bit 8 v" for v :: "'a::len word"
  by (rule bit_word_eqI) (auto simp: bit_simps)

lemmas byte_join =
  byte_join_last
  byte_join_step [of 8, unfolded numeral_plus_numeral add_num_simps]
  byte_join_step [of 16, unfolded numeral_plus_numeral add_num_simps]
  byte_join_step [of 24, unfolded numeral_plus_numeral add_num_simps]
  byte_join_step [of 32, unfolded numeral_plus_numeral add_num_simps]
  byte_join_step [of 40, unfolded numeral_plus_numeral add_num_simps]
  byte_join_step [of 48, unfolded numeral_plus_numeral add_num_simps]
  byte_join_step [of 56, unfolded numeral_plus_numeral add_num_simps]

lemma take_bit_full:
  "take_bit 16 (a :: u16) = a" "take_bit 32 (b :: u32) = b" "take_bit 64 (c :: u64) = c"
  by (simp_all add: take_bit_word_eq_self)

lemma dec16_be16 [codec_simps]: "dec16 (be16 v) = v"
  by (simp only: be16_def dec16.simps byte_join take_bit_full)

lemma dec32_be32 [codec_simps]: "dec32 (be32 v) = v"
  by (simp only: be32_def dec32.simps or.assoc byte_join take_bit_full)

lemma dec64_be64 [codec_simps]: "dec64 (be64 v) = v"
  by (simp only: be64_def dec64.simps or.assoc byte_join take_bit_full)

lemma slice_Cons: "i < length m \<Longrightarrow> take (Suc n) (drop i m) = m ! i # take n (drop (Suc i) m)"
  by (simp add: Cons_nth_drop_Suc [symmetric])

lemma alarm_get_u16_slice:
  "i + 2 \<le> length m \<Longrightarrow> alarm_get_u16 m i = Some (dec16 (take 2 (drop i m)))"
  by (simp add: alarm_get_u16_def numeral_eq_Suc slice_Cons)

lemma alarm_get_u32_slice:
  "i + 4 \<le> length m \<Longrightarrow> alarm_get_u32 m i = Some (dec32 (take 4 (drop i m)))"
  by (simp add: alarm_get_u32_def numeral_eq_Suc slice_Cons)

lemma get_u64_slice:
  "i + 8 \<le> length m \<Longrightarrow> get_u64 m i = Some (dec64 (take 8 (drop i m)))"
  by (simp add: get_u64_def numeral_eq_Suc slice_Cons)

lemmas get_slice [codec_simps] =
  alarm_get_u16_slice alarm_get_u16_slice [folded get_u16_alarm]
  alarm_get_u32_slice alarm_get_u32_slice [folded get_u32_alarm]
  get_u64_slice get_u64_slice [unfolded get_u64_alarm]

text \<open>
  The layouts are injective and there are as many words as byte strings of the
  length, so the readers also invert the other way round.
\<close>

lemma be_surj:
  assumes "\<And>v. dec (be v) = v" and "\<And>v :: 'a::len word. length (be v) = n" and "LENGTH('a) = 8 * n"
    and "length bs = n"
  shows "be (dec bs) = (bs :: bytes)"
proof -
  have inj: "inj be" by (metis assms(1) injI)
  have "finite {bs :: bytes. length bs = n}"
    using finite_lists_length_eq [of "UNIV :: u8 set" n] by simp
  moreover have "card {bs :: bytes. length bs = n} = card (range be)"
    using card_lists_length_eq [of "UNIV :: u8 set" n] inj assms(3)
    by (simp add: card_image card_word power_mult)
  moreover have "range be \<subseteq> {bs. length bs = n}" using assms(2) by auto
  ultimately have "range be = {bs. length bs = n}" by (metis card_subset_eq)
  with assms(4) obtain v where "bs = be v" by blast
  with assms(1) show ?thesis by simp
qed

lemmas be_dec =
  be_surj [where be = be16 and dec = dec16 and n = 2, OF dec16_be16 length_be(1), simplified]
  be_surj [where be = be32 and dec = dec32 and n = 4, OF dec32_be32 length_be(2), simplified]
  be_surj [where be = be64 and dec = dec64 and n = 8, OF dec64_be64 length_be(3), simplified]


section \<open>Two's complement\<close>

lemma and_sign_bit: "bits AND sign_bit = 0 \<longleftrightarrow> uint bits < 2 ^ 63"
proof -
  have "sign_bit = 2 ^ 63"
    by (simp add: sign_bit_def push_bit_eq_mult)
  then have "bits AND sign_bit = 0 \<longleftrightarrow> \<not> bit bits 63"
    using and_exp_eq_0_iff_not_bit [of bits 63] by simp
  also have "\<dots> \<longleftrightarrow> \<not> bit (uint bits) 63"
    by (simp add: bit_uint_iff)
  also have "\<dots> \<longleftrightarrow> even (uint bits div 2 ^ 63)"
    by (simp only: bit_iff_odd not_not)
  also have "\<dots> \<longleftrightarrow> uint bits < 2 ^ 63"
  proof (cases "uint bits < 2 ^ 63")
    case True
    then show ?thesis by (simp add: div_pos_pos_trivial)
  next
    case False
    then have "uint bits div 2 ^ 63 = 1"
      using uint_lt2p [of bits] by (intro int_div_pos_eq [where r = "uint bits - 2 ^ 63"]) auto
    with False show ?thesis by simp
  qed
  finally show ?thesis .
qed

lemma i64_of_bits_uint:
  "i64_of_bits bits = (if uint bits < 2 ^ 63 then uint bits else uint bits - 2 ^ 64)"
proof (cases "uint bits < 2 ^ 63")
  case True
  then show ?thesis by (simp add: i64_of_bits_def and_sign_bit)
next
  case False
  have neg: "NOT bits + 1 = - bits" by (simp add: minus_eq_not_plus_1)
  have "uint (- bits) = - uint bits mod 2 ^ 64"
    by (simp add: uint_word_ariths)
  then have mag: "uint (- bits) = 2 ^ 64 - uint bits"
    using False uint_lt2p [of bits] by (simp add: zmod_zminus1_eq_if)
  have sb: "uint sign_bit = 2 ^ 63"
    by (simp add: sign_bit_def)
  have "- bits = sign_bit \<longleftrightarrow> uint bits = 2 ^ 63"
    using mag sb by (simp add: word_uint_eq_iff)
  then show ?thesis
    using False mag by (simp add: i64_of_bits_def and_sign_bit neg Let_def)
qed

lemma i64_of_bits_word_of_int:
  assumes "is_int64 v"
  shows "i64_of_bits (word_of_int v) = v"
proof (cases "0 \<le> v")
  case True
  with assms show ?thesis
    by (simp add: i64_of_bits_uint uint_word_of_int is_int64_def)
next
  case False
  have "v mod 2 ^ 64 = (v + 2 ^ 64) mod 2 ^ 64" by simp
  also have "\<dots> = v + 2 ^ 64"
    using False assms by (intro mod_pos_pos_trivial) (auto simp: is_int64_def)
  finally have "v mod 2 ^ 64 = v + 2 ^ 64" .
  with False assms show ?thesis
    by (simp add: i64_of_bits_uint uint_word_of_int is_int64_def)
qed

lemma is_int64_i64_of_bits: "is_int64 (i64_of_bits b)"
proof -
  define u where "u = uint b"
  have u: "0 \<le> u" "u < 18446744073709551616"
    using uint_lt2p [of b] by (simp_all add: u_def)
  have "i64_of_bits b = (if u < 9223372036854775808 then u else u - 18446744073709551616)"
    by (simp add: i64_of_bits_uint u_def)
  with u show ?thesis by (auto simp: is_int64_def)
qed

lemma word_of_int_i64_of_bits: "word_of_int (i64_of_bits b) = b"
  by (simp add: i64_of_bits_uint)

end
