(* ===== verification/Alarm_Protocol.thy ===== *)
theory Alarm_Protocol
  imports Byte_Codec
begin

text \<open>
  The reliable alarm envelope of \<^verbatim>\<open>inc/monitor/alarm_protocol.h\<close> and
  \<^verbatim>\<open>src/monitor/alarm_protocol.cpp\<close>: a 48-byte header with magic, version, type,
  payload length, source, message identifier and time, protected together with
  the payload by a CRC32. As in the wire theory, \<^term>\<open>None\<close> is an access outside a
  buffer. The parameter \<open>alloc\<close> says which allocation sizes succeed; a failed
  one is the \<^verbatim>\<open>std::bad_alloc\<close> the code catches.
\<close>

section \<open>Constants and types\<close>

type_synonym allocator = "nat \<Rightarrow> bool"

definition ALARM_MAGIC :: bytes where "ALARM_MAGIC = [0x53, 0x4D, 0x41, 0x31]"
definition ALARM_PROTOCOL_VERSION :: u8 where [simp]: "ALARM_PROTOCOL_VERSION = 1"
definition ALARM_MESSAGE_ID_SIZE :: nat where [simp]: "ALARM_MESSAGE_ID_SIZE = 16"
definition ALARM_MAX_PAYLOAD_SIZE :: nat where [simp]: "ALARM_MAX_PAYLOAD_SIZE = 4096"
definition ALARM_MAGIC_OFFSET :: nat where [simp]: "ALARM_MAGIC_OFFSET = 0"
definition ALARM_VERSION_OFFSET :: nat where [simp]: "ALARM_VERSION_OFFSET = 4"
definition ALARM_TYPE_OFFSET :: nat where [simp]: "ALARM_TYPE_OFFSET = 5"
definition ALARM_FLAGS_OFFSET :: nat where [simp]: "ALARM_FLAGS_OFFSET = 6"
definition ALARM_PAYLOAD_LENGTH_OFFSET :: nat where [simp]: "ALARM_PAYLOAD_LENGTH_OFFSET = 8"
definition ALARM_SOURCE_ID_OFFSET :: nat where [simp]: "ALARM_SOURCE_ID_OFFSET = 12"
definition ALARM_MESSAGE_ID_OFFSET :: nat where [simp]: "ALARM_MESSAGE_ID_OFFSET = 20"
definition ALARM_TIMESTAMP_OFFSET :: nat where [simp]: "ALARM_TIMESTAMP_OFFSET = 36"
definition ALARM_CRC32_OFFSET :: nat where [simp]: "ALARM_CRC32_OFFSET = 44"
definition ALARM_HEADER_SIZE :: nat where [simp]: "ALARM_HEADER_SIZE = 48"
definition ALARM_MAX_FRAME_SIZE :: nat where
  [simp]: "ALARM_MAX_FRAME_SIZE = ALARM_HEADER_SIZE + ALARM_MAX_PAYLOAD_SIZE"
definition ALARM_CURRENT_FLAGS :: u16 where [simp]: "ALARM_CURRENT_FLAGS = 0"
definition CRC32_INITIAL :: u32 where "CRC32_INITIAL = 0xffffffff"
definition CRC32_POLYNOMIAL :: u32 where "CRC32_POLYNOMIAL = 0xedb88320"

text \<open>The frame type is an enumeration over \<^verbatim>\<open>std::uint8_t\<close>, cast from raw bytes.\<close>

type_synonym alarm_frame_type = u8
definition ALARM :: alarm_frame_type where [simp]: "ALARM = 1"
definition ACK :: alarm_frame_type where [simp]: "ACK = 2"
definition PING :: alarm_frame_type where [simp]: "PING = 3"
definition PONG :: alarm_frame_type where [simp]: "PONG = 4"

definition is_valid_alarm_frame_type :: "alarm_frame_type \<Rightarrow> bool" where
  "is_valid_alarm_frame_type ty \<longleftrightarrow> ty = ALARM \<or> ty = ACK \<or> ty = PING \<or> ty = PONG"

definition alarm_frame_requires_payload :: "alarm_frame_type \<Rightarrow> bool" where
  "alarm_frame_requires_payload ty \<longleftrightarrow> ty = ALARM"

definition is_alarm_control_frame :: "alarm_frame_type \<Rightarrow> bool" where
  "is_alarm_control_frame ty \<longleftrightarrow> ty = ACK \<or> ty = PING \<or> ty = PONG"

record alarm_frame =
  af_type :: alarm_frame_type
  af_source_id :: u64
  af_message_id :: bytes
  af_timestamp_ms :: u64
  af_payload :: bytes

text \<open>The identifier is a \<^verbatim>\<open>std::array\<close> of 16 bytes.\<close>

definition alarm_frame_wf :: "alarm_frame \<Rightarrow> bool" where
  "alarm_frame_wf f \<longleftrightarrow> length (af_message_id f) = ALARM_MESSAGE_ID_SIZE"

datatype alarm_protocol_status =
  A_SUCCESS | A_EMPTY_INPUT | A_SHORT_HEADER | A_WRONG_MAGIC | A_WRONG_VERSION | A_INVALID_TYPE
  | A_INVALID_FLAGS | A_INVALID_PAYLOAD_LENGTH | A_PAYLOAD_TOO_LARGE | A_INVALID_TOTAL_LENGTH
  | A_CRC_MISMATCH | A_INVALID_PAYLOAD | A_ALLOCATION_FAILED

record alarm_encode_result =
  aer_status :: alarm_protocol_status
  aer_bytes :: bytes

record alarm_decode_result =
  adr_status :: alarm_protocol_status
  adr_frame :: "alarm_frame option"

record alarm_frame_size_result =
  afs_status :: alarm_protocol_status
  afs_frame_size :: "nat option"

definition encode_success :: "alarm_encode_result \<Rightarrow> bool" where
  "encode_success r \<longleftrightarrow> aer_status r = A_SUCCESS \<and> ALARM_HEADER_SIZE \<le> length (aer_bytes r)
     \<and> length (aer_bytes r) \<le> ALARM_MAX_FRAME_SIZE"

definition decode_success :: "alarm_decode_result \<Rightarrow> bool" where
  "decode_success r \<longleftrightarrow> adr_status r = A_SUCCESS \<and> adr_frame r \<noteq> None"

definition frame_size_success :: "alarm_frame_size_result \<Rightarrow> bool" where
  "frame_size_success r \<longleftrightarrow> afs_status r = A_SUCCESS
     \<and> (case afs_frame_size r of None \<Rightarrow> False
        | Some n \<Rightarrow> ALARM_HEADER_SIZE \<le> n \<and> n \<le> ALARM_MAX_FRAME_SIZE)"

definition alarm_encode_error :: "alarm_protocol_status \<Rightarrow> alarm_encode_result" where
  "alarm_encode_error st = \<lparr>aer_status = st, aer_bytes = []\<rparr>"

definition alarm_decode_error :: "alarm_protocol_status \<Rightarrow> alarm_decode_result" where
  "alarm_decode_error st = \<lparr>adr_status = st, adr_frame = None\<rparr>"

definition make_size_error :: "alarm_protocol_status \<Rightarrow> alarm_frame_size_result" where
  "make_size_error st = \<lparr>afs_status = st, afs_frame_size = None\<rparr>"

section \<open>CRC32\<close>

definition crc_bit :: "u32 \<Rightarrow> u32" where
  "crc_bit crc = drop_bit 1 crc XOR (CRC32_POLYNOMIAL AND (- (crc AND 1)))"

definition crc_byte :: "u32 \<Rightarrow> u8 \<Rightarrow> u32" where
  "crc_byte crc b = (crc_bit ^^ 8) (crc XOR ucast b)"

primrec crc32_update :: "u32 \<Rightarrow> bytes \<Rightarrow> nat \<Rightarrow> nat \<Rightarrow> u32 option" where
  "crc32_update crc data p 0 = Some crc"
| "crc32_update crc data p (Suc n) = do {
     b \<leftarrow> byte_at data p;
     crc32_update (crc_byte crc b) data (p + 1) n }"

definition calculate_frame_crc :: "bytes \<Rightarrow> nat \<Rightarrow> u32 option" where
  "calculate_frame_crc data payload_size = do {
     crc \<leftarrow> crc32_update CRC32_INITIAL data 0 ALARM_CRC32_OFFSET;
     crc \<leftarrow> crc32_update crc data ALARM_HEADER_SIZE payload_size;
     Some (crc XOR CRC32_INITIAL) }"

fun alarm_crc32 :: "buf \<Rightarrow> u32 option" where
  "alarm_crc32 (NullPtr n) =
     (if n \<noteq> 0 then Some 0 else Some (CRC32_INITIAL XOR CRC32_INITIAL))"
| "alarm_crc32 (Ptr data) =
     map_option (\<lambda>crc. crc XOR CRC32_INITIAL) (crc32_update CRC32_INITIAL data 0 (length data))"

section \<open>Frames\<close>

definition validate_frame_description :: "alarm_frame_type \<Rightarrow> nat \<Rightarrow> alarm_protocol_status" where
  "validate_frame_description ty payload_size =
     (if \<not> is_valid_alarm_frame_type ty then A_INVALID_TYPE
      else if payload_size > ALARM_MAX_PAYLOAD_SIZE then A_PAYLOAD_TOO_LARGE
      else if alarm_frame_requires_payload ty \<and> payload_size = 0 then A_INVALID_PAYLOAD_LENGTH
      else if is_alarm_control_frame ty \<and> payload_size \<noteq> 0 then A_INVALID_PAYLOAD_LENGTH
      else A_SUCCESS)"

definition has_valid_magic :: "bytes \<Rightarrow> bool option" where
  "has_valid_magic data = map_option (\<lambda>m. m = ALARM_MAGIC)
     (copy_out data ALARM_MAGIC_OFFSET (length ALARM_MAGIC))"

definition is_valid_raw_type :: "u8 \<Rightarrow> bool" where
  "is_valid_raw_type raw_type \<longleftrightarrow> ALARM \<le> raw_type \<and> raw_type \<le> PONG"

fun alarm_frame_size :: "buf \<Rightarrow> alarm_frame_size_result option" where
  "alarm_frame_size (NullPtr n) = Some (make_size_error A_EMPTY_INPUT)"
| "alarm_frame_size (Ptr prefix) =
     (if length prefix = 0 then Some (make_size_error A_EMPTY_INPUT)
      else if length prefix < ALARM_HEADER_SIZE then Some (make_size_error A_SHORT_HEADER)
      else do {
        magic \<leftarrow> has_valid_magic prefix;
        if \<not> magic then Some (make_size_error A_WRONG_MAGIC)
        else do {
          version \<leftarrow> byte_at prefix ALARM_VERSION_OFFSET;
          if version \<noteq> ALARM_PROTOCOL_VERSION then Some (make_size_error A_WRONG_VERSION)
          else do {
            raw_type \<leftarrow> byte_at prefix ALARM_TYPE_OFFSET;
            if \<not> is_valid_raw_type raw_type then Some (make_size_error A_INVALID_TYPE)
            else do {
              flags \<leftarrow> alarm_get_u16 prefix ALARM_FLAGS_OFFSET;
              if flags \<noteq> ALARM_CURRENT_FLAGS then Some (make_size_error A_INVALID_FLAGS)
              else do {
                payload_length \<leftarrow> alarm_get_u32 prefix ALARM_PAYLOAD_LENGTH_OFFSET;
                let validation = validate_frame_description raw_type (unat payload_length)
                in if validation \<noteq> A_SUCCESS then Some (make_size_error validation)
                   else Some \<lparr>afs_status = A_SUCCESS,
                          afs_frame_size = Some (ALARM_HEADER_SIZE + unat payload_length)\<rparr>
              } } } } })"

definition encode_alarm_frame :: "allocator \<Rightarrow> alarm_frame \<Rightarrow> alarm_encode_result option" where
  "encode_alarm_frame alloc f =
     (let validation = validate_frame_description (af_type f) (length (af_payload f));
          total_size = ALARM_HEADER_SIZE + length (af_payload f)
      in if validation \<noteq> A_SUCCESS then Some (alarm_encode_error validation)
         else if \<not> alloc total_size then Some (alarm_encode_error A_ALLOCATION_FAILED)
         else do {
           b \<leftarrow> copy_in (replicate total_size 0) ALARM_MAGIC_OFFSET ALARM_MAGIC;
           b \<leftarrow> set_byte b ALARM_VERSION_OFFSET ALARM_PROTOCOL_VERSION;
           b \<leftarrow> set_byte b ALARM_TYPE_OFFSET (af_type f);
           b \<leftarrow> alarm_put_u16 b ALARM_FLAGS_OFFSET ALARM_CURRENT_FLAGS;
           b \<leftarrow> alarm_put_u32 b ALARM_PAYLOAD_LENGTH_OFFSET (word_of_nat (length (af_payload f)));
           b \<leftarrow> alarm_put_u64 b ALARM_SOURCE_ID_OFFSET (af_source_id f);
           b \<leftarrow> copy_in b ALARM_MESSAGE_ID_OFFSET (af_message_id f);
           b \<leftarrow> alarm_put_u64 b ALARM_TIMESTAMP_OFFSET (af_timestamp_ms f);
           b \<leftarrow> (if af_payload f \<noteq> [] then copy_in b ALARM_HEADER_SIZE (af_payload f) else Some b);
           crc \<leftarrow> calculate_frame_crc b (length (af_payload f));
           b \<leftarrow> alarm_put_u32 b ALARM_CRC32_OFFSET crc;
           Some \<lparr>aer_status = A_SUCCESS, aer_bytes = b\<rparr> })"

definition decode_frame_fields :: "allocator \<Rightarrow> bytes \<Rightarrow> alarm_decode_result option" where
  "decode_frame_fields alloc data =
     (let payload_size = length data - ALARM_HEADER_SIZE
      in do {
        expected_crc \<leftarrow> alarm_get_u32 data ALARM_CRC32_OFFSET;
        actual_crc \<leftarrow> calculate_frame_crc data payload_size;
        if expected_crc \<noteq> actual_crc then Some (alarm_decode_error A_CRC_MISMATCH)
        else do {
          ty \<leftarrow> byte_at data ALARM_TYPE_OFFSET;
          source_id \<leftarrow> alarm_get_u64 data ALARM_SOURCE_ID_OFFSET;
          message_id \<leftarrow> copy_out data ALARM_MESSAGE_ID_OFFSET ALARM_MESSAGE_ID_SIZE;
          timestamp_ms \<leftarrow> alarm_get_u64 data ALARM_TIMESTAMP_OFFSET;
          if payload_size \<noteq> 0 \<and> \<not> alloc payload_size
          then Some (alarm_decode_error A_ALLOCATION_FAILED)
          else do {
            payload \<leftarrow> (if payload_size \<noteq> 0 then copy_out data ALARM_HEADER_SIZE payload_size
                        else Some []);
            Some \<lparr>adr_status = A_SUCCESS,
              adr_frame = Some \<lparr>af_type = ty, af_source_id = source_id,
                af_message_id = message_id, af_timestamp_ms = timestamp_ms,
                af_payload = payload\<rparr>\<rparr> } } })"

definition decode_alarm_frame :: "allocator \<Rightarrow> buf \<Rightarrow> alarm_decode_result option" where
  "decode_alarm_frame alloc inp = do {
     size_result \<leftarrow> alarm_frame_size inp;
     if \<not> frame_size_success size_result
     then Some (alarm_decode_error (afs_status size_result))
     else case (inp, afs_frame_size size_result) of
        (Ptr data, Some n) \<Rightarrow>
          if length data \<noteq> n then Some (alarm_decode_error A_INVALID_TOTAL_LENGTH)
          else decode_frame_fields alloc data
      | _ \<Rightarrow> None }"

section \<open>CRC lemmas\<close>

lemma crc32_update_eq:
  "p + n \<le> length data \<Longrightarrow>
     crc32_update crc data p n = Some (foldl crc_byte crc (take n (drop p data)))"
  by (induction n arbitrary: crc p) (simp_all add: slice_Cons)

definition frame_crc :: "bytes \<Rightarrow> u32" where
  "frame_crc covered = foldl crc_byte CRC32_INITIAL covered XOR CRC32_INITIAL"

lemma calculate_frame_crc_eq:
  assumes "48 + n \<le> length data"
  shows "calculate_frame_crc data n = Some (frame_crc (take 44 data @ take n (drop 48 data)))"
  using assms by (simp add: calculate_frame_crc_def crc32_update_eq frame_crc_def)

lemma bit_poly_mask: "bit (CRC32_POLYNOMIAL AND (- (c AND 1))) 31 = odd (c :: u32)"
proof -
  have "c AND 1 = (if odd c then 1 else 0)"
    by (simp add: and_one_eq odd_iff_mod_2_eq_one)
  then show ?thesis by (simp add: CRC32_POLYNOMIAL_def)
qed

lemma bit_crc_bit: "bit (crc_bit c) 31 = odd c"
  unfolding crc_bit_def bit_xor_iff bit_poly_mask
  using bit_imp_le_length [of c 32] by (auto simp: bit_drop_bit_eq)

lemma inj_crc_bit: "inj crc_bit"
proof (rule injI)
  fix c c' :: u32
  assume eq: "crc_bit c = crc_bit c'"
  then have par: "odd c = odd c'" by (metis bit_crc_bit)
  then have "c AND 1 = c' AND 1" by (metis and_one_eq odd_iff_mod_2_eq_one even_iff_mod_2_eq_zero)
  with eq have sh: "drop_bit 1 c = drop_bit 1 c'"
    unfolding crc_bit_def by (metis bit.xor_left_self xor.commute)
  show "c = c'"
  proof (rule bit_eqI)
    fix n show "bit c n = bit c' n"
    proof (cases n)
      case 0
      with par show ?thesis by (simp add: bit_0)
    next
      case (Suc m)
      with arg_cong [OF sh, of "\<lambda>w. bit w m"] show ?thesis by (simp add: bit_drop_bit_eq)
    qed
  qed
qed

lemma inj_crc_bits: "inj (crc_bit ^^ n)"
  using inj_crc_bit by (induction n) (auto intro: inj_compose)

lemma xor_cancel: "a XOR c = b XOR c \<longleftrightarrow> a = b" "c XOR a = c XOR b \<longleftrightarrow> a = b" for a :: "'a::len word"
proof -
  have "(a XOR c) XOR c = a" "(b XOR c) XOR c = b" by (simp_all add: xor.assoc)
  then show "a XOR c = b XOR c \<longleftrightarrow> a = b" by metis
  then show "c XOR a = c XOR b \<longleftrightarrow> a = b" by (simp add: xor.commute)
qed

lemma ucast_u8_u32: "(ucast b :: u32) = ucast b' \<longleftrightarrow> b = b'" for b :: u8
proof
  assume "(ucast b :: u32) = ucast b'"
  then have "(ucast (ucast b :: u32) :: u8) = ucast (ucast b' :: u32)" by simp
  then show "b = b'" by (simp add: ucast_down_ucast_id is_down)
qed simp

lemma crc_byte_state: "crc_byte c b = crc_byte c' b \<longleftrightarrow> c = c'"
  unfolding crc_byte_def by (simp only: inj_eq [OF inj_crc_bits] xor_cancel)

lemma crc_byte_input: "crc_byte c b = crc_byte c b' \<longleftrightarrow> b = b'"
  unfolding crc_byte_def by (simp only: inj_eq [OF inj_crc_bits] xor_cancel ucast_u8_u32)

lemma foldl_crc_state: "foldl crc_byte c bs = foldl crc_byte c' bs \<longleftrightarrow> c = c'"
  by (induction bs arbitrary: c c') (simp_all add: crc_byte_state)

lemma frame_crc_one_byte:
  "frame_crc (xs @ b # ys) = frame_crc (xs @ b' # ys) \<longleftrightarrow> b = b'"
  by (simp add: frame_crc_def xor_cancel foldl_crc_state crc_byte_input)

lemma crc_byte_unroll:
  "crc_byte crc b =
     crc_bit (crc_bit (crc_bit (crc_bit (crc_bit (crc_bit (crc_bit (crc_bit (crc XOR ucast b))))))))"
  by (simp add: crc_byte_def eval_nat_numeral)

lemmas crc_eval = crc_byte_unroll crc_bit_def CRC32_POLYNOMIAL_def CRC32_INITIAL_def

text \<open>The check value of the IEEE CRC32: the digits 1 to 9 give \<^verbatim>\<open>cbf43926\<close>.\<close>

lemma crc_check_value:
  "alarm_crc32 (Ptr [0x31, 0x32, 0x33, 0x34, 0x35, 0x36, 0x37, 0x38, 0x39]) = Some 0xcbf43926"
proof -
  have "foldl crc_byte CRC32_INITIAL [0x31, 0x32, 0x33, 0x34, 0x35, 0x36, 0x37, 0x38, 0x39]
      = 0x340bc6d9"
    by (simp add: crc_eval)
  then show ?thesis by (simp add: crc32_update_eq) (simp add: CRC32_INITIAL_def)
qed

section \<open>The layout of a frame\<close>

definition covered_header :: "alarm_frame \<Rightarrow> bytes" where
  "covered_header f = ALARM_MAGIC @ [ALARM_PROTOCOL_VERSION, af_type f] @ be16 ALARM_CURRENT_FLAGS
     @ be32 (word_of_nat (length (af_payload f))) @ be64 (af_source_id f) @ af_message_id f
     @ be64 (af_timestamp_ms f)"

definition alarm_frame_bytes :: "alarm_frame \<Rightarrow> bytes" where
  "alarm_frame_bytes f =
     covered_header f @ be32 (frame_crc (covered_header f @ af_payload f)) @ af_payload f"

definition alarm_frame_valid :: "alarm_frame \<Rightarrow> bool" where
  "alarm_frame_valid f \<longleftrightarrow> alarm_frame_wf f
     \<and> validate_frame_description (af_type f) (length (af_payload f)) = A_SUCCESS"

lemma length_covered_header: "alarm_frame_wf f \<Longrightarrow> length (covered_header f) = 44"
  by (simp add: covered_header_def ALARM_MAGIC_def alarm_frame_wf_def)

lemma length_alarm_frame_bytes:
  "alarm_frame_wf f \<Longrightarrow> length (alarm_frame_bytes f) = 48 + length (af_payload f)"
  by (simp add: alarm_frame_bytes_def length_covered_header)

lemma validate_payload_bound:
  "validate_frame_description ty n = A_SUCCESS \<Longrightarrow> n \<le> 4096"
  by (simp add: validate_frame_description_def split: if_splits)

lemma alarm_put_u32_middle:
  assumes "length h = 44" and "length z = 4"
  shows "alarm_put_u32 (h @ z @ p) 44 v = Some (h @ be32 v @ p)"
proof -
  obtain a b c d where "z = [a, b, c, d]"
    using assms(2) by (auto simp: eval_nat_numeral length_Suc_conv)
  with assms(1) show ?thesis
    by (simp add: alarm_put_u32_def be32_def set_byte_def list_update_append nth_append)
qed

lemma payload_after_gap:
  assumes "length h = 44"
  shows "copy_in (zpad h (4 + length p)) 48 p = Some (h @ replicate 4 0 @ p)"
  using assms by (simp add: copy_in_Some zpad_def replicate_add)

text \<open>What encoding computes, on every branch.\<close>

lemma encode_alarm_frame_eq:
  assumes "alarm_frame_wf f"
  shows "encode_alarm_frame alloc f = Some (
     if validate_frame_description (af_type f) (length (af_payload f)) \<noteq> A_SUCCESS
     then alarm_encode_error (validate_frame_description (af_type f) (length (af_payload f)))
     else if \<not> alloc (48 + length (af_payload f)) then alarm_encode_error A_ALLOCATION_FAILED
     else \<lparr>aer_status = A_SUCCESS, aer_bytes = alarm_frame_bytes f\<rparr>)"
proof (cases "validate_frame_description (af_type f) (length (af_payload f)) = A_SUCCESS
    \<and> alloc (48 + length (af_payload f))")
  case False
  then show ?thesis by (auto simp: encode_alarm_frame_def Let_def)
next
  case True
  have len: "length (covered_header f) = 44" by (rule length_covered_header [OF assms])
  have mid: "length (af_message_id f) = 16" using assms by (simp add: alarm_frame_wf_def)
  let ?p = "af_payload f" and ?z = "replicate 4 0 :: bytes"
  have pay: "(if ?p \<noteq> [] then copy_in (zpad (covered_header f) (4 + length ?p)) 48 ?p
      else Some (zpad (covered_header f) (4 + length ?p))) = Some (covered_header f @ ?z @ ?p)"
    using payload_after_gap [OF len, of ?p] by (auto simp: zpad_def)
  have crc: "calculate_frame_crc (covered_header f @ ?z @ ?p) (length ?p)
      = Some (frame_crc (covered_header f @ ?p))"
    using len by (simp add: calculate_frame_crc_eq)
  have "encode_alarm_frame alloc f = do {
      b \<leftarrow> (if ?p \<noteq> [] then copy_in (zpad (covered_header f) (4 + length ?p)) 48 ?p
           else Some (zpad (covered_header f) (4 + length ?p)));
      crc \<leftarrow> calculate_frame_crc b (length ?p);
      b \<leftarrow> alarm_put_u32 b 44 crc;
      Some \<lparr>aer_status = A_SUCCESS, aer_bytes = b\<rparr> }"
    using True mid
    by (simp add: encode_alarm_frame_def Let_def zpad_start layout_simps covered_header_def
        ALARM_MAGIC_def add.commute)
  then show ?thesis
    using True len by (simp only: pay crc bind.bind_lunit) (simp add: alarm_put_u32_middle alarm_frame_bytes_def)
qed

section \<open>Decoding\<close>

definition alarm_header_checks :: "bytes \<Rightarrow> bool" where
  "alarm_header_checks bs \<longleftrightarrow> 48 \<le> length bs \<and> take 4 bs = ALARM_MAGIC
     \<and> bs ! 4 = ALARM_PROTOCOL_VERSION \<and> is_valid_raw_type (bs ! 5)
     \<and> dec16 (take 2 (drop 6 bs)) = ALARM_CURRENT_FLAGS
     \<and> validate_frame_description (bs ! 5) (unat (dec32 (take 4 (drop 8 bs)))) = A_SUCCESS"

definition declared_size :: "bytes \<Rightarrow> nat" where
  "declared_size bs = 48 + unat (dec32 (take 4 (drop 8 bs)))"

lemma has_valid_magic_eq: "48 \<le> length bs \<Longrightarrow> has_valid_magic bs = Some (take 4 bs = ALARM_MAGIC)"
  by (simp add: has_valid_magic_def ALARM_MAGIC_def eval_nat_numeral)

lemma alarm_frame_size_ok:
  "alarm_header_checks bs \<Longrightarrow> alarm_frame_size (Ptr bs)
     = Some \<lparr>afs_status = A_SUCCESS, afs_frame_size = Some (declared_size bs)\<rparr>"
  by (cases "bs = []")
    (simp_all add: alarm_header_checks_def has_valid_magic_eq codec_simps declared_size_def)

lemma alarm_frame_size_rejected:
  assumes "\<not> alarm_header_checks bs"
  shows "\<exists>st. st \<noteq> A_SUCCESS \<and> alarm_frame_size (Ptr bs) = Some (make_size_error st)"
proof (cases "48 \<le> length bs")
  case False
  then show ?thesis by (cases "bs = []") auto
next
  case True
  with assms show ?thesis
    by (auto simp: alarm_header_checks_def has_valid_magic_eq codec_simps)
qed

lemma alarm_frame_size_cases:
  obtains (rejected) st where "st \<noteq> A_SUCCESS" "alarm_frame_size b = Some (make_size_error st)"
  | (accepted) bs where "b = Ptr bs" "alarm_header_checks bs"
      "alarm_frame_size b = Some \<lparr>afs_status = A_SUCCESS, afs_frame_size = Some (declared_size bs)\<rparr>"
proof (cases b)
  case (NullPtr n)
  then show ?thesis using rejected [of A_EMPTY_INPUT] by simp
next
  case (Ptr bs)
  then show ?thesis
    using alarm_frame_size_ok [of bs] alarm_frame_size_rejected [of bs] accepted rejected
    by (cases "alarm_header_checks bs") auto
qed

lemma declared_size_bounds:
  "alarm_header_checks bs \<Longrightarrow> 48 \<le> declared_size bs \<and> declared_size bs \<le> 4144"
  using validate_payload_bound by (auto simp: alarm_header_checks_def declared_size_def)

lemma frame_size_success_ok:
  "alarm_header_checks bs \<Longrightarrow>
     frame_size_success \<lparr>afs_status = A_SUCCESS, afs_frame_size = Some (declared_size bs)\<rparr>"
  using declared_size_bounds by (simp add: frame_size_success_def)

lemma frame_size_success_error [simp]: "\<not> frame_size_success (make_size_error st)"
  by (simp add: frame_size_success_def make_size_error_def)

text \<open>The size depends on the fixed header only.\<close>

lemma alarm_header_checks_append:
  "48 \<le> length bs \<Longrightarrow> alarm_header_checks (bs @ cs) = alarm_header_checks bs"
  by (simp add: alarm_header_checks_def nth_append)

lemma declared_size_append:
  "48 \<le> length bs \<Longrightarrow> declared_size (bs @ cs) = declared_size bs"
  by (simp add: declared_size_def)

definition frame_of :: "bytes \<Rightarrow> alarm_frame" where
  "frame_of bs = \<lparr>af_type = bs ! 5, af_source_id = dec64 (take 8 (drop 12 bs)),
     af_message_id = take 16 (drop 20 bs), af_timestamp_ms = dec64 (take 8 (drop 36 bs)),
     af_payload = drop 48 bs\<rparr>"

definition crc_matches :: "bytes \<Rightarrow> bool" where
  "crc_matches bs \<longleftrightarrow> dec32 (take 4 (drop 44 bs)) = frame_crc (take 44 bs @ drop 48 bs)"

lemma decode_frame_fields_eq:
  assumes "48 \<le> length bs"
  shows "decode_frame_fields alloc bs = Some (
    if \<not> crc_matches bs then alarm_decode_error A_CRC_MISMATCH
    else if length bs \<noteq> 48 \<and> \<not> alloc (length bs - 48) then alarm_decode_error A_ALLOCATION_FAILED
    else \<lparr>adr_status = A_SUCCESS, adr_frame = Some (frame_of bs)\<rparr>)"
  using assms
  by (auto simp: decode_frame_fields_def Let_def codec_simps calculate_frame_crc_eq crc_matches_def
      frame_of_def)

text \<open>What decoding computes on a buffer.\<close>

lemma decode_alarm_frame_cases:
  obtains (rejected) st where "st \<noteq> A_SUCCESS" "decode_alarm_frame alloc b = Some (alarm_decode_error st)"
    "\<And>bs. b = Ptr bs \<Longrightarrow> \<not> (alarm_header_checks bs \<and> length bs = declared_size bs \<and> crc_matches bs
       \<and> (length bs = 48 \<or> alloc (length bs - 48)))"
  | (accepted) bs where "b = Ptr bs" "alarm_header_checks bs" "length bs = declared_size bs"
      "crc_matches bs" "length bs = 48 \<or> alloc (length bs - 48)"
      "decode_alarm_frame alloc b = Some \<lparr>adr_status = A_SUCCESS, adr_frame = Some (frame_of bs)\<rparr>"
proof (rule alarm_frame_size_cases [of b])
  fix st assume st: "st \<noteq> A_SUCCESS" "alarm_frame_size b = Some (make_size_error st)"
  then have "decode_alarm_frame alloc b = Some (alarm_decode_error st)"
    by (simp add: decode_alarm_frame_def) (simp add: make_size_error_def)
  moreover have "\<And>bs. b = Ptr bs \<Longrightarrow> \<not> alarm_header_checks bs"
    using st alarm_frame_size_ok by (fastforce simp: make_size_error_def)
  ultimately show ?thesis using rejected st by blast
next
  fix bs assume b: "b = Ptr bs" "alarm_header_checks bs"
    "alarm_frame_size b = Some \<lparr>afs_status = A_SUCCESS, afs_frame_size = Some (declared_size bs)\<rparr>"
  then have dec: "decode_alarm_frame alloc b =
      (if length bs \<noteq> declared_size bs then Some (alarm_decode_error A_INVALID_TOTAL_LENGTH)
       else decode_frame_fields alloc bs)"
    by (simp add: decode_alarm_frame_def frame_size_success_ok)
  have "48 \<le> length bs" using b by (simp add: alarm_header_checks_def)
  note dec = dec [unfolded decode_frame_fields_eq [OF this]]
  show ?thesis
  proof (cases "length bs = declared_size bs \<and> crc_matches bs \<and> (length bs = 48 \<or> alloc (length bs - 48))")
    case True
    with dec b accepted [of bs] show ?thesis by auto
  next
    case False
    with dec b rejected show ?thesis by (auto split: if_splits)
  qed
qed

lemma decode_alarm_frame_total: "decode_alarm_frame alloc b \<noteq> None"
  by (rule decode_alarm_frame_cases [of alloc b]) auto

text \<open>Conversely the layout passes every check, and an accepted buffer is a layout.\<close>

lemma take_covered_slices:
  assumes "44 \<le> length bs"
  shows "take 44 bs = take 4 bs @ [bs ! 4, bs ! 5] @ take 2 (drop 6 bs) @ take 4 (drop 8 bs)
    @ take 8 (drop 12 bs) @ take 16 (drop 20 bs) @ take 8 (drop 36 bs)"
proof -
  have "take 44 bs = take (4 + (1 + (1 + (2 + (4 + (8 + (16 + 8))))))) bs" by simp
  moreover have "take 1 (drop 4 bs) = [bs ! 4]" "take 1 (drop 5 bs) = [bs ! 5]"
    using assms slice_Cons [of 4 bs 0] slice_Cons [of 5 bs 0] by simp_all
  ultimately show ?thesis
    by (simp only: take_add drop_drop append_Cons append_Nil append_assoc) simp
qed

lemma alarm_frame_bytes_of:
  assumes "alarm_header_checks bs" and "length bs = declared_size bs" and "crc_matches bs"
  shows "alarm_frame_bytes (frame_of bs) = bs" and "alarm_frame_valid (frame_of bs)"
proof -
  have len: "48 \<le> length bs" and magic: "take 4 bs = ALARM_MAGIC" "bs ! 4 = 1"
    and flags: "dec16 (take 2 (drop 6 bs)) = 0"
    and val: "validate_frame_description (bs ! 5) (unat (dec32 (take 4 (drop 8 bs)))) = A_SUCCESS"
    using assms(1) by (simp_all add: alarm_header_checks_def)
  have plen: "length bs - 48 = unat (dec32 (take 4 (drop 8 bs)))"
    using assms(2) unfolding declared_size_def by linarith
  have "be16 0 = take 2 (drop 6 bs)"
    using len be_dec(1) [of "take 2 (drop 6 bs)"] flags by simp
  moreover have "be32 (word_of_nat (length bs - 48)) = take 4 (drop 8 bs)"
    using len be_dec(2) [of "take 4 (drop 8 bs)"] by (simp add: plen)
  ultimately have head: "covered_header (frame_of bs) = take 44 bs"
    using len magic by (simp add: take_covered_slices covered_header_def frame_of_def be_dec)
  have crc: "be32 (frame_crc (take 44 bs @ drop 48 bs)) = take 4 (drop 44 bs)"
    using len be_dec(2) [of "take 4 (drop 44 bs)"] assms(3) by (simp add: crc_matches_def)
  have pay: "af_payload (frame_of bs) = drop 48 bs" by (simp add: frame_of_def)
  have "drop 48 bs = drop 4 (drop 44 bs)" by simp
  then have split: "take 44 bs @ take 4 (drop 44 bs) @ drop 48 bs = bs"
    by (simp only: append_take_drop_id)
  show "alarm_frame_bytes (frame_of bs) = bs"
    by (simp only: alarm_frame_bytes_def head pay crc split)
  show "alarm_frame_valid (frame_of bs)"
  proof -
    have "length (drop 48 bs) = unat (dec32 (take 4 (drop 8 bs)))" by (simp only: length_drop plen)
    moreover have "length (take 16 (drop 20 bs)) = 16" using len by simp
    ultimately show ?thesis
      using val by (simp only: alarm_frame_valid_def alarm_frame_wf_def frame_of_def
        ALARM_MESSAGE_ID_SIZE_def alarm_frame.select_convs simp_thms)
  qed
qed

lemma valid_raw_type: "is_valid_alarm_frame_type ty \<Longrightarrow> is_valid_raw_type ty"
  by (auto simp: is_valid_alarm_frame_type_def is_valid_raw_type_def)

lemma frame_bytes_checks:
  assumes "alarm_frame_valid f"
  shows "alarm_header_checks (alarm_frame_bytes f)"
    and "length (alarm_frame_bytes f) = declared_size (alarm_frame_bytes f)"
    and "crc_matches (alarm_frame_bytes f)" and "frame_of (alarm_frame_bytes f) = f"
proof -
  have wf: "alarm_frame_wf f" and mid: "length (af_message_id f) = 16"
    and val: "validate_frame_description (af_type f) (length (af_payload f)) = A_SUCCESS"
    using assms by (simp_all add: alarm_frame_valid_def alarm_frame_wf_def)
  have ty: "is_valid_raw_type (af_type f)"
    using val valid_raw_type by (auto simp: validate_frame_description_def split: if_splits)
  have p: "length (af_payload f) \<le> 4096" using val by (rule validate_payload_bound)
  let ?b = "alarm_frame_bytes f"
  have flat: "?b = ALARM_MAGIC @ [1, af_type f] @ be16 0
     @ be32 (word_of_nat (length (af_payload f))) @ be64 (af_source_id f) @ af_message_id f
     @ be64 (af_timestamp_ms f) @ be32 (frame_crc (covered_header f @ af_payload f)) @ af_payload f"
    by (simp add: alarm_frame_bytes_def) (simp add: covered_header_def)
  have mag: "length ALARM_MAGIC = 4" by (simp add: ALARM_MAGIC_def)
  have slices: "take 4 ?b = ALARM_MAGIC" "?b ! 4 = 1" "?b ! 5 = af_type f"
    "take 2 (drop 6 ?b) = be16 0" "take 4 (drop 8 ?b) = be32 (word_of_nat (length (af_payload f)))"
    "take 8 (drop 12 ?b) = be64 (af_source_id f)" "take 16 (drop 20 ?b) = af_message_id f"
    "take 8 (drop 36 ?b) = be64 (af_timestamp_ms f)"
    unfolding flat using mid mag by (simp_all add: nth_append)
  have tail: "take 44 ?b = covered_header f" "drop 48 ?b = af_payload f"
    "take 4 (drop 44 ?b) = be32 (frame_crc (covered_header f @ af_payload f))"
    using length_covered_header [OF wf] by (simp_all add: alarm_frame_bytes_def)
  have len: "length ?b = 48 + length (af_payload f)" by (rule length_alarm_frame_bytes [OF wf])
  show "alarm_header_checks ?b"
    using slices ty val p len by (simp add: alarm_header_checks_def codec_simps)
  show "length ?b = declared_size ?b"
    using slices p len by (simp add: declared_size_def codec_simps)
  show "crc_matches ?b" using tail by (simp add: crc_matches_def codec_simps)
  show "frame_of ?b = f" using slices tail by (simp add: frame_of_def codec_simps)
qed

lemma decode_alarm_frame_iff:
  "decode_alarm_frame alloc (Ptr bs) = Some \<lparr>adr_status = A_SUCCESS, adr_frame = Some f\<rparr> \<longleftrightarrow>
     alarm_frame_valid f \<and> bs = alarm_frame_bytes f
     \<and> (af_payload f \<noteq> [] \<longrightarrow> alloc (length (af_payload f)))"
proof
  assume dec: "decode_alarm_frame alloc (Ptr bs) = Some \<lparr>adr_status = A_SUCCESS, adr_frame = Some f\<rparr>"
  show "alarm_frame_valid f \<and> bs = alarm_frame_bytes f
     \<and> (af_payload f \<noteq> [] \<longrightarrow> alloc (length (af_payload f)))"
    by (rule decode_alarm_frame_cases [of alloc "Ptr bs"])
      (use dec alarm_frame_bytes_of [of bs] in \<open>auto simp: alarm_decode_error_def frame_of_def\<close>)
next
  assume f: "alarm_frame_valid f \<and> bs = alarm_frame_bytes f
     \<and> (af_payload f \<noteq> [] \<longrightarrow> alloc (length (af_payload f)))"
  then have "length bs = 48 + length (af_payload f)"
    by (simp add: length_alarm_frame_bytes alarm_frame_valid_def)
  then show "decode_alarm_frame alloc (Ptr bs) = Some \<lparr>adr_status = A_SUCCESS, adr_frame = Some f\<rparr>"
    by (rule_tac decode_alarm_frame_cases [of alloc "Ptr bs"]) (use f frame_bytes_checks [of f] in auto)
qed

lemma decode_empty [simp]:
  "decode_alarm_frame alloc (Ptr []) = Some (alarm_decode_error A_EMPTY_INPUT)"
  by (simp add: decode_alarm_frame_def) (simp add: make_size_error_def)

lemma decode_success_simps [simp]:
  "\<not> decode_success (alarm_decode_error st)"
  "decode_success \<lparr>adr_status = A_SUCCESS, adr_frame = Some f\<rparr>"
  by (simp_all add: decode_success_def alarm_decode_error_def)

declare alarm_frame_size.simps [simp del]

section \<open>Corruption\<close>

lemma frame_crc_update:
  assumes "i < length xs"
  shows "frame_crc (xs[i := b]) = frame_crc xs \<longleftrightarrow> b = xs ! i"
proof -
  have "xs = take i xs @ xs ! i # drop (Suc i) xs" by (rule id_take_nth_drop [OF assms])
  moreover have "xs[i := b] = take i xs @ b # drop (Suc i) xs" by (rule upd_conv_take_nth_drop [OF assms])
  ultimately show ?thesis by (metis frame_crc_one_byte)
qed

lemma crc_matches_update:
  assumes "crc_matches bs" and "48 \<le> length bs" and "i < length bs" and "b \<noteq> bs ! i"
  shows "\<not> crc_matches (bs[i := b])"
proof -
  let ?bs = "bs[i := b]"
  consider "i < 44" | "44 \<le> i" "i < 48" | "48 \<le> i" by linarith
  then show ?thesis
  proof cases
    case 1
    have "take 44 ?bs @ drop 48 ?bs = (take 44 bs @ drop 48 bs)[i := b]"
      using 1 assms by (simp add: take_update_swap list_update_append)
    moreover have "(take 44 bs @ drop 48 bs) ! i = bs ! i"
      using 1 assms by (simp add: nth_append)
    moreover have "i < length (take 44 bs @ drop 48 bs)" using 1 assms by simp
    ultimately show ?thesis
      using 1 assms frame_crc_update [of i "take 44 bs @ drop 48 bs" b]
      by (simp add: crc_matches_def)
  next
    case 2
    have "take 4 (drop 44 ?bs) = (take 4 (drop 44 bs))[i - 44 := b]"
      using 2 assms by (simp add: drop_update_swap take_update_swap)
    moreover have "take 4 (drop 44 bs) ! (i - 44) = bs ! i" "i - 44 < length (take 4 (drop 44 bs))"
      using 2 assms by simp_all
    ultimately have "take 4 (drop 44 ?bs) \<noteq> take 4 (drop 44 bs)"
      using assms(4) by (metis nth_list_update_eq)
    then have "dec32 (take 4 (drop 44 ?bs)) \<noteq> dec32 (take 4 (drop 44 bs))"
      using assms(2) be_dec(2) [of "take 4 (drop 44 bs)"] be_dec(2) [of "take 4 (drop 44 ?bs)"] by auto
    moreover have "take 44 ?bs @ drop 48 ?bs = take 44 bs @ drop 48 bs"
      using 2 by simp
    ultimately show ?thesis using assms(1) by (simp add: crc_matches_def)
  next
    case 3
    then have "\<not> i - 4 < 44" by linarith
    then have "take 44 ?bs @ drop 48 ?bs = (take 44 bs @ drop 48 bs)[i - 4 := b]"
      using 3 assms by (simp add: drop_update_swap list_update_append)
    moreover have "(take 44 bs @ drop 48 bs) ! (i - 4) = bs ! i"
      using 3 assms \<open>\<not> i - 4 < 44\<close> by (simp add: nth_append)
    moreover have "i - 4 < length (take 44 bs @ drop 48 bs)" using 3 assms by simp
    moreover have "take 4 (drop 44 ?bs) = take 4 (drop 44 bs)"
      using 3 by (simp add: take_drop)
    ultimately show ?thesis
      using assms frame_crc_update [of "i - 4" "take 44 bs @ drop 48 bs" b]
      by (simp add: crc_matches_def)
  qed
qed

section \<open>Properties\<close>

definition sample_alarm :: alarm_frame where
  "sample_alarm = \<lparr>af_type = ALARM, af_source_id = 7, af_message_id = replicate 16 9,
     af_timestamp_ms = 1700000000000, af_payload = [1, 2, 3]\<rparr>"

lemma sample_alarm_valid: "alarm_frame_valid sample_alarm"
  by (simp add: sample_alarm_def alarm_frame_valid_def alarm_frame_wf_def
      validate_frame_description_def is_valid_alarm_frame_type_def is_alarm_control_frame_def)

lemma encode_alarm_frame_iff:
  assumes "alarm_frame_wf f"
  shows "encode_alarm_frame alloc f = Some \<lparr>aer_status = A_SUCCESS, aer_bytes = bs\<rparr> \<longleftrightarrow>
    alarm_frame_valid f \<and> alloc (48 + length (af_payload f)) \<and> bs = alarm_frame_bytes f"
  using assms by (auto simp: encode_alarm_frame_eq alarm_frame_valid_def alarm_encode_error_def)

text \<open>
  C2. Corruption of one byte is always detected: change any byte of a frame that
  decodes, in the header, the checksum or the payload, and decoding rejects it.
\<close>

theorem alarm_corruption_detected:
  assumes "decode_alarm_frame alloc (Ptr bs) = Some d" and "decode_success d"
    and "i < length bs" and "b \<noteq> bs ! i"
  shows "\<exists>d'. decode_alarm_frame alloc' (Ptr (bs[i := b])) = Some d' \<and> \<not> decode_success d'
    \<and> adr_frame d' = None"
proof -
  have "crc_matches bs \<and> 48 \<le> length bs"
    by (rule decode_alarm_frame_cases [of alloc "Ptr bs"])
      (use assms in \<open>auto simp: alarm_decode_error_def decode_success_def alarm_header_checks_def\<close>)
  with assms have no: "\<not> crc_matches (bs[i := b])" by (simp add: crc_matches_update)
  show ?thesis
    by (rule decode_alarm_frame_cases [of alloc' "Ptr (bs[i := b])"])
      (use no in \<open>auto simp: alarm_decode_error_def decode_success_def\<close>)
qed

theorem alarm_corruption_detected_witness:
  "\<exists>d'. decode_alarm_frame (\<lambda>n. True) (Ptr ((alarm_frame_bytes sample_alarm)[9 := 1])) = Some d'
     \<and> \<not> decode_success d' \<and> adr_frame d' = None"
proof (rule alarm_corruption_detected)
  show "decode_alarm_frame (\<lambda>n. True) (Ptr (alarm_frame_bytes sample_alarm))
      = Some \<lparr>adr_status = A_SUCCESS, adr_frame = Some sample_alarm\<rparr>"
    by (simp add: decode_alarm_frame_iff sample_alarm_valid)
  show "decode_success \<lparr>adr_status = A_SUCCESS, adr_frame = Some sample_alarm\<rparr>"
    by (simp add: decode_success_def)
  have "alarm_frame_bytes sample_alarm ! 9 = 0" "length (alarm_frame_bytes sample_alarm) = 51"
    by (simp_all add: alarm_frame_bytes_def covered_header_def sample_alarm_def ALARM_MAGIC_def
        be16_def be32_def nth_append)
  then show "9 < length (alarm_frame_bytes sample_alarm)" "1 \<noteq> alarm_frame_bytes sample_alarm ! 9"
    by simp_all
qed

text \<open>
  Decoding never reads outside the buffer it is given, whatever the bytes or
  the pointer; it reports success exactly when it returns a frame, and that frame is
  well formed with a payload of at most 4096 bytes.
\<close>

theorem alarm_decode_safe:
  "\<exists>d. decode_alarm_frame alloc inp = Some d \<and> (adr_status d = A_SUCCESS \<longleftrightarrow> adr_frame d \<noteq> None)
     \<and> (case adr_frame d of None \<Rightarrow> True
        | Some f \<Rightarrow> alarm_frame_wf f \<and> is_valid_alarm_frame_type (af_type f)
            \<and> length (af_payload f) \<le> ALARM_MAX_PAYLOAD_SIZE
            \<and> (af_type f = ALARM) = (af_payload f \<noteq> []))"
proof (rule decode_alarm_frame_cases [of alloc inp])
  fix bs assume "inp = Ptr bs" and *: "alarm_header_checks bs" "length bs = declared_size bs" "crc_matches bs"
    and "decode_alarm_frame alloc inp = Some \<lparr>adr_status = A_SUCCESS, adr_frame = Some (frame_of bs)\<rparr>"
  moreover have "alarm_frame_valid (frame_of bs)" using * by (rule alarm_frame_bytes_of(2))
  ultimately show ?thesis
    by (auto simp: alarm_frame_valid_def validate_frame_description_def is_alarm_control_frame_def
        alarm_frame_requires_payload_def is_valid_alarm_frame_type_def split: if_splits)
qed (auto simp: alarm_decode_error_def)

text \<open>
  Encoding never writes outside its buffer and succeeds exactly for a valid
  description when the buffer can be allocated; the result then has the header size
  plus the payload size, within the frame limit.
\<close>

theorem alarm_encode_safe:
  assumes "alarm_frame_wf f"
  shows "\<exists>e. encode_alarm_frame alloc f = Some e
    \<and> (encode_success e \<longleftrightarrow> validate_frame_description (af_type f) (length (af_payload f)) = A_SUCCESS
         \<and> alloc (ALARM_HEADER_SIZE + length (af_payload f)))
    \<and> (aer_bytes e = [] \<or> length (aer_bytes e) = ALARM_HEADER_SIZE + length (af_payload f))
    \<and> length (aer_bytes e) \<le> ALARM_MAX_FRAME_SIZE"
  using assms validate_payload_bound [of "af_type f" "length (af_payload f)"]
  by (auto simp: encode_alarm_frame_eq encode_success_def alarm_encode_error_def length_alarm_frame_bytes)

theorem alarm_encode_safe_witness:
  "alarm_frame_wf sample_alarm \<and> (\<exists>e. encode_alarm_frame (\<lambda>n. n < 100) sample_alarm = Some e
    \<and> encode_success e \<and> length (aer_bytes e) = 51)"
  using alarm_encode_safe [of sample_alarm "\<lambda>n. n < 100"] sample_alarm_valid
  by (auto simp: alarm_frame_valid_def encode_success_def sample_alarm_def)

end
