(* ===== verification/Alarm_Stream.thy ===== *)
theory Alarm_Stream
  imports Alarm_Protocol "HOL-Library.Sublist"
begin

text \<open>
  The incremental decoder of \<^verbatim>\<open>src/monitor/alarm_stream_decoder.cpp\<close> that cuts a
  TCP byte stream into alarm frames. The loop of \<^verbatim>\<open>feed\<close> is a terminating recursion
  over the read cursor; \<^term>\<open>None\<close> is a read outside the input. The abstract
  specification \<open>parse_frames\<close> cuts a whole stream at once, and feeding refines it.
\<close>

section \<open>State\<close>

definition ALARM_STREAM_BUFFER_LIMIT :: nat where
  [simp]: "ALARM_STREAM_BUFFER_LIMIT = ALARM_MAX_FRAME_SIZE"

datatype alarm_stream_status =
  S_SUCCESS | S_NEED_MORE_DATA | S_INVALID_INPUT | S_PROTOCOL_ERROR | S_BUFFER_LIMIT_EXCEEDED
  | S_ALLOCATION_FAILED | S_ALREADY_FAILED

record alarm_stream_feed_result =
  sfr_status :: alarm_stream_status
  sfr_frames :: "alarm_frame list"
  sfr_protocol_status :: "alarm_protocol_status option"

definition feed_success :: "alarm_stream_feed_result \<Rightarrow> bool" where
  "feed_success r \<longleftrightarrow> sfr_status r = S_SUCCESS \<or> sfr_status r = S_NEED_MORE_DATA"

record alarm_stream_decoder =
  asd_buffer :: bytes
  asd_expected_frame_size :: "nat option"
  asd_failed :: bool
  asd_failure_status :: alarm_stream_status
  asd_protocol_error :: "alarm_protocol_status option"

definition new_decoder :: alarm_stream_decoder where
  "new_decoder = \<lparr>asd_buffer = [], asd_expected_frame_size = None, asd_failed = False,
     asd_failure_status = S_SUCCESS, asd_protocol_error = None\<rparr>"

section \<open>Operations\<close>

definition fail_protocol ::
    "alarm_stream_decoder \<Rightarrow> alarm_protocol_status \<Rightarrow> alarm_frame list
      \<Rightarrow> alarm_stream_decoder \<times> alarm_stream_feed_result" where
  "fail_protocol dec st completed =
     (dec\<lparr>asd_failed := True, asd_failure_status := S_PROTOCOL_ERROR, asd_protocol_error := Some st,
        asd_buffer := [], asd_expected_frame_size := None\<rparr>,
      \<lparr>sfr_status = S_PROTOCOL_ERROR, sfr_frames = completed, sfr_protocol_status = Some st\<rparr>)"

definition fail_stream ::
    "alarm_stream_decoder \<Rightarrow> alarm_stream_status \<Rightarrow> alarm_frame list
      \<Rightarrow> alarm_stream_decoder \<times> alarm_stream_feed_result" where
  "fail_stream dec st completed =
     (dec\<lparr>asd_failed := True, asd_failure_status := st, asd_protocol_error := None,
        asd_buffer := [], asd_expected_frame_size := None\<rparr>,
      \<lparr>sfr_status = st, sfr_frames = completed, sfr_protocol_status = None\<rparr>)"

text \<open>How one pass of the loop leaves it: by \<^verbatim>\<open>break\<close>, or by \<^verbatim>\<open>return\<close>.\<close>

datatype loop_exit =
    Break alarm_stream_decoder "alarm_frame list"
  | Return "alarm_stream_decoder \<times> alarm_stream_feed_result"

text \<open>Appending the next bytes of the input; the vector may fail to grow.\<close>

definition insert_bytes ::
    "allocator \<Rightarrow> alarm_stream_decoder \<Rightarrow> bytes \<Rightarrow> nat \<Rightarrow> nat \<Rightarrow> alarm_stream_decoder option option" where
  "insert_bytes alloc dec data cursor n = do {
     chunk \<leftarrow> copy_out data cursor n;
     if n \<noteq> 0 \<and> \<not> alloc (length (asd_buffer dec) + n) then Some None
     else Some (Some (dec\<lparr>asd_buffer := asd_buffer dec @ chunk\<rparr>)) }"

definition feed_header ::
    "allocator \<Rightarrow> alarm_stream_decoder \<Rightarrow> bytes \<Rightarrow> nat \<Rightarrow> alarm_frame list
      \<Rightarrow> (loop_exit + (alarm_stream_decoder \<times> nat)) option" where
  "feed_header alloc dec data cursor completed =
     (if asd_expected_frame_size dec \<noteq> None then Some (Inr (dec, cursor))
      else
        let header_needed = size_sub ALARM_HEADER_SIZE (length (asd_buffer dec));
            available = size_sub (length data) cursor;
            n = min header_needed available
        in do {
          inserted \<leftarrow> insert_bytes alloc dec data cursor n;
          case inserted of
            None \<Rightarrow> Some (Inl (Return (fail_stream dec S_ALLOCATION_FAILED completed)))
          | Some dec' \<Rightarrow>
              if length (asd_buffer dec') < ALARM_HEADER_SIZE then Some (Inl (Break dec' completed))
              else do {
                size_result \<leftarrow> alarm_frame_size (Ptr (asd_buffer dec'));
                if \<not> frame_size_success size_result
                then Some (Inl (Return (fail_protocol dec' (afs_status size_result) completed)))
                else do {
                  frame_size \<leftarrow> afs_frame_size size_result;
                  if frame_size > ALARM_STREAM_BUFFER_LIMIT
                  then Some (Inl (Return (fail_stream dec' S_BUFFER_LIMIT_EXCEEDED completed)))
                  else Some (Inr (dec'\<lparr>asd_expected_frame_size := Some frame_size\<rparr>, cursor + n)) } } })"

definition feed_frame ::
    "allocator \<Rightarrow> alarm_stream_decoder \<Rightarrow> bytes \<Rightarrow> nat \<Rightarrow> alarm_frame list
      \<Rightarrow> (loop_exit + (alarm_stream_decoder \<times> nat \<times> alarm_frame list)) option" where
  "feed_frame alloc dec data cursor completed = do {
     expected \<leftarrow> asd_expected_frame_size dec;
     let frame_needed = size_sub expected (length (asd_buffer dec));
         available = size_sub (length data) cursor;
         n = min frame_needed available
     in do {
       inserted \<leftarrow> insert_bytes alloc dec data cursor n;
       case inserted of
         None \<Rightarrow> Some (Inl (Return (fail_stream dec S_ALLOCATION_FAILED completed)))
       | Some dec' \<Rightarrow>
           if length (asd_buffer dec') < expected then Some (Inl (Break dec' completed))
           else if length (asd_buffer dec') > ALARM_STREAM_BUFFER_LIMIT
           then Some (Inl (Return (fail_stream dec' S_BUFFER_LIMIT_EXCEEDED completed)))
           else do {
             decoded \<leftarrow> decode_alarm_frame alloc (Ptr (asd_buffer dec'));
             if \<not> decode_success decoded
             then
               if adr_status decoded = A_ALLOCATION_FAILED
               then Some (Inl (Return (fail_stream dec' S_ALLOCATION_FAILED completed)))
               else Some (Inl (Return (fail_protocol dec' (adr_status decoded) completed)))
             else if \<not> alloc (Suc (length completed))
             then Some (Inl (Return (fail_stream dec' S_ALLOCATION_FAILED completed)))
             else do {
               frame \<leftarrow> adr_frame decoded;
               Some (Inr (dec'\<lparr>asd_buffer := [], asd_expected_frame_size := None\<rparr>, cursor + n,
                 completed @ [frame])) } } } }"

definition feed_iteration ::
    "allocator \<Rightarrow> alarm_stream_decoder \<Rightarrow> bytes \<Rightarrow> nat \<Rightarrow> alarm_frame list
      \<Rightarrow> (loop_exit + (alarm_stream_decoder \<times> nat \<times> alarm_frame list)) option" where
  "feed_iteration alloc dec data cursor completed = do {
     header \<leftarrow> feed_header alloc dec data cursor completed;
     case header of
       Inl exit \<Rightarrow> Some (Inl exit)
     | Inr (dec', cursor') \<Rightarrow> feed_frame alloc dec' data cursor' completed }"

lemma copy_out_length: "copy_out m off n = Some bs \<Longrightarrow> length bs = n \<and> off + n \<le> length m"
  by (auto simp: copy_out_def split: if_splits)

lemma insert_bytes_Some:
  "insert_bytes alloc dec data cursor n = Some (Some dec') \<Longrightarrow>
     \<exists>chunk. length chunk = n \<and> cursor + n \<le> length data \<and> dec' = dec\<lparr>asd_buffer := asd_buffer dec @ chunk\<rparr>"
  by (auto simp: insert_bytes_def elim!: bind_SomeE split: if_split_asm dest: copy_out_length)

lemma feed_header_next:
  assumes "feed_header alloc dec data cursor completed = Some (Inr (dec', cursor'))"
  shows "length (asd_buffer dec') = length (asd_buffer dec) + (cursor' - cursor) \<and> cursor \<le> cursor'"
proof (cases "asd_expected_frame_size dec = None")
  case True
  define n where "n = min (size_sub ALARM_HEADER_SIZE (length (asd_buffer dec))) (size_sub (length data) cursor)"
  from assms True have "\<exists>d. insert_bytes alloc dec data cursor n = Some (Some d)
      \<and> cursor' = cursor + n \<and> asd_buffer dec' = asd_buffer d"
    unfolding feed_header_def Let_def n_def [symmetric]
    by (auto elim!: bind_SomeE split: option.split_asm if_split_asm)
  then show ?thesis using insert_bytes_Some by fastforce
qed (use assms in \<open>simp add: feed_header_def\<close>)

lemma feed_frame_next:
  assumes "feed_frame alloc dec data cursor completed = Some (Inr (dec', cursor', completed'))"
  shows "asd_buffer dec' = [] \<and> cursor \<le> cursor' \<and> length (asd_buffer dec) + (cursor' - cursor) \<noteq> 0"
proof -
  from assms obtain e where e: "asd_expected_frame_size dec = Some e"
    by (auto simp: feed_frame_def elim: bind_SomeE)
  define n where "n = min (size_sub e (length (asd_buffer dec))) (size_sub (length data) cursor)"
  from assms [unfolded feed_frame_def e bind.bind_lunit Let_def, folded n_def]
  obtain d where ins: "insert_bytes alloc dec data cursor n = Some (Some d)"
    and res: "\<exists>r. decode_alarm_frame alloc (Ptr (asd_buffer d)) = Some r \<and> decode_success r"
      "asd_buffer dec' = []" "cursor' = cursor + n"
    by (auto elim!: bind_SomeE split: option.split_asm if_split_asm)
  from res(1) have "asd_buffer d \<noteq> []" by auto
  with insert_bytes_Some [OF ins] res show ?thesis by auto
qed

lemma feed_iteration_next:
  assumes "feed_iteration alloc dec data cursor completed = Some (Inr (dec', cursor', completed'))"
  shows "asd_buffer dec' = [] \<and> (cursor < cursor' \<or> cursor' = cursor \<and> asd_buffer dec \<noteq> [])"
proof -
  from assms obtain d c where h: "feed_header alloc dec data cursor completed = Some (Inr (d, c))"
    and f: "feed_frame alloc d data c completed = Some (Inr (dec', cursor', completed'))"
    by (auto simp: feed_iteration_def elim!: bind_SomeE split: sum.split_asm)
  from feed_header_next [OF h] feed_frame_next [OF f] show ?thesis by force
qed

function feed_loop ::
    "allocator \<Rightarrow> alarm_stream_decoder \<Rightarrow> bytes \<Rightarrow> nat \<Rightarrow> alarm_frame list \<Rightarrow> loop_exit option" where
  "feed_loop alloc dec data cursor completed =
     (if cursor < length data then
        case feed_iteration alloc dec data cursor completed of
          None \<Rightarrow> None
        | Some (Inl exit) \<Rightarrow> Some exit
        | Some (Inr (dec', cursor', completed')) \<Rightarrow> feed_loop alloc dec' data cursor' completed'
      else Some (Break dec completed))"
  by auto
termination
  by (relation "measures [\<lambda>(alloc, dec, data, cursor, completed). length data - cursor,
      \<lambda>(alloc, dec, data, cursor, completed). length (asd_buffer dec)]")
    (auto dest!: feed_iteration_next)

declare feed_loop.simps [simp del]

fun feed :: "allocator \<Rightarrow> alarm_stream_decoder \<Rightarrow> buf
    \<Rightarrow> (alarm_stream_decoder \<times> alarm_stream_feed_result) option" where
  "feed alloc dec inp =
     (if asd_failed dec
      then Some (dec, \<lparr>sfr_status = S_ALREADY_FAILED, sfr_frames = [],
             sfr_protocol_status = asd_protocol_error dec\<rparr>)
      else
        case inp of
          NullPtr (Suc n) \<Rightarrow> Some (dec, \<lparr>sfr_status = S_INVALID_INPUT, sfr_frames = [],
             sfr_protocol_status = None\<rparr>)
        | _ \<Rightarrow> do {
            exit \<leftarrow> feed_loop alloc dec (case inp of NullPtr n \<Rightarrow> [] | Ptr data \<Rightarrow> data) 0 [];
            case exit of
              Return r \<Rightarrow> Some r
            | Break dec' completed \<Rightarrow>
                let st = (if asd_buffer dec' = [] then S_SUCCESS else S_NEED_MORE_DATA)
                in Some (dec', \<lparr>sfr_status = st, sfr_frames = completed,
                     sfr_protocol_status = None\<rparr>) })"

definition finish ::
    "alarm_stream_decoder \<Rightarrow> alarm_stream_decoder \<times> alarm_stream_feed_result" where
  "finish dec =
     (if asd_failed dec
      then (dec, \<lparr>sfr_status = S_ALREADY_FAILED, sfr_frames = [],
             sfr_protocol_status = asd_protocol_error dec\<rparr>)
      else if asd_buffer dec = []
      then (dec, \<lparr>sfr_status = S_SUCCESS, sfr_frames = [], sfr_protocol_status = None\<rparr>)
      else if length (asd_buffer dec) < ALARM_HEADER_SIZE then fail_protocol dec A_SHORT_HEADER []
      else fail_protocol dec A_INVALID_TOTAL_LENGTH [])"

definition reset :: "alarm_stream_decoder \<Rightarrow> alarm_stream_decoder" where
  "reset dec = dec\<lparr>asd_buffer := [], asd_expected_frame_size := None, asd_failed := False,
     asd_failure_status := S_SUCCESS, asd_protocol_error := None\<rparr>"

section \<open>Specification: cutting a whole stream\<close>

datatype parse_end = Pending bytes | Broken alarm_protocol_status

definition header_status :: "bytes \<Rightarrow> alarm_protocol_status" where
  "header_status s = afs_status (the (alarm_frame_size (Ptr (take 48 s))))"

function parse_frames :: "bytes \<Rightarrow> alarm_frame list \<times> parse_end" where
  "parse_frames s =
     (if length s < 48 then ([], Pending s)
      else if \<not> alarm_header_checks s then ([], Broken (header_status s))
      else if length s < declared_size s then ([], Pending s)
      else if \<not> crc_matches (take (declared_size s) s) then ([], Broken A_CRC_MISMATCH)
      else (frame_of (take (declared_size s) s) # fst (parse_frames (drop (declared_size s) s)),
            snd (parse_frames (drop (declared_size s) s))))"
  by auto
termination
  by (relation "measure length") (auto simp: declared_size_def)

declare parse_frames.simps [simp del]

definition expected_size :: "bytes \<Rightarrow> nat option" where
  "expected_size s = (if length s < 48 then None else Some (declared_size s))"

definition pending :: "bytes \<Rightarrow> bool" where
  "pending s \<longleftrightarrow> length s < 48 \<or> alarm_header_checks s \<and> length s < declared_size s"

definition stream_inv :: "alarm_stream_decoder \<Rightarrow> bool" where
  "stream_inv dec \<longleftrightarrow> pending (asd_buffer dec) \<and> asd_expected_frame_size dec = expected_size (asd_buffer dec)
     \<and> (asd_failed dec \<longrightarrow> asd_buffer dec = [])"

lemma alarm_header_checks_take:
  "48 \<le> n \<Longrightarrow> n \<le> length s \<Longrightarrow> alarm_header_checks (take n s) = alarm_header_checks s"
  using alarm_header_checks_append [of "take n s" "drop n s"] by simp

lemma declared_size_take:
  "48 \<le> n \<Longrightarrow> n \<le> length s \<Longrightarrow> declared_size (take n s) = declared_size s"
  using declared_size_append [of "take n s" "drop n s"] by simp

lemma insert_bytes_eq:
  assumes "cursor + n \<le> length data"
  shows "insert_bytes alloc dec data cursor n =
    Some (if n \<noteq> 0 \<and> \<not> alloc (length (asd_buffer dec) + n) then None
      else Some (dec\<lparr>asd_buffer := asd_buffer dec @ take n (drop cursor data)\<rparr>))"
  using assms by (simp add: insert_bytes_def)

lemma fail_stream_simps [simp]:
  "fail_stream (dec\<lparr>asd_buffer := b\<rparr>) st c = fail_stream dec st c"
  "fail_stream (dec\<lparr>asd_expected_frame_size := x\<rparr>) st c = fail_stream dec st c"
  "fail_protocol (dec\<lparr>asd_buffer := b\<rparr>) ps c = fail_protocol dec ps c"
  "fail_protocol (dec\<lparr>asd_expected_frame_size := x\<rparr>) ps c = fail_protocol dec ps c"
  by (simp_all add: fail_stream_def fail_protocol_def)

definition out_of_memory ::
    "allocator \<Rightarrow> alarm_stream_decoder \<Rightarrow> alarm_frame list \<Rightarrow> (loop_exit + 'a) option \<Rightarrow> bool" where
  "out_of_memory alloc dec completed r \<longleftrightarrow>
     (\<exists>n. \<not> alloc n) \<and> r = Some (Inl (Return (fail_stream dec S_ALLOCATION_FAILED completed)))"

lemma out_of_memory_alloc:
  "\<not> alloc n \<Longrightarrow> out_of_memory alloc dec completed
     (Some (Inl (Return (fail_stream dec S_ALLOCATION_FAILED completed))))"
  by (auto simp: out_of_memory_def)

lemma alarm_decode_error_status: "adr_status (alarm_decode_error st) = st"
  by (simp add: alarm_decode_error_def)

lemma feed_header_spec:
  fixes dec data cursor
  defines "s \<equiv> asd_buffer dec @ drop cursor data"
  assumes inv: "stream_inv dec" and c: "cursor < length data"
  shows "out_of_memory alloc dec completed (feed_header alloc dec data cursor completed) \<or>
    feed_header alloc dec data cursor completed = Some (
      if length s < 48 then Inl (Break (dec\<lparr>asd_buffer := s\<rparr>) completed)
      else if \<not> alarm_header_checks s then Inl (Return (fail_protocol dec (header_status s) completed))
      else let b = (if length (asd_buffer dec) < 48 then take 48 s else asd_buffer dec)
        in Inr (dec\<lparr>asd_buffer := b, asd_expected_frame_size := Some (declared_size s)\<rparr>,
          cursor + (length b - length (asd_buffer dec))))"
proof (cases "length (asd_buffer dec) < 48")
  case False
  with inv have "asd_expected_frame_size dec = Some (declared_size s)" "alarm_header_checks s" "48 \<le> length s"
    by (auto simp: stream_inv_def pending_def expected_size_def s_def alarm_header_checks_append
        declared_size_append)
  with False show ?thesis by (simp add: feed_header_def Let_def)
next
  case True
  define n where "n = min (48 - length (asd_buffer dec)) (length data - cursor)"
  have n: "cursor + n \<le> length data" "asd_buffer dec @ take n (drop cursor data) = take 48 s"
    "length (take 48 s) = length (asd_buffer dec) + n"
    using True c by (auto simp: n_def s_def min_def)
  have e: "asd_expected_frame_size dec = None"
    using True inv by (simp add: stream_inv_def expected_size_def)
  have hd: "feed_header alloc dec data cursor completed =
     (if n \<noteq> 0 \<and> \<not> alloc (length (asd_buffer dec) + n)
      then Some (Inl (Return (fail_stream dec S_ALLOCATION_FAILED completed)))
      else if length s < 48 then Some (Inl (Break (dec\<lparr>asd_buffer := s\<rparr>) completed))
      else do {
        r \<leftarrow> alarm_frame_size (Ptr (take 48 s));
        if \<not> frame_size_success r then Some (Inl (Return (fail_protocol dec (afs_status r) completed)))
        else do {
          k \<leftarrow> afs_frame_size r;
          if k > 4144 then Some (Inl (Return (fail_stream dec S_BUFFER_LIMIT_EXCEEDED completed)))
          else Some (Inr (dec\<lparr>asd_buffer := take 48 s, asd_expected_frame_size := Some k\<rparr>, cursor + n)) } })"
  proof -
    have m: "min (size_sub ALARM_HEADER_SIZE (length (asd_buffer dec))) (size_sub (length data) cursor) = n"
      using True c by (simp add: n_def)
    have ins: "insert_bytes alloc dec data cursor n = Some (
      if n \<noteq> 0 \<and> \<not> alloc (length (asd_buffer dec) + n) then None
      else Some (dec\<lparr>asd_buffer := take 48 s\<rparr>))"
      by (simp only: insert_bytes_eq [OF n(1)] n(2))
    show ?thesis
      unfolding feed_header_def Let_def m ins using e by (simp cong: if_cong)
  qed
  show ?thesis
  proof (cases "48 \<le> length s")
    case False
    then show ?thesis unfolding hd out_of_memory_def by auto
  next
    case len: True
    show ?thesis
    proof (cases "alarm_header_checks s")
      case True
      then have "alarm_header_checks (take 48 s)" "declared_size (take 48 s) = declared_size s"
        using len by (simp_all add: alarm_header_checks_take declared_size_take)
      then show ?thesis
        using len n True \<open>length (asd_buffer dec) < 48\<close> frame_size_success_ok [of "take 48 s"]
          declared_size_bounds [OF True]
        unfolding hd out_of_memory_def by (auto simp: alarm_frame_size_ok)
    next
      case False
      then have "\<not> alarm_header_checks (take 48 s)" using len by (simp add: alarm_header_checks_take)
      then obtain st where "alarm_frame_size (Ptr (take 48 s)) = Some (make_size_error st)"
        using alarm_frame_size_rejected by blast
      then show ?thesis
        using len False unfolding hd out_of_memory_def by (auto simp: header_status_def)
    qed
  qed
qed

lemma feed_frame_spec:
  fixes dec data cursor
  defines "s \<equiv> asd_buffer dec @ drop cursor data" and "n \<equiv> declared_size (asd_buffer dec @ drop cursor data)"
  assumes e: "asd_expected_frame_size dec = Some n" and chk: "alarm_header_checks s"
    and b: "length (asd_buffer dec) \<le> n" and c: "cursor \<le> length data"
  shows "out_of_memory alloc dec completed (feed_frame alloc dec data cursor completed) \<or>
    feed_frame alloc dec data cursor completed = Some (
      if length s < n then Inl (Break (dec\<lparr>asd_buffer := s\<rparr>) completed)
      else if \<not> crc_matches (take n s) then Inl (Return (fail_protocol dec A_CRC_MISMATCH completed))
      else Inr (dec\<lparr>asd_buffer := [], asd_expected_frame_size := None\<rparr>,
        cursor + (n - length (asd_buffer dec)), completed @ [frame_of (take n s)]))"
proof -
  define k where "k = min (n - length (asd_buffer dec)) (length data - cursor)"
  have k: "cursor + k \<le> length data" "asd_buffer dec @ take k (drop cursor data) = take n s"
    using b c by (auto simp: k_def s_def min_def)
  have bnd: "48 \<le> n" "n \<le> 4144" using declared_size_bounds [OF chk] by (simp_all add: s_def n_def)
  have fr: "feed_frame alloc dec data cursor completed =
     (if k \<noteq> 0 \<and> \<not> alloc (length (asd_buffer dec) + k)
      then Some (Inl (Return (fail_stream dec S_ALLOCATION_FAILED completed)))
      else if length s < n then Some (Inl (Break (dec\<lparr>asd_buffer := s\<rparr>) completed))
      else do {
        r \<leftarrow> decode_alarm_frame alloc (Ptr (take n s));
        if \<not> decode_success r then
          if adr_status r = A_ALLOCATION_FAILED
          then Some (Inl (Return (fail_stream dec S_ALLOCATION_FAILED completed)))
          else Some (Inl (Return (fail_protocol dec (adr_status r) completed)))
        else if \<not> alloc (Suc (length completed))
        then Some (Inl (Return (fail_stream dec S_ALLOCATION_FAILED completed)))
        else do {
          f \<leftarrow> adr_frame r;
          Some (Inr (dec\<lparr>asd_buffer := [], asd_expected_frame_size := None\<rparr>, cursor + k,
            completed @ [f])) } })"
  proof -
    have m: "min (size_sub n (length (asd_buffer dec))) (size_sub (length data) cursor) = k"
      using b c by (simp add: k_def)
    have ins: "insert_bytes alloc dec data cursor k = Some (
      if k \<noteq> 0 \<and> \<not> alloc (length (asd_buffer dec) + k) then None
      else Some (dec\<lparr>asd_buffer := take n s\<rparr>))"
      by (simp only: insert_bytes_eq [OF k(1)] k(2))
    show ?thesis
      unfolding feed_frame_def e bind.bind_lunit Let_def m ins using bnd by (simp cong: if_cong)
  qed
  show ?thesis
  proof (cases "length s < n")
    case True
    then show ?thesis unfolding fr out_of_memory_def by auto
  next
    case False
    then have kk: "k = n - length (asd_buffer dec)" using c by (simp add: k_def s_def)
    have chk': "alarm_header_checks (take n s)" and sz: "declared_size (take n s) = n"
      using False chk bnd alarm_header_checks_take [of n s] declared_size_take [of n s]
      by (simp_all add: s_def n_def)
    have len: "length (take n s) = n" using False by simp
    have dec: "decode_alarm_frame alloc (Ptr (take n s)) = decode_frame_fields alloc (take n s)"
      using chk' sz len frame_size_success_ok [OF chk']
      by (simp add: decode_alarm_frame_def alarm_frame_size_ok)
    have fields: "decode_frame_fields alloc (take n s) = Some (
        if \<not> crc_matches (take n s) then alarm_decode_error A_CRC_MISMATCH
        else if n \<noteq> 48 \<and> \<not> alloc (n - 48) then alarm_decode_error A_ALLOCATION_FAILED
        else \<lparr>adr_status = A_SUCCESS, adr_frame = Some (frame_of (take n s))\<rparr>)"
      using bnd decode_frame_fields_eq [of "take n s" alloc] unfolding len by simp
    show ?thesis
      unfolding fr dec fields kk
      using False by (cases "crc_matches (take n s)"; cases "n = 48 \<or> alloc (n - 48)")
        (auto simp: out_of_memory_alloc alarm_decode_error_status)
  qed
qed

text \<open>One pass of the loop takes one step of the specification, unless memory runs out.\<close>

lemma feed_iteration_spec:
  fixes dec data cursor
  defines "s \<equiv> asd_buffer dec @ drop cursor data" and "n \<equiv> declared_size (asd_buffer dec @ drop cursor data)"
  assumes inv: "stream_inv dec" and c: "cursor < length data"
  shows "out_of_memory alloc dec completed (feed_iteration alloc dec data cursor completed) \<or>
    feed_iteration alloc dec data cursor completed = Some (
      if length s < 48 then Inl (Break (dec\<lparr>asd_buffer := s\<rparr>) completed)
      else if \<not> alarm_header_checks s then Inl (Return (fail_protocol dec (header_status s) completed))
      else if length s < n
      then Inl (Break (dec\<lparr>asd_buffer := s, asd_expected_frame_size := Some n\<rparr>) completed)
      else if \<not> crc_matches (take n s) then Inl (Return (fail_protocol dec A_CRC_MISMATCH completed))
      else Inr (dec\<lparr>asd_buffer := [], asd_expected_frame_size := None\<rparr>,
        cursor + (n - length (asd_buffer dec)), completed @ [frame_of (take n s)]))"
proof (cases "48 \<le> length s \<and> alarm_header_checks s")
  case False
  then show ?thesis
    using feed_header_spec [OF inv c, of alloc completed]
    by (auto simp: feed_iteration_def out_of_memory_def s_def [symmetric])
next
  case True
  define b where "b = (if length (asd_buffer dec) < 48 then take 48 s else asd_buffer dec)"
  define dec' where "dec' = dec\<lparr>asd_buffer := b, asd_expected_frame_size := Some n\<rparr>"
  define cursor' where "cursor' = cursor + (length b - length (asd_buffer dec))"
  have b: "length (asd_buffer dec) \<le> length b" "length b \<le> length s" "length b \<le> n"
    using True inv declared_size_bounds [of s]
    by (auto simp: b_def stream_inv_def pending_def n_def s_def declared_size_append)
  have "take 48 s @ drop (cursor + (48 - length (asd_buffer dec))) data = s"
    if "length (asd_buffer dec) < 48"
  proof -
    have "drop (cursor + (48 - length (asd_buffer dec))) data = drop 48 s"
      using that by (simp add: s_def add.commute)
    then show ?thesis by (simp only: append_take_drop_id)
  qed
  with True have s': "b @ drop cursor' data = s" by (auto simp: cursor'_def b_def s_def min_def)
  then have s'': "asd_buffer dec' @ drop cursor' data = s" by (simp add: dec'_def)
  have c': "cursor' \<le> length data" using b c by (simp add: cursor'_def s_def)
  have "feed_frame alloc dec' data cursor' completed = Some (
      if length s < n then Inl (Break (dec'\<lparr>asd_buffer := s\<rparr>) completed)
      else if \<not> crc_matches (take n s) then Inl (Return (fail_protocol dec' A_CRC_MISMATCH completed))
      else Inr (dec'\<lparr>asd_buffer := [], asd_expected_frame_size := None\<rparr>,
        cursor' + (n - length b), completed @ [frame_of (take n s)]))
    \<or> out_of_memory alloc dec' completed (feed_frame alloc dec' data cursor' completed)"
    using feed_frame_spec [of dec' cursor' data alloc completed, unfolded s''] True b c'
    by (auto simp: dec'_def n_def s_def)
  moreover have "cursor' + (n - length b) = cursor + (n - length (asd_buffer dec))"
    using b by (simp add: cursor'_def)
  moreover have "feed_header alloc dec data cursor completed = Some (Inr (dec', cursor'))
    \<or> out_of_memory alloc dec completed (feed_header alloc dec data cursor completed)"
    using feed_header_spec [OF inv c, of alloc completed] True
    by (auto simp: Let_def dec'_def cursor'_def b_def n_def s_def)
  ultimately show ?thesis
    using True by (auto simp: feed_iteration_def out_of_memory_def dec'_def)
qed

text \<open>The exit of the loop that the specification prescribes.\<close>

fun spec_exit :: "alarm_stream_decoder \<Rightarrow> alarm_frame list \<Rightarrow> alarm_frame list \<times> parse_end \<Rightarrow> loop_exit" where
  "spec_exit dec completed (fs, Pending p) =
     Break (dec\<lparr>asd_buffer := p, asd_expected_frame_size := expected_size p\<rparr>) (completed @ fs)"
| "spec_exit dec completed (fs, Broken st) = Return (fail_protocol dec st (completed @ fs))"

lemma stream_inv_reset:
  "\<not> asd_failed dec \<Longrightarrow> stream_inv (dec\<lparr>asd_buffer := [], asd_expected_frame_size := None\<rparr>)"
  by (simp add: stream_inv_def pending_def expected_size_def)

lemma spec_exit_Cons:
  "spec_exit (dec\<lparr>asd_buffer := b, asd_expected_frame_size := x\<rparr>) (completed @ [f]) r
     = spec_exit dec completed (f # fst r, snd r)"
  by (cases r; cases "snd r") auto

lemma parse_frames_pending: "pending s \<Longrightarrow> parse_frames s = ([], Pending s)"
  by (auto simp: parse_frames.simps [of s] pending_def)

lemma spec_exit_pending: "stream_inv dec \<Longrightarrow> spec_exit dec completed ([], Pending (asd_buffer dec)) = Break dec completed"
  by (simp add: stream_inv_def)

lemma feed_loop_spec:
  assumes "stream_inv dec" and "\<not> asd_failed dec" and "cursor \<le> length data"
  shows "feed_loop alloc dec data cursor completed
      = Some (spec_exit dec completed (parse_frames (asd_buffer dec @ drop cursor data)))
    \<or> (\<exists>n. \<not> alloc n) \<and> (\<exists>fs. prefix fs (fst (parse_frames (asd_buffer dec @ drop cursor data)))
        \<and> feed_loop alloc dec data cursor completed
          = Some (Return (fail_stream dec S_ALLOCATION_FAILED (completed @ fs))))"
  using assms
proof (induction alloc dec data cursor completed rule: feed_loop.induct)
  case (1 alloc dec data cursor completed)
  define s where "s = asd_buffer dec @ drop cursor data"
  define n where "n = declared_size s"
  show ?case
  proof (cases "cursor < length data")
    case False
    with 1 have "s = asd_buffer dec" by (simp add: s_def)
    moreover have "parse_frames (asd_buffer dec) = ([], Pending (asd_buffer dec))"
      using 1(2) by (intro parse_frames_pending) (simp add: stream_inv_def)
    ultimately show ?thesis
      unfolding s_def [symmetric] using False spec_exit_pending [OF 1(2)] by (simp add: feed_loop.simps)
  next
    case True
    note it = feed_iteration_spec [OF 1(2) True, of alloc completed, folded s_def, folded n_def]
    note loop = feed_loop.simps [of alloc dec data cursor completed]
    have short: "dec\<lparr>asd_buffer := s, asd_expected_frame_size := expected_size s\<rparr> = dec\<lparr>asd_buffer := s\<rparr>"
      if "length s < 48"
      using that 1(2) by (cases dec) (auto simp: stream_inv_def expected_size_def s_def)
    consider (oom) "out_of_memory alloc dec completed (feed_iteration alloc dec data cursor completed)"
      | (more) "\<not> length s < 48" "alarm_header_checks s" "\<not> length s < n" "crc_matches (take n s)"
          "feed_iteration alloc dec data cursor completed =
            Some (Inr (dec\<lparr>asd_buffer := [], asd_expected_frame_size := None\<rparr>,
              cursor + (n - length (asd_buffer dec)), completed @ [frame_of (take n s)]))"
      | (stop) "feed_iteration alloc dec data cursor completed
          = Some (Inl (spec_exit dec completed (parse_frames s)))"
      using it short by (auto simp: parse_frames.simps [of s] n_def expected_size_def split: if_split_asm)
    then show ?thesis
    proof cases
      case oom
      then show ?thesis
        using True by (auto simp: loop out_of_memory_def s_def intro!: exI [of _ "[]"])
    next
      case stop
      then show ?thesis using True by (simp add: loop s_def)
    next
      case more
      let ?dec = "dec\<lparr>asd_buffer := [], asd_expected_frame_size := None\<rparr>"
      let ?cursor = "cursor + (n - length (asd_buffer dec))"
      have b: "length (asd_buffer dec) \<le> n"
        using 1(2) declared_size_bounds [OF more(2)]
          declared_size_append [of "asd_buffer dec" "drop cursor data"]
        unfolding stream_inv_def pending_def n_def s_def by linarith
      have rest: "drop ?cursor data = drop n s" using b by (simp add: s_def add.commute)
      have parse: "parse_frames s = (frame_of (take n s) # fst (parse_frames (drop n s)),
          snd (parse_frames (drop n s)))"
        using more by (simp add: parse_frames.simps [of s] n_def)
      have step: "feed_loop alloc dec data cursor completed
          = feed_loop alloc ?dec data ?cursor (completed @ [frame_of (take n s)])"
        using True more by (simp add: loop)
      have "?cursor \<le> length data" using more(3) b True by (simp add: s_def)
      with 1(1) [OF True more(5) refl refl refl] stream_inv_reset [OF 1(3)] 1(3)
      have IH: "feed_loop alloc dec data cursor completed
          = Some (spec_exit ?dec (completed @ [frame_of (take n s)]) (parse_frames (drop n s)))
        \<or> (\<exists>m. \<not> alloc m) \<and> (\<exists>fs. prefix fs (fst (parse_frames (drop n s)))
          \<and> feed_loop alloc dec data cursor completed = Some (Return (fail_stream dec S_ALLOCATION_FAILED
              ((completed @ [frame_of (take n s)]) @ fs))))"
        by (simp add: step rest)
      have "prefix (frame_of (take n s) # fs) (fst (parse_frames s))" if "prefix fs (fst (parse_frames (drop n s)))" for fs
        using that by (simp add: parse)
      with IH show ?thesis
        unfolding s_def [symmetric] spec_exit_Cons parse [symmetric] by fastforce
    qed
  qed
qed

section \<open>Streams and their parts\<close>

lemma parse_frames_step:
  assumes "alarm_header_checks s" "declared_size s \<le> length s" "crc_matches (take (declared_size s) s)"
  shows "parse_frames s = (frame_of (take (declared_size s) s) # fst (parse_frames (drop (declared_size s) s)),
      snd (parse_frames (drop (declared_size s) s)))"
proof -
  have "\<not> length s < 48" using assms(1) by (simp add: alarm_header_checks_def)
  with assms show ?thesis by (simp add: parse_frames.simps [of s])
qed

lemma parse_frames_cases:
  obtains (pending) "pending s" "parse_frames s = ([], Pending s)"
  | (broken) st where "48 \<le> length s" "\<And>t. parse_frames (s @ t) = ([], Broken st)"
  | (frame) "alarm_header_checks s" "declared_size s \<le> length s"
      "crc_matches (take (declared_size s) s)"
proof (cases "pending s")
  case True
  then show ?thesis using that(1) parse_frames_pending by blast
next
  case np: False
  then have len: "48 \<le> length s" by (simp add: pending_def)
  show ?thesis
  proof (cases "alarm_header_checks s")
    case False
    have "parse_frames (s @ t) = ([], Broken (header_status s))" for t
      using False len
      by (simp add: parse_frames.simps [of "s @ t"] alarm_header_checks_append header_status_def)
    with len that(2) show ?thesis by blast
  next
    case True
    with np have sz: "declared_size s \<le> length s" by (simp add: pending_def)
    show ?thesis
    proof (cases "crc_matches (take (declared_size s) s)")
      case False
      have "parse_frames (s @ t) = ([], Broken A_CRC_MISMATCH)" for t
        using False True len sz
        by (simp add: parse_frames.simps [of "s @ t"] alarm_header_checks_append declared_size_append)
      with len that(2) show ?thesis by blast
    qed (use that(3) True sz in blast)
  qed
qed

fun parse_more :: "alarm_frame list \<times> parse_end \<Rightarrow> bytes \<Rightarrow> alarm_frame list \<times> parse_end" where
  "parse_more (fs, Pending p) t = (fs @ fst (parse_frames (p @ t)), snd (parse_frames (p @ t)))"
| "parse_more (fs, Broken st) t = (fs, Broken st)"

lemma parse_more_Cons: "parse_more (f # fs, e) t = (f # fst (parse_more (fs, e) t), snd (parse_more (fs, e) t))"
  by (cases e) simp_all

lemma parse_frames_append: "parse_frames (s @ t) = parse_more (parse_frames s) t"
proof (induction s rule: parse_frames.induct)
  case (1 s)
  show ?case
  proof (rule parse_frames_cases [of s])
    fix st assume "\<And>t. parse_frames (s @ t) = ([], Broken st)"
    from this [of t] this [of "[]"] show ?thesis by simp
  next
    assume f: "alarm_header_checks s" "declared_size s \<le> length s" "crc_matches (take (declared_size s) s)"
    then have len: "48 \<le> length s" by (simp add: alarm_header_checks_def)
    let ?d = "drop (declared_size s) s"
    have "parse_frames (s @ t) = (frame_of (take (declared_size s) s) # fst (parse_frames (?d @ t)),
        snd (parse_frames (?d @ t)))"
      using f len parse_frames_step [of "s @ t"]
      by (simp add: alarm_header_checks_append declared_size_append)
    moreover have "parse_frames (?d @ t) = parse_more (parse_frames ?d) t"
      using 1 f len by simp
    ultimately show ?thesis
      using parse_frames_step [OF f] by (simp add: parse_more_Cons)
  qed simp
qed

lemma parse_frames_pending_end: "snd (parse_frames s) = Pending p \<Longrightarrow> pending p"
proof (induction s rule: parse_frames.induct)
  case (1 s)
  show ?case
  proof (rule parse_frames_cases [of s])
    fix st assume "\<And>t. parse_frames (s @ t) = ([], Broken st)"
    from this [of "[]"] 1 show ?thesis by simp
  next
    assume f: "alarm_header_checks s" "declared_size s \<le> length s" "crc_matches (take (declared_size s) s)"
    then have "48 \<le> length s" by (simp add: alarm_header_checks_def)
    then show ?thesis using 1 f parse_frames_step [OF f] by simp
  qed (use 1 in auto)
qed

text \<open>The streams that parse without a rest are the concatenations of encoded frames.\<close>

lemma parse_frames_exact:
  "parse_frames s = (fs, Pending []) \<longleftrightarrow> list_all alarm_frame_valid fs \<and> s = concat (map alarm_frame_bytes fs)"
proof
  assume "parse_frames s = (fs, Pending [])"
  then show "list_all alarm_frame_valid fs \<and> s = concat (map alarm_frame_bytes fs)"
  proof (induction s arbitrary: fs rule: parse_frames.induct)
    case (1 s)
    show ?case
    proof (rule parse_frames_cases [of s])
      fix st assume "\<And>t. parse_frames (s @ t) = ([], Broken st)"
      from this [of "[]"] 1 show ?thesis by simp
    next
      assume f: "alarm_header_checks s" "declared_size s \<le> length s" "crc_matches (take (declared_size s) s)"
      then have len: "48 \<le> length s" by (simp add: alarm_header_checks_def)
      have bnd: "48 \<le> declared_size s" using declared_size_bounds [OF f(1)] by simp
      let ?t = "take (declared_size s) s"
      have "alarm_header_checks ?t" "length ?t = declared_size ?t"
        using f bnd by (simp_all add: alarm_header_checks_take declared_size_take)
      note ok = alarm_frame_bytes_of [OF this f(3)]
      obtain gs where gs: "fs = frame_of ?t # gs" "parse_frames (drop (declared_size s) s) = (gs, Pending [])"
        using 1(3) parse_frames_step [OF f] by (cases "parse_frames (drop (declared_size s) s)") auto
      then have "list_all alarm_frame_valid gs \<and> drop (declared_size s) s = concat (map alarm_frame_bytes gs)"
        using 1(1,2) f len by simp
      with ok gs(1) show ?thesis 
        by (metis append_take_drop_id concat.simps(2) list.map(2) list.pred_inject(2))
    qed (use 1 in auto)
  qed
next
  assume "list_all alarm_frame_valid fs \<and> s = concat (map alarm_frame_bytes fs)"
  then show "parse_frames s = (fs, Pending [])"
  proof (induction fs arbitrary: s)
    case Nil
    then show ?case by (simp add: parse_frames.simps)
  next
    case (Cons f fs)
    let ?b = "alarm_frame_bytes f"
    have v: "alarm_frame_valid f" and s: "s = ?b @ concat (map alarm_frame_bytes fs)" using Cons by simp_all
    note c = frame_bytes_checks [OF v]
    have len: "48 \<le> length ?b" using c(1) by (simp add: alarm_header_checks_def)
    have "alarm_header_checks s" "declared_size s = length ?b"
      using c len by (simp_all add: s alarm_header_checks_append declared_size_append)
    then show ?case
      using c Cons parse_frames_step [of s] by (simp add: s)
  qed
qed

section \<open>Feeding\<close>

text \<open>What one call does when memory suffices, in terms of the specification.\<close>

fun spec_feed :: "alarm_stream_decoder \<Rightarrow> alarm_frame list \<times> parse_end
    \<Rightarrow> alarm_stream_decoder \<times> alarm_stream_feed_result" where
  "spec_feed dec (fs, Pending p) =
     (dec\<lparr>asd_buffer := p, asd_expected_frame_size := expected_size p\<rparr>,
      \<lparr>sfr_status = (if p = [] then S_SUCCESS else S_NEED_MORE_DATA), sfr_frames = fs,
        sfr_protocol_status = None\<rparr>)"
| "spec_feed dec (fs, Broken st) = fail_protocol dec st fs"

lemma feed_eq:
  assumes "stream_inv dec" and "\<not> asd_failed dec"
  shows "feed alloc dec (Ptr data) = Some (spec_feed dec (parse_frames (asd_buffer dec @ data)))
    \<or> (\<exists>n. \<not> alloc n) \<and> (\<exists>fs. prefix fs (fst (parse_frames (asd_buffer dec @ data)))
        \<and> feed alloc dec (Ptr data) = Some (fail_stream dec S_ALLOCATION_FAILED fs))"
  using feed_loop_spec [OF assms, of 0 data alloc "[]"] assms(2)
  by (cases "parse_frames (asd_buffer dec @ data)"; cases "snd (parse_frames (asd_buffer dec @ data))")
    auto

lemma stream_inv_new: "stream_inv new_decoder" "\<not> asd_failed new_decoder"
  by (simp_all add: new_decoder_def stream_inv_def pending_def expected_size_def)

lemma stream_inv_fail:
  "stream_inv (fst (fail_protocol dec st fs))" "stream_inv (fst (fail_stream dec ss fs))"
  by (simp_all add: fail_protocol_def fail_stream_def stream_inv_def pending_def expected_size_def)

lemma stream_inv_spec_feed:
  "\<not> asd_failed dec \<Longrightarrow> stream_inv (fst (spec_feed dec (parse_frames s)))"
  using parse_frames_pending_end [of s] stream_inv_fail
  by (cases "parse_frames s"; cases "snd (parse_frames s)") (auto simp: stream_inv_def)

text \<open>Feeding the chunks of a stream one after the other, collecting the frames.\<close>

primrec feed_all :: "alarm_stream_decoder \<Rightarrow> bytes list \<Rightarrow> (alarm_stream_decoder \<times> alarm_frame list) option" where
  "feed_all dec [] = Some (dec, [])"
| "feed_all dec (c # cs) = do {
     r \<leftarrow> feed (\<lambda>n. True) dec (Ptr c);
     rest \<leftarrow> feed_all (fst r) cs;
     Some (fst rest, sfr_frames (snd r) @ snd rest) }"

lemma feed_all_failed: "asd_failed dec \<Longrightarrow> feed_all dec cs = Some (dec, [])"
  by (induction cs) simp_all

fun spec_all :: "alarm_stream_decoder \<Rightarrow> alarm_frame list \<times> parse_end \<Rightarrow> alarm_stream_decoder \<times> alarm_frame list" where
  "spec_all dec (fs, e) = (fst (spec_feed dec (fs, e)), fs)"

lemma feed_all_eq:
  assumes "stream_inv dec" and "\<not> asd_failed dec"
  shows "feed_all dec cs = Some (spec_all dec (parse_frames (asd_buffer dec @ concat cs)))"
  using assms
proof (induction cs arbitrary: dec)
  case Nil
  then have "parse_frames (asd_buffer dec) = ([], Pending (asd_buffer dec))"
    by (intro parse_frames_pending) (simp add: stream_inv_def)
  with Nil show ?case by (simp add: stream_inv_def)
next
  case (Cons c cs)
  define r where "r = parse_frames (asd_buffer dec @ c)"
  have feed: "feed (\<lambda>n. True) dec (Ptr c) = Some (spec_feed dec r)"
    using feed_eq [OF Cons(2,3), of "\<lambda>n. True" c] by (simp add: r_def)
  have whole: "parse_frames (asd_buffer dec @ concat (c # cs)) = parse_more r (concat cs)"
    unfolding r_def by (simp add: parse_frames_append [symmetric])
  show ?case
  proof (cases "snd r")
    case (Broken st)
    then have "r = (fst r, Broken st)" by (metis prod.collapse)
    then obtain fs where r: "r = (fs, Broken st)" by metis
    show ?thesis
      unfolding whole using feed by (simp add: r fail_protocol_def feed_all_failed)
  next
    case (Pending p)
    then have "r = (fst r, Pending p)" by (metis prod.collapse)
    then obtain fs where r: "r = (fs, Pending p)" by metis
    let ?d = "dec\<lparr>asd_buffer := p, asd_expected_frame_size := expected_size p\<rparr>"
    have "stream_inv ?d" using stream_inv_spec_feed [OF Cons(3), of "asd_buffer dec @ c"] by (simp add: r_def [symmetric] r)
    with Cons.IH [of ?d] Cons(3)
    have "feed_all ?d cs = Some (spec_all ?d (parse_frames (p @ concat cs)))" by simp
    then show ?thesis
      unfolding whole using feed
      by (cases "parse_frames (p @ concat cs)"; cases "snd (parse_frames (p @ concat cs))")
        (simp_all add: r fail_protocol_def)
  qed
qed

lemma valid_encodes:
  "alarm_frame_valid f \<and> e = alarm_frame_bytes f \<longleftrightarrow>
     alarm_frame_wf f \<and> encode_alarm_frame (\<lambda>n. True) f = Some \<lparr>aer_status = A_SUCCESS, aer_bytes = e\<rparr>"
  using encode_alarm_frame_iff [of f "\<lambda>n. True" e] by (auto simp: alarm_frame_valid_def)

lemma list_valid_encodes:
  "(\<exists>es. list_all2 (\<lambda>f e. alarm_frame_wf f \<and> encode_alarm_frame (\<lambda>n. True) f
       = Some \<lparr>aer_status = A_SUCCESS, aer_bytes = e\<rparr>) fs es \<and> s = concat es)
   \<longleftrightarrow> list_all alarm_frame_valid fs \<and> s = concat (map alarm_frame_bytes fs)"
proof -
  have "list_all2 (\<lambda>f e. alarm_frame_valid f \<and> e = alarm_frame_bytes f) fs es \<longleftrightarrow>
      list_all alarm_frame_valid fs \<and> es = map alarm_frame_bytes fs" for es
    by (induction fs arbitrary: es) (auto simp: list_all2_Cons1)
  then show ?thesis unfolding valid_encodes by auto
qed

section \<open>Properties\<close>

text \<open>
  C1. A stream is accepted exactly when it is a concatenation of encoded frames, and
  then those frames are delivered in order: whatever the chunks the stream arrives in,
  feeding them to a new decoder yields the frames \<open>fs\<close> and \<open>finish\<close> reports success if
  and only if the chunks together are the encodings of \<open>fs\<close>. Memory is assumed available.
\<close>

theorem stream_exact:
  "(\<exists>dec. feed_all new_decoder cs = Some (dec, fs) \<and> sfr_status (snd (finish dec)) = S_SUCCESS) \<longleftrightarrow>
   (\<exists>es. list_all2 (\<lambda>f e. alarm_frame_wf f \<and> encode_alarm_frame (\<lambda>n. True) f
        = Some \<lparr>aer_status = A_SUCCESS, aer_bytes = e\<rparr>) fs es \<and> concat cs = concat es)"
proof -
  have "(\<exists>dec. feed_all new_decoder cs = Some (dec, fs) \<and> sfr_status (snd (finish dec)) = S_SUCCESS)
      \<longleftrightarrow> parse_frames (concat cs) = (fs, Pending [])"
    using feed_all_eq [OF stream_inv_new, of cs]
    by (cases "parse_frames (concat cs)"; cases "snd (parse_frames (concat cs))")
      (auto simp: new_decoder_def finish_def fail_protocol_def)
  then show ?thesis unfolding list_valid_encodes by (simp add: parse_frames_exact)
qed

text \<open>
  C14. How the bytes are cut into chunks does not matter: two ways of cutting the same
  bytes leave any well-formed decoder in the same state with the same frames delivered,
  also when the stream is broken or ends inside a frame. Memory is assumed available.
\<close>

theorem stream_fragmentation:
  assumes "stream_inv dec" and "concat cs = concat cs'"
  shows "feed_all dec cs = feed_all dec cs'"
  using assms by (cases "asd_failed dec") (simp_all add: feed_all_failed feed_all_eq)

theorem stream_fragmentation_witness:
  "feed_all new_decoder [[0x53, 0x4D], [0x41], [0x31, 1, 9]] = feed_all new_decoder [[0x53, 0x4D, 0x41, 0x31, 1, 9]]"
  by (rule stream_fragmentation) (simp_all add: stream_inv_new)

text \<open>
  C16. Memory safety and bounded memory, for every allocator and every input: a call
  never reads outside the input, it keeps the decoder well formed, the buffer stays
  below one maximal frame, and a failed decoder holds no bytes.
\<close>

theorem stream_feed_safe:
  assumes "stream_inv dec"
  shows "\<exists>dec' r. feed alloc dec inp = Some (dec', r) \<and> stream_inv dec'
    \<and> length (asd_buffer dec') < ALARM_STREAM_BUFFER_LIMIT
    \<and> sfr_status r \<noteq> S_BUFFER_LIMIT_EXCEEDED
    \<and> (sfr_status r = S_PROTOCOL_ERROR \<or> sfr_status r = S_ALLOCATION_FAILED \<longleftrightarrow>
         asd_failed dec' \<and> \<not> asd_failed dec)"
proof -
  have lim: "length (asd_buffer d) < 4144" if "stream_inv d" for d
    using that declared_size_bounds [of "asd_buffer d"] by (auto simp: stream_inv_def pending_def)
  show ?thesis
  proof (cases "asd_failed dec")
    case True
    with assms lim show ?thesis by simp
  next
    case False
    have *: "\<exists>dec' r. feed alloc dec (Ptr data) = Some (dec', r) \<and> stream_inv dec'
        \<and> sfr_status r \<noteq> S_BUFFER_LIMIT_EXCEEDED
        \<and> (sfr_status r = S_PROTOCOL_ERROR \<or> sfr_status r = S_ALLOCATION_FAILED \<longleftrightarrow> asd_failed dec')" for data
    proof -
      let ?p = "parse_frames (asd_buffer dec @ data)"
      have "\<exists>r. r = spec_feed dec ?p \<and> stream_inv (fst r) \<and> sfr_status (snd r) \<noteq> S_BUFFER_LIMIT_EXCEEDED
        \<and> (sfr_status (snd r) = S_PROTOCOL_ERROR \<or> sfr_status (snd r) = S_ALLOCATION_FAILED \<longleftrightarrow> asd_failed (fst r))"
        using stream_inv_spec_feed [OF False, of "asd_buffer dec @ data"] False
        by (cases ?p; cases "snd ?p") (simp_all add: fail_protocol_def)
      moreover have "stream_inv (fst r) \<and> sfr_status (snd r) = S_ALLOCATION_FAILED \<and> asd_failed (fst r)"
        if "r = fail_stream dec S_ALLOCATION_FAILED fs" for r fs
        using that stream_inv_fail(2) [of dec S_ALLOCATION_FAILED fs] by (simp add: fail_stream_def)
      ultimately show ?thesis
        using feed_eq [OF assms False, of alloc data] by (metis alarm_stream_status.distinct prod.collapse)
    qed
    show ?thesis
    proof (cases inp)
      case (Ptr data)
      then show ?thesis using * [of data] lim False by (auto simp del: feed.simps)
    next
      case (NullPtr n)
      have "feed alloc dec (NullPtr 0) = feed alloc dec (Ptr [])" by simp
      with NullPtr show ?thesis
        using * [of "[]"] lim False assms by (cases n) (auto simp del: feed.simps simp: feed.simps [of _ _ "NullPtr (Suc _)"])
    qed
  qed
qed

theorem stream_feed_safe_witness:
  "stream_inv new_decoder \<and> (\<exists>dec' r. feed (\<lambda>n. n < 10) new_decoder (Ptr (replicate 60 0)) = Some (dec', r)
     \<and> stream_inv dec')"
  using stream_feed_safe [OF stream_inv_new(1), of "\<lambda>n. n < 10" "Ptr (replicate 60 0)"] stream_inv_new(1)
  by (auto simp del: feed.simps)

text \<open>
  C25. Errors lose no complete frame and no frame is made up: whatever memory does,
  the frames a call returns are a prefix of those the stream contains, and all of them
  unless memory ran out.
\<close>

theorem stream_frames_prefix:
  assumes "stream_inv dec" and "\<not> asd_failed dec"
  shows "\<exists>dec' r. feed alloc dec (Ptr data) = Some (dec', r)
    \<and> prefix (sfr_frames r) (fst (parse_frames (asd_buffer dec @ data)))
    \<and> (sfr_status r = S_ALLOCATION_FAILED \<or> sfr_frames r = fst (parse_frames (asd_buffer dec @ data)))"
  using feed_eq [OF assms, of alloc data]
proof
  assume "feed alloc dec (Ptr data) = Some (spec_feed dec (parse_frames (asd_buffer dec @ data)))"
  then show ?thesis
    by (cases "parse_frames (asd_buffer dec @ data)"; cases "snd (parse_frames (asd_buffer dec @ data))")
      (auto simp: fail_protocol_def simp del: feed.simps)
qed (auto simp: fail_stream_def simp del: feed.simps)

theorem stream_frames_prefix_witness:
  "\<exists>dec' r. feed (\<lambda>n. n < 70) new_decoder (Ptr (alarm_frame_bytes sample_alarm)) = Some (dec', r)
     \<and> prefix (sfr_frames r) [sample_alarm]"
proof -
  have "parse_frames (alarm_frame_bytes sample_alarm) = ([sample_alarm], Pending [])"
    by (simp add: parse_frames_exact sample_alarm_valid)
  then show ?thesis
    using stream_frames_prefix [OF stream_inv_new, of "\<lambda>n. n < 70" "alarm_frame_bytes sample_alarm"]
    by (auto simp: new_decoder_def simp del: feed.simps)
qed

end
