(* ===== verification/Arc_Node.thy ===== *)
theory Arc_Node
  imports TLSS_Prelude "HOL-Library.AList"
begin

text \<open>
  The nodes of \<^verbatim>\<open>inc/common/cache/arc_node.h\<close> and the doubly linked lists the cache
  partitions build from them. A heap maps addresses to nodes; a pointer is an
  address or null. A \<^verbatim>\<open>std::shared_ptr\<close> that is not null always points to a live
  node, so a heap is total and the only failing access is through null. The lemmas
  relate the pointer operations to operations on the list of addresses between two
  sentinels. The access count is a natural number: a \<^verbatim>\<open>std::size_t\<close> would wrap only after
  \<open>2 ^ 64\<close> accesses of one node.
\<close>

section \<open>Nodes\<close>

type_synonym addr = nat

record ('k, 'v) arc_node =
  nd_key :: 'k
  nd_value :: 'v
  nd_access_count :: nat
  nd_prev :: "addr option"
  nd_next :: "addr option"

type_synonym ('k, 'v) heap = "addr \<Rightarrow> ('k, 'v) arc_node"

definition new_arc_node :: "'k \<Rightarrow> 'v \<Rightarrow> ('k, 'v) arc_node" where
  "new_arc_node k v = \<lparr>nd_key = k, nd_value = v, nd_access_count = 1, nd_prev = None, nd_next = None\<rparr>"

definition set_value :: "('k, 'v) heap \<Rightarrow> addr \<Rightarrow> 'v \<Rightarrow> ('k, 'v) heap" where
  "set_value h p v = h(p := (h p)\<lparr>nd_value := v\<rparr>)"

definition increment_access_count :: "('k, 'v) heap \<Rightarrow> addr \<Rightarrow> ('k, 'v) heap" where
  "increment_access_count h p = h(p := (h p)\<lparr>nd_access_count := nd_access_count (h p) + 1\<rparr>)"

definition set_next :: "('k, 'v) heap \<Rightarrow> addr \<Rightarrow> addr option \<Rightarrow> ('k, 'v) heap" where
  "set_next h p q = h(p := (h p)\<lparr>nd_next := q\<rparr>)"

definition set_prev :: "('k, 'v) heap \<Rightarrow> addr \<Rightarrow> addr option \<Rightarrow> ('k, 'v) heap" where
  "set_prev h p q = h(p := (h p)\<lparr>nd_prev := q\<rparr>)"

text \<open>Unlinking a node, with the checks that it is linked at all.\<close>

definition remove_node :: "('k, 'v) heap \<Rightarrow> addr \<Rightarrow> ('k, 'v) heap \<times> bool" where
  "remove_node h node =
     (case (nd_prev (h node), nd_next (h node)) of
        (Some prev, Some nxt) \<Rightarrow>
          if nd_next (h prev) \<noteq> Some node \<or> nd_prev (h nxt) \<noteq> Some node then (h, False)
          else
            let h = set_next h prev (Some nxt);
                h = set_prev h nxt (Some prev);
                h = set_next h node None;
                h = set_prev h node None
            in (h, True)
      | _ \<Rightarrow> (h, False))"

section \<open>Lists of nodes\<close>

fun linked :: "('k, 'v) heap \<Rightarrow> addr list \<Rightarrow> bool" where
  "linked h (a # b # xs) \<longleftrightarrow> nd_next (h a) = Some b \<and> nd_prev (h b) = Some a \<and> linked h (b # xs)"
| "linked h _ \<longleftrightarrow> True"

definition dll :: "('k, 'v) heap \<Rightarrow> addr \<Rightarrow> addr list \<Rightarrow> addr \<Rightarrow> bool" where
  "dll h front xs back \<longleftrightarrow> distinct (front # xs @ [back]) \<and> linked h (front # xs @ [back])"

definition detached :: "('k, 'v) heap \<Rightarrow> addr \<Rightarrow> bool" where
  "detached h p \<longleftrightarrow> nd_next (h p) = None \<and> nd_prev (h p) = None"

text \<open>What a node holds apart from its links.\<close>

definition content :: "('k, 'v) arc_node \<Rightarrow> 'k \<times> 'v \<times> nat" where
  "content n = (nd_key n, nd_value n, nd_access_count n)"

lemma content_links [simp]:
  "content (n\<lparr>nd_next := q\<rparr>) = content n" "content (n\<lparr>nd_prev := q\<rparr>) = content n"
  by (simp_all add: content_def)

lemma content_sel: "content n = content m \<Longrightarrow> nd_key n = nd_key m \<and> nd_value n = nd_value m
    \<and> nd_access_count n = nd_access_count m"
  by (simp add: content_def)

lemma in_set_tl: "a \<in> set (tl xs) \<Longrightarrow> a \<in> set xs"
  by (cases xs) auto

lemma linked_append_Cons: "linked h (xs @ a # ys) \<longleftrightarrow> linked h (xs @ [a]) \<and> linked h (a # ys)"
  by (induction xs rule: linked.induct [of _ h]) (cases ys; simp)+

lemma linked_cong:
  assumes "\<And>a. a \<in> set (butlast xs) \<Longrightarrow> nd_next (h a) = nd_next (h' a)"
    and "\<And>a. a \<in> set (tl xs) \<Longrightarrow> nd_prev (h a) = nd_prev (h' a)"
  shows "linked h xs = linked h' xs"
  using assms by (induction h xs rule: linked.induct) simp_all

lemma linked_middle:
  "linked h (as @ [p, x, q] @ bs) \<longleftrightarrow> linked h (as @ [p]) \<and> nd_next (h p) = Some x \<and> nd_prev (h x) = Some p
     \<and> nd_next (h x) = Some q \<and> nd_prev (h q) = Some x \<and> linked h (q # bs)"
  using linked_append_Cons [of h as p "x # q # bs"] by auto

lemma linked_pair:
  "linked h (as @ [p, q] @ bs) \<longleftrightarrow> linked h (as @ [p]) \<and> nd_next (h p) = Some q \<and> nd_prev (h q) = Some p
     \<and> linked h (q # bs)"
  using linked_append_Cons [of h as p "q # bs"] by auto

section \<open>Operations on lists\<close>

lemma dll_splitE:
  assumes "dll h front xs back" and "x \<in> set xs"
  obtains as bs p q ps qs where "xs = as @ x # bs" "front # as = ps @ [p]" "bs @ [back] = q # qs"
    "front # xs @ [back] = ps @ [p, x, q] @ qs"
proof -
  obtain as bs where xs: "xs = as @ x # bs" using assms(2) by (metis split_list)
  obtain ps p where p: "front # as = ps @ [p]" by (metis append_butlast_last_id list.distinct(1))
  obtain q qs where q: "bs @ [back] = q # qs" by (metis append_is_Nil_conv list.exhaust not_Cons_self2)
  have "front # xs @ [back] = (front # as) @ x # (bs @ [back])" by (simp add: xs)
  also have "\<dots> = ps @ [p, x, q] @ qs" unfolding p q by simp
  finally show ?thesis using that xs p q by blast
qed

text \<open>Unlinking a node of the list removes it and leaves the other nodes alone.\<close>

lemma remove_node_dll:
  assumes dll: "dll h front xs back" and x: "x \<in> set xs"
  obtains h' where "remove_node h x = (h', True)" "dll h' front (remove1 x xs) back" "detached h' x"
    "\<And>p. content (h' p) = content (h p)" "\<And>p. p \<notin> set (front # xs @ [back]) \<Longrightarrow> h' p = h p"
proof -
  obtain as bs p q ps qs where xs: "xs = as @ x # bs" and p: "front # as = ps @ [p]"
    and q: "bs @ [back] = q # qs" and all: "front # xs @ [back] = ps @ [p, x, q] @ qs"
    using dll_splitE [OF assms] .
  have dist: "distinct (ps @ [p, x, q] @ qs)" and lnk: "linked h (ps @ [p, x, q] @ qs)"
    using dll unfolding dll_def all by blast+
  note lnk = lnk [unfolded linked_middle]
  define h' where "h' = set_prev (set_next (set_prev (set_next h p (Some q)) q (Some p)) x None) x None"
  have rm: "remove_node h x = (h', True)"
    using lnk by (simp add: remove_node_def Let_def h'_def)
  have next': "nd_next (h' a) = (if a = p then Some q else if a = x then None else nd_next (h a))" for a
    using dist by (auto simp: h'_def set_next_def set_prev_def)
  have prev': "nd_prev (h' a) = (if a = q then Some p else if a = x then None else nd_prev (h a))" for a
    using dist by (auto simp: h'_def set_next_def set_prev_def)
  have rest: "front # remove1 x xs @ [back] = ps @ [p, q] @ qs"
  proof -
    have "distinct xs" using dll by (simp add: dll_def)
    then have "x \<notin> set as" by (simp add: xs)
    then have "front # remove1 x xs @ [back] = (front # as) @ (bs @ [back])" by (simp add: xs remove1_append)
    then show ?thesis unfolding p q by simp
  qed
  have "linked h' (ps @ [p]) = linked h (ps @ [p])"
    using dist by (intro linked_cong) (auto simp: next' prev' dest!: in_set_butlastD in_set_tl)
  moreover have "linked h' (q # qs) = linked h (q # qs)"
    using dist by (intro linked_cong) (auto simp: next' prev' dest: in_set_butlastD split: if_split_asm)
  ultimately have "linked h' (ps @ [p, q] @ qs)"
    using lnk dist by (simp add: linked_pair [simplified] next' prev')
  then have "dll h' front (remove1 x xs) back"
    using dist unfolding dll_def rest by auto
  moreover have "detached h' x" using dist by (auto simp: detached_def next' prev')
  moreover have "content (h' a) = content (h a)" for a
    by (simp add: h'_def set_next_def set_prev_def)
  moreover have "h' a = h a" if "a \<notin> set (front # xs @ [back])" for a
    using that unfolding all by (simp add: h'_def set_next_def set_prev_def)
  ultimately show ?thesis using that rm by blast
qed

text \<open>Linking a detached node between two neighbours.\<close>

definition link_between :: "('k, 'v) heap \<Rightarrow> addr \<Rightarrow> addr \<Rightarrow> addr \<Rightarrow> ('k, 'v) heap" where
  "link_between h p x q = set_next (set_prev (set_prev (set_next h x (Some q)) x (Some p)) q (Some x)) p (Some x)"

lemma link_between_linked:
  assumes lnk: "linked h (ps @ [p, q] @ qs)" and dist: "distinct (ps @ [p, q] @ qs)"
    and x: "x \<notin> set (ps @ [p, q] @ qs)"
  shows "linked (link_between h p x q) (ps @ [p, x, q] @ qs)"
proof -
  let ?h = "link_between h p x q"
  have next': "nd_next (?h a) = (if a = p then Some x else if a = x then Some q else nd_next (h a))" for a
    using dist x by (auto simp: link_between_def set_next_def set_prev_def)
  have prev': "nd_prev (?h a) = (if a = q then Some x else if a = x then Some p else nd_prev (h a))" for a
    using dist x by (auto simp: link_between_def set_next_def set_prev_def)
  have "linked ?h (ps @ [p]) = linked h (ps @ [p])"
    using dist x by (intro linked_cong) (auto simp: next' prev' dest!: in_set_butlastD in_set_tl)
  moreover have "linked ?h (q # qs) = linked h (q # qs)"
    using dist x by (intro linked_cong) (auto simp: next' prev' dest: in_set_butlastD split: if_split_asm)
  ultimately show ?thesis
    using lnk dist x unfolding linked_middle linked_pair by (auto simp: next' prev')
qed

lemma link_between_content: "content (link_between h p x q a) = content (h a)"
  by (simp add: link_between_def set_next_def set_prev_def)

lemma link_between_frame: "a \<notin> {p, x, q} \<Longrightarrow> link_between h p x q a = h a"
  by (simp add: link_between_def set_next_def set_prev_def)

lemma dll_front: "dll h front xs back \<Longrightarrow> nd_next (h front) = Some (hd (xs @ [back]))"
  by (cases xs) (auto simp: dll_def)

lemma dll_back: "dll h front xs back \<Longrightarrow> nd_prev (h back) = Some (last (front # xs))"
proof -
  assume "dll h front xs back"
  then have "linked h (butlast (front # xs) @ [last (front # xs), back] @ [])"
    unfolding dll_def by (metis append.assoc append_Cons append_Nil append_butlast_last_id list.distinct(1))
  then show ?thesis unfolding linked_pair by blast
qed

lemma dll_push_front:
  assumes "dll h front xs back" and "x \<notin> set (front # xs @ [back])"
  shows "dll (link_between h front x (hd (xs @ [back]))) front (x # xs) back"
proof -
  obtain q qs where q: "xs @ [back] = q # qs" by (metis append_is_Nil_conv list.exhaust not_Cons_self2)
  then have "linked (link_between h front x q) ([] @ [front, x, q] @ qs)"
    using assms by (intro link_between_linked) (auto simp: dll_def)
  with assms q show ?thesis by (auto simp: dll_def)
qed

lemma dll_push_back:
  assumes "dll h front xs back" and "x \<notin> set (front # xs @ [back])"
  shows "dll (link_between h (last (front # xs)) x back) front (xs @ [x]) back"
proof -
  obtain p ps where p: "front # xs = ps @ [p]" by (metis append_butlast_last_id list.distinct(1))
  then have all: "front # xs @ [back] = ps @ [p, back] @ []" by (metis append.assoc append_Cons append_Nil)
  have "linked (link_between h p x back) (ps @ [p, x, back] @ [])"
    using assms unfolding dll_def all by (intro link_between_linked) auto
  moreover have "front # (xs @ [x]) @ [back] = ps @ [p, x, back] @ []"
    using p by (metis append.assoc append_Cons append_Nil)
  moreover have "last (front # xs) = p" using p by simp
  moreover have "distinct (front # (xs @ [x]) @ [back])" using assms by (auto simp: dll_def)
  ultimately show ?thesis unfolding dll_def by metis
qed

text \<open>A change of values or counters, or of nodes off the list, keeps the list.\<close>

lemma dll_cong:
  assumes "dll h front xs back"
    and "\<And>a. a \<in> set (front # xs @ [back]) \<Longrightarrow> nd_next (h' a) = nd_next (h a) \<and> nd_prev (h' a) = nd_prev (h a)"
  shows "dll h' front xs back"
proof -
  have "linked h' (front # xs @ [back]) = linked h (front # xs @ [back])"
    using assms(2) by (intro linked_cong) (auto dest: in_set_butlastD)
  with assms(1) show ?thesis by (simp add: dll_def)
qed

section \<open>The index from keys to nodes\<close>

text \<open>The index has exactly the nodes of a list, each under its own key.\<close>

definition index_ok :: "('k \<times> addr) list \<Rightarrow> (addr \<Rightarrow> 'k) \<Rightarrow> addr list \<Rightarrow> bool" where
  "index_ok m key xs \<longleftrightarrow> distinct (map fst m) \<and> distinct (map key xs) \<and> set m = (\<lambda>p. (key p, p)) ` set xs"

lemma index_distinct: "index_ok m key xs \<Longrightarrow> distinct xs"
  by (auto simp: index_ok_def distinct_map)

lemma index_length: "index_ok m key xs \<Longrightarrow> length m = length xs"
proof -
  assume m: "index_ok m key xs"
  then have "card (set m) = card (set xs)"
    by (auto simp: index_ok_def intro!: card_image inj_onI)
  moreover have "distinct m" using m by (auto simp: index_ok_def distinct_map)
  ultimately show ?thesis using index_distinct [OF m] by (simp add: distinct_card)
qed

lemma index_keys: "index_ok m key xs \<Longrightarrow> fst ` set m = key ` set xs"
  by (auto simp: index_ok_def image_image)

lemma index_lookup: "index_ok m key xs \<Longrightarrow> map_of m k = Some p \<longleftrightarrow> p \<in> set xs \<and> key p = k"
  by (auto simp: index_ok_def)

lemma index_lookup_None: "index_ok m key xs \<Longrightarrow> map_of m k = None \<longleftrightarrow> k \<notin> key ` set xs"
  by (simp add: map_of_eq_None_iff index_keys)

lemma index_cong:
  assumes "index_ok m key xs" and "\<And>p. p \<in> set xs \<Longrightarrow> key' p = key p"
  shows "index_ok m key' xs"
proof -
  have "map key' xs = map key xs" using assms(2) by (intro map_cong) simp_all
  moreover have "(\<lambda>p. (key' p, p)) ` set xs = (\<lambda>p. (key p, p)) ` set xs" using assms(2) by force
  ultimately show ?thesis using assms(1) unfolding index_ok_def by metis
qed

lemma index_perm:
  "index_ok m key xs \<Longrightarrow> set ys = set xs \<Longrightarrow> distinct ys \<Longrightarrow> index_ok m key ys"
  by (auto simp: index_ok_def distinct_map)

lemma index_delete:
  assumes m: "index_ok m key xs" and p: "p \<in> set xs"
  shows "index_ok (AList.delete (key p) m) key (remove1 p xs)"
proof -
  have "set (remove1 p xs) = set xs - {p}" by (simp add: index_distinct [OF m])
  moreover have "set (AList.delete (key p) m) = {x \<in> set m. fst x \<noteq> key p}"
    by (auto simp: AList.delete_eq)
  moreover have "key q = key p \<longleftrightarrow> q = p" if "q \<in> set xs" for q
    using m p that by (auto simp: index_ok_def distinct_map dest: inj_onD)
  ultimately have "set (AList.delete (key p) m) = (\<lambda>p. (key p, p)) ` set (remove1 p xs)"
    using m by (auto simp: index_ok_def)
  moreover have "distinct (map key (remove1 p xs))"
    using m by (auto simp: index_ok_def distinct_map distinct_remove1 intro: inj_on_subset dest: notin_set_remove1)
  ultimately show ?thesis using m by (simp add: index_ok_def AList.distinct_delete)
qed

lemma index_insert:
  assumes m: "index_ok m key xs" and p: "k \<notin> key ` set xs" and k: "key p = k"
  shows "index_ok (AList.update k p m) key (p # xs)"
proof -
  have "k \<notin> fst ` set m" using p by (simp add: index_keys [OF m])
  then have "AList.update k p m = m @ [(k, p)]" by (induction m) auto
  moreover have "index_ok (m @ [(k, p)]) key (p # xs)"
    using m p k \<open>k \<notin> fst ` set m\<close> by (auto simp: index_ok_def)
  ultimately show ?thesis by simp
qed

lemma index_insert_back:
  assumes "index_ok m key xs" and "k \<notin> key ` set xs" and "key p = k"
  shows "index_ok (AList.update k p m) key (xs @ [p])"
proof (rule index_perm [OF index_insert [OF assms]])
  show "distinct (xs @ [p])" using assms index_distinct by fastforce
qed auto

section \<open>Lists with an index\<close>

text \<open>
  A list between sentinels whose nodes are all allocated and exactly the indexed ones: the
  shape of the main list of the LRU partition and of both ghost lists.
\<close>

definition keyed_list ::
    "('k, 'v) heap \<Rightarrow> addr \<Rightarrow> ('k \<times> addr) list \<Rightarrow> addr \<Rightarrow> addr \<Rightarrow> addr list \<Rightarrow> bool" where
  "keyed_list h fresh m front back xs \<longleftrightarrow>
     dll h front xs back \<and> (\<forall>p \<in> set (front # xs @ [back]). p < fresh)
     \<and> index_ok m (\<lambda>p. nd_key (h p)) xs"

lemma keyed_list_remove:
  assumes "keyed_list h fresh m front back xs" and p: "p \<in> set xs"
  defines "h' \<equiv> fst (remove_node h p)"
  shows "keyed_list h' fresh (AList.delete (nd_key (h p)) m) front back (remove1 p xs)"
    and "detached h' p" and "\<And>q. content (h' q) = content (h q)"
proof -
  have d: "dll h front xs back" and idx: "index_ok m (\<lambda>p. nd_key (h p)) xs"
    using assms(1) by (simp_all add: keyed_list_def)
  obtain g where g: "remove_node h p = (g, True)" "dll g front (remove1 p xs) back" "detached g p"
    and con: "\<And>q. content (g q) = content (h q)"
    using remove_node_dll [OF d p] by metis
  have h': "h' = g" using g(1) by (simp add: h'_def)
  have "index_ok (AList.delete (nd_key (h p)) m) (\<lambda>q. nd_key (g q)) (remove1 p xs)"
    using index_delete [OF idx p] content_sel [OF con] by (auto intro: index_cong)
  with assms(1) g(2) show "keyed_list h' fresh (AList.delete (nd_key (h p)) m) front back (remove1 p xs)"
    by (auto simp: keyed_list_def h' dest: notin_set_remove1)
  show "detached h' p" "\<And>q. content (h' q) = content (h q)" using g(3) con by (simp_all add: h')
qed

lemma keyed_list_new:
  fixes h :: "('k, 'v) heap" and v :: 'v
  assumes kl: "keyed_list h fresh m front back xs" and k: "k \<notin> (\<lambda>p. nd_key (h p)) ` set xs"
  defines "h1 \<equiv> h(fresh := new_arc_node k v)"
  defines "h2 \<equiv> link_between h1 front fresh (hd (xs @ [back]))"
    and "h3 \<equiv> link_between h1 (last (front # xs)) fresh back"
  shows "dll h1 front xs back" "detached h1 fresh"
    "keyed_list h2 (fresh + 1) (AList.update k fresh m) front back (fresh # xs)"
    "keyed_list h3 (fresh + 1) (AList.update k fresh m) front back (xs @ [fresh])"
    "\<And>q. content (h2 q) = (if q = fresh then (k, v, 1) else content (h q))"
    "\<And>q. content (h3 q) = (if q = fresh then (k, v, 1) else content (h q))"
proof -
  have d: "dll h front xs back" and idx: "index_ok m (\<lambda>p. nd_key (h p)) xs"
    and n: "fresh \<notin> set (front # xs @ [back])"
    using kl by (auto simp: keyed_list_def)
  show d1: "dll h1 front xs back" using n by (intro dll_cong [OF d]) (auto simp: h1_def)
  show "detached h1 fresh" by (simp add: h1_def detached_def new_arc_node_def)
  show con2: "content (h2 q) = (if q = fresh then (k, v, 1) else content (h q))" for q
    by (simp add: h2_def link_between_content) (simp add: h1_def content_def new_arc_node_def)
  show con3: "content (h3 q) = (if q = fresh then (k, v, 1) else content (h q))" for q
    by (simp add: h3_def link_between_content) (simp add: h1_def content_def new_arc_node_def)
  have key: "nd_key (g q) = (if q = fresh then k else nd_key (h q))"
    if "\<And>q. content (g q) = (if q = fresh then (k, v, 1) else content (h q))" for g :: "('k, 'v) heap" and q
    using that [of q] by (cases "q = fresh") (simp_all add: content_def)
  have idx': "index_ok m (\<lambda>q. nd_key (g q)) xs" "k \<notin> (\<lambda>q. nd_key (g q)) ` set xs" "nd_key (g fresh) = k"
    if "\<And>q. content (g q) = (if q = fresh then (k, v, 1) else content (h q))" for g :: "('k, 'v) heap"
    using k n key [OF that] by (auto intro!: index_cong [OF idx])
  have "dll h2 front (fresh # xs) back" unfolding h2_def by (rule dll_push_front [OF d1 n])
  moreover have "index_ok (AList.update k fresh m) (\<lambda>q. nd_key (h2 q)) (fresh # xs)"
    using idx' [OF con2] by (intro index_insert)
  ultimately show "keyed_list h2 (fresh + 1) (AList.update k fresh m) front back (fresh # xs)"
    using kl by (auto simp: keyed_list_def)
  have "dll h3 front (xs @ [fresh]) back" unfolding h3_def by (rule dll_push_back [OF d1 n])
  moreover have "index_ok (AList.update k fresh m) (\<lambda>q. nd_key (h3 q)) (xs @ [fresh])"
    using idx' [OF con3] by (intro index_insert_back)
  ultimately show "keyed_list h3 (fresh + 1) (AList.update k fresh m) front back (xs @ [fresh])"
    using kl by (auto simp: keyed_list_def)
qed

lemma keyed_list_lookup:
  assumes "keyed_list h fresh m front back xs"
  shows "map_of m k = Some p \<longleftrightarrow> p \<in> set xs \<and> nd_key (h p) = k"
    and "map_of m k = None \<longleftrightarrow> k \<notin> (\<lambda>p. nd_key (h p)) ` set xs"
    and "length m = length xs" and "distinct (map (\<lambda>p. nd_key (h p)) xs)" and "distinct xs"
proof -
  have idx: "index_ok m (\<lambda>p. nd_key (h p)) xs" using assms by (simp add: keyed_list_def)
  show "map_of m k = Some p \<longleftrightarrow> p \<in> set xs \<and> nd_key (h p) = k" by (rule index_lookup [OF idx])
  show "map_of m k = None \<longleftrightarrow> k \<notin> (\<lambda>p. nd_key (h p)) ` set xs" by (rule index_lookup_None [OF idx])
  show "length m = length xs" by (rule index_length [OF idx])
  show "distinct (map (\<lambda>p. nd_key (h p)) xs)" using idx by (simp add: index_ok_def)
  show "distinct xs" by (rule index_distinct [OF idx])
qed

end
