(* ===== verification/Cache_Contract.thy ===== *)
theory Cache_Contract
  imports TLSS_Prelude "HOL-Library.AList"
begin

text \<open>
  The contracts between the layers of the cache. A partition (LRU or LFU) holds a
  bounded map of resident values and a bounded set of ghost keys; its operations may
  evict, and only ever evict to the ghosts. A cache is a lossy map: it may forget a
  key, never return anything but the last value stored under it. The lemmas proved
  from each contract serve every component that fulfils it.
\<close>

section \<open>Partitions\<close>

locale arc_partition =
  fixes inv :: "'s \<Rightarrow> bool" and lookup :: "'s \<Rightarrow> 'k \<Rightarrow> 'v option" and ghosts :: "'s \<Rightarrow> 'k set"
    and cap :: "'s \<Rightarrow> nat" and gcap :: "'s \<Rightarrow> nat"
    and put :: "'s \<Rightarrow> 'k \<Rightarrow> 'v \<Rightarrow> ('s \<times> bool) option" and contain :: "'s \<Rightarrow> 'k \<Rightarrow> bool"
    and check_ghost :: "'s \<Rightarrow> 'k \<Rightarrow> 's \<times> bool" and invalidate :: "'s \<Rightarrow> 'k \<Rightarrow> 's \<times> bool"
    and increase :: "'s \<Rightarrow> 's" and decrease :: "'s \<Rightarrow> ('s \<times> bool) option"
  assumes inv_size: "inv s \<Longrightarrow> finite (dom (lookup s)) \<and> card (dom (lookup s)) \<le> cap s"
    and inv_ghosts: "inv s \<Longrightarrow> finite (ghosts s) \<and> card (ghosts s) \<le> gcap s"
    and inv_disjoint: "inv s \<Longrightarrow> dom (lookup s) \<inter> ghosts s = {}"
    and contain: "inv s \<Longrightarrow> contain s k \<longleftrightarrow> lookup s k \<noteq> None"
    and put_zero: "inv s \<Longrightarrow> cap s = 0 \<Longrightarrow> put s k v = Some (s, False)"
    and put_pos: "inv s \<Longrightarrow> cap s \<noteq> 0 \<Longrightarrow> \<exists>s' ev. put s k v = Some (s', True) \<and> inv s' \<and> cap s' = cap s
      \<and> gcap s' = gcap s \<and> ev \<subseteq> dom (lookup s) - {k} \<and> lookup s' = (lookup s |` (- ev))(k \<mapsto> v)
      \<and> ghosts s' \<subseteq> ghosts s - {k} \<union> ev \<and> (ev = {} \<or> lookup s k = None \<and> card (dom (lookup s)) = cap s)
      \<and> (gcap s = 0 \<or> ev \<subseteq> ghosts s')"
    and check_ghost: "inv s \<Longrightarrow> \<exists>s'. check_ghost s k = (s', k \<in> ghosts s) \<and> inv s' \<and> cap s' = cap s
      \<and> gcap s' = gcap s \<and> lookup s' = lookup s \<and> ghosts s' = ghosts s - {k}"
    and invalidate: "inv s \<Longrightarrow> \<exists>s'. invalidate s k = (s', lookup s k \<noteq> None \<or> k \<in> ghosts s) \<and> inv s'
      \<and> cap s' = cap s \<and> gcap s' = gcap s \<and> lookup s' = (lookup s)(k := None) \<and> ghosts s' = ghosts s - {k}"
    and increase: "inv s \<Longrightarrow> inv (increase s) \<and> cap (increase s) = cap s + 1 \<and> gcap (increase s) = gcap s
      \<and> lookup (increase s) = lookup s \<and> ghosts (increase s) = ghosts s"
    and decrease_zero: "inv s \<Longrightarrow> cap s = 0 \<Longrightarrow> decrease s = Some (s, False)"
    and decrease_pos: "inv s \<Longrightarrow> cap s \<noteq> 0 \<Longrightarrow> \<exists>s' ev. decrease s = Some (s', True) \<and> inv s'
      \<and> cap s' = cap s - 1 \<and> gcap s' = gcap s \<and> ev \<subseteq> dom (lookup s) \<and> lookup s' = lookup s |` (- ev)
      \<and> ghosts s' \<subseteq> ghosts s \<union> ev \<and> (ev = {} \<or> card (dom (lookup s)) = cap s) \<and> (gcap s = 0 \<or> ev \<subseteq> ghosts s')"
begin

text \<open>Consequences for a client, with the evicted keys left out.\<close>

lemma put_cases:
  assumes "inv s"
  obtains (refused) "cap s = 0" "put s k v = Some (s, False)"
  | (stored) s' where "cap s \<noteq> 0" "put s k v = Some (s', True)" "inv s'" "cap s' = cap s" "gcap s' = gcap s"
      "lookup s' k = Some v" "lookup s' \<subseteq>\<^sub>m (lookup s)(k \<mapsto> v)"
      "dom (lookup s') \<union> ghosts s' \<subseteq> insert k (dom (lookup s) \<union> ghosts s)"
      "k \<notin> ghosts s'" "dom (lookup s') \<subseteq> insert k (dom (lookup s))"
proof (cases "cap s = 0")
  case True
  with refused put_zero [OF assms] show ?thesis by blast
next
  case False
  with put_pos [OF assms False, of k v] obtain s' ev where
    *: "put s k v = Some (s', True)" "inv s'" "cap s' = cap s" "gcap s' = gcap s"
    "ev \<subseteq> dom (lookup s) - {k}" "lookup s' = (lookup s |` (- ev))(k \<mapsto> v)" "ghosts s' \<subseteq> ghosts s - {k} \<union> ev"
    by blast
  have "lookup s' \<subseteq>\<^sub>m (lookup s)(k \<mapsto> v)"
    unfolding *(6) by (auto simp: map_le_def restrict_map_def split: if_split_asm)
  moreover have "dom (lookup s') \<subseteq> insert k (dom (lookup s))" unfolding *(6) by auto
  moreover have "ghosts s' \<subseteq> insert k (dom (lookup s) \<union> ghosts s)" "k \<notin> ghosts s'" using *(5,7) by blast+
  moreover have "lookup s' k = Some v" by (simp add: *(6))
  ultimately show ?thesis using *(1-4) by (intro stored [OF False]) auto
qed

lemma decrease_cases:
  assumes "inv s"
  obtains (refused) "cap s = 0" "decrease s = Some (s, False)"
  | (shrunk) s' where "cap s \<noteq> 0" "decrease s = Some (s', True)" "inv s'" "cap s' = cap s - 1" "gcap s' = gcap s"
      "lookup s' \<subseteq>\<^sub>m lookup s" "dom (lookup s') \<union> ghosts s' \<subseteq> dom (lookup s) \<union> ghosts s"
proof (cases "cap s = 0")
  case True
  with refused decrease_zero [OF assms] show ?thesis by blast
next
  case False
  with decrease_pos [OF assms False] obtain s' ev where
    *: "decrease s = Some (s', True)" "inv s'" "cap s' = cap s - 1" "gcap s' = gcap s"
    "ev \<subseteq> dom (lookup s)" "lookup s' = lookup s |` (- ev)" "ghosts s' \<subseteq> ghosts s \<union> ev"
    by blast
  have "lookup s' \<subseteq>\<^sub>m lookup s" unfolding *(6) by (auto simp: map_le_def restrict_map_def split: if_split_asm)
  moreover have "dom (lookup s') \<union> ghosts s' \<subseteq> dom (lookup s) \<union> ghosts s" using *(5-7) by auto
  ultimately show ?thesis using *(1-4) by (intro shrunk [OF False])
qed

end

section \<open>Caches\<close>

datatype ('k, 'v) cache_op = Put 'k 'v | Get 'k | Erase 'k

text \<open>What a client has stored: the last value put under each key and not erased since.\<close>

fun stored :: "('k \<Rightarrow> 'v option) \<Rightarrow> ('k, 'v) cache_op \<Rightarrow> 'k \<Rightarrow> 'v option" where
  "stored m (Put k v) = m(k \<mapsto> v)"
| "stored m (Get k) = m"
| "stored m (Erase k) = m(k := None)"

text \<open>Running a sequence of operations, given the operations of a cache.\<close>

definition run_op ::
    "('s \<Rightarrow> 'k \<Rightarrow> 'v \<Rightarrow> 's option) \<Rightarrow> ('s \<Rightarrow> 'k \<Rightarrow> ('s \<times> 'v option) option)
     \<Rightarrow> ('s \<Rightarrow> 'k \<Rightarrow> ('s \<times> bool) option) \<Rightarrow> ('k, 'v) cache_op \<Rightarrow> 's \<Rightarrow> 's option" where
  "run_op put get erase op s =
     (case op of
        Put k v \<Rightarrow> put s k v
      | Get k \<Rightarrow> map_option fst (get s k)
      | Erase k \<Rightarrow> map_option fst (erase s k))"

fun run_ops ::
    "('s \<Rightarrow> 'k \<Rightarrow> 'v \<Rightarrow> 's option) \<Rightarrow> ('s \<Rightarrow> 'k \<Rightarrow> ('s \<times> 'v option) option)
     \<Rightarrow> ('s \<Rightarrow> 'k \<Rightarrow> ('s \<times> bool) option) \<Rightarrow> ('k, 'v) cache_op list \<Rightarrow> 's \<Rightarrow> 's option" where
  "run_ops put get erase [] s = Some s"
| "run_ops put get erase (op # ops) s = Option.bind (run_op put get erase op s) (run_ops put get erase ops)"

locale lossy_cache =
  fixes inv :: "'s \<Rightarrow> bool" and lookup :: "'s \<Rightarrow> 'k \<Rightarrow> 'v option" and limit :: "'s \<Rightarrow> nat"
    and put :: "'s \<Rightarrow> 'k \<Rightarrow> 'v \<Rightarrow> 's option" and get :: "'s \<Rightarrow> 'k \<Rightarrow> ('s \<times> 'v option) option"
    and erase :: "'s \<Rightarrow> 'k \<Rightarrow> ('s \<times> bool) option"
  assumes size: "inv s \<Longrightarrow> finite (dom (lookup s)) \<and> card (dom (lookup s)) \<le> limit s"
    and put: "inv s \<Longrightarrow> \<exists>s'. put s k v = Some s' \<and> inv s' \<and> limit s' = limit s
      \<and> lookup s' \<subseteq>\<^sub>m (lookup s)(k \<mapsto> v) \<and> (limit s = 0 \<or> lookup s' k = Some v)"
    and get: "inv s \<Longrightarrow> \<exists>s'. get s k = Some (s', lookup s k) \<and> inv s' \<and> limit s' = limit s
      \<and> lookup s' \<subseteq>\<^sub>m lookup s \<and> lookup s' k = lookup s k"
    and erase: "inv s \<Longrightarrow> \<exists>s' r. erase s k = Some (s', r) \<and> inv s' \<and> limit s' = limit s
      \<and> lookup s' = (lookup s)(k := None)"
begin

lemma run_op_step:
  assumes "inv s" and "lookup s \<subseteq>\<^sub>m m"
  shows "\<exists>s'. run_op put get erase op s = Some s' \<and> inv s' \<and> limit s' = limit s \<and> lookup s' \<subseteq>\<^sub>m stored m op"
proof (cases op)
  case (Put k v)
  have "(lookup s)(k \<mapsto> v) \<subseteq>\<^sub>m m(k \<mapsto> v)" using assms(2) by (simp add: map_le_upd)
  then show ?thesis
    using put [OF assms(1), of k v] Put by (auto simp: run_op_def intro: map_le_trans)
next
  case (Get k)
  then show ?thesis
    using get [OF assms(1), of k] assms(2) by (auto simp: run_op_def intro: map_le_trans)
next
  case (Erase k)
  have "(lookup s)(k := None) \<subseteq>\<^sub>m m(k := None)" using assms(2) by (auto simp: map_le_def split: if_split_asm)
  then show ?thesis using erase [OF assms(1), of k] Erase by (auto simp: run_op_def)
qed

text \<open>Any sequence of operations runs, and what it leaves is among what was stored.\<close>

lemma run_coherent:
  "inv s \<Longrightarrow> lookup s \<subseteq>\<^sub>m m \<Longrightarrow>
     \<exists>s'. run_ops put get erase ops s = Some s' \<and> inv s' \<and> limit s' = limit s \<and> lookup s' \<subseteq>\<^sub>m foldl stored m ops"
proof (induction ops arbitrary: s m)
  case (Cons op ops)
  then show ?case using run_op_step [OF Cons.prems, of op] by fastforce
qed simp

lemma get_coherent:
  assumes "inv s" and "lookup s \<subseteq>\<^sub>m m"
  shows "\<exists>s' s'' r. run_ops put get erase ops s = Some s' \<and> get s' k = Some (s'', r)
    \<and> (r = None \<or> r = foldl stored m ops k) \<and> inv s'' \<and> card (dom (lookup s'')) \<le> limit s"
proof -
  obtain s' where s': "run_ops put get erase ops s = Some s'" "inv s'" "limit s' = limit s" "lookup s' \<subseteq>\<^sub>m foldl stored m ops"
    using run_coherent [OF assms] by blast
  obtain s'' where s'': "get s' k = Some (s'', lookup s' k)" "inv s''" "limit s'' = limit s'"
    using get [OF s'(2)] by blast
  have "lookup s' k = None \<or> lookup s' k = foldl stored m ops k"
    using s'(4) by (cases "lookup s' k") (auto simp: map_le_def dom_def)
  with s' s'' size [OF s''(2)] show ?thesis by auto
qed

lemma put_get:
  assumes "inv s" and "limit s \<noteq> 0"
  shows "\<exists>s' s''. put s k v = Some s' \<and> get s' k = Some (s'', Some v) \<and> inv s''"
proof -
  obtain s' where s': "put s k v = Some s'" "inv s'" "lookup s' k = Some v"
    using put [OF assms(1), of k v] assms(2) by auto
  with get [OF s'(2), of k] show ?thesis by auto
qed

lemma erase_get:
  assumes "inv s"
  shows "\<exists>s' r s''. erase s k = Some (s', r) \<and> get s' k = Some (s'', None) \<and> inv s''"
proof -
  obtain s' r where s': "erase s k = Some (s', r)" "inv s'" "lookup s' k = None"
    using erase [OF assms, of k] by auto
  with get [OF s'(2), of k] show ?thesis by auto
qed

end

end
