(* ===== verification/Arc_Lru.thy ===== *)
theory Arc_Lru
  imports Arc_Node Cache_Contract
begin

text \<open>
  The LRU partition of \<^verbatim>\<open>inc/common/cache/arc_lru.h\<close>: a main list of nodes with the
  most recently used one first, an index from keys to nodes, and a ghost list of the
  keys last evicted. Each operation is transcribed on the heap of nodes; \<^term>\<open>None\<close> is a
  null dereference, a failed assertion, or a loop that does not end. The specification
  keeps plain lists of entries and ghost keys, and every operation refines it.
  An \<^verbatim>\<open>std::unordered_map\<close> is an association list with distinct keys.
\<close>

section \<open>State\<close>

record ('k, 'v) arc_lru =
  lru_cap :: nat
  lru_ghost_cap :: nat
  lru_trans :: nat
  lru_nodes :: "('k, 'v) heap"
  lru_fresh :: addr
  lru_main :: "('k \<times> addr) list"
  lru_main_head :: addr
  lru_main_tail :: addr
  lru_ghost_nodes :: "('k, unit) heap"
  lru_ghost_fresh :: addr
  lru_ghost :: "('k \<times> addr) list"
  lru_ghost_head :: addr
  lru_ghost_tail :: addr

text \<open>Two sentinels linked to each other; \<open>dk\<close> and \<open>dv\<close> are the default key and value.\<close>

definition sentinels :: "'k \<Rightarrow> 'v \<Rightarrow> ('k, 'v) heap" where
  "sentinels dk dv = set_prev (set_next (\<lambda>p. new_arc_node dk dv) 0 (Some 1)) 1 (Some 0)"

definition new_arc_lru :: "'k \<Rightarrow> 'v \<Rightarrow> nat \<Rightarrow> nat \<Rightarrow> nat \<Rightarrow> ('k, 'v) arc_lru" where
  "new_arc_lru dk dv cap threshold ghost_cap =
     \<lparr>lru_cap = cap, lru_ghost_cap = ghost_cap, lru_trans = threshold,
      lru_nodes = sentinels dk dv, lru_fresh = 2, lru_main = [], lru_main_head = 0, lru_main_tail = 1,
      lru_ghost_nodes = sentinels dk (), lru_ghost_fresh = 2, lru_ghost = [],
      lru_ghost_head = 0, lru_ghost_tail = 1\<rparr>"

section \<open>Private operations\<close>

definition lru_remove_from_main :: "('k, 'v) arc_lru \<Rightarrow> addr \<Rightarrow> ('k, 'v) arc_lru" where
  "lru_remove_from_main s node = s\<lparr>lru_nodes := fst (remove_node (lru_nodes s) node)\<rparr>"

definition lru_remove_from_ghost :: "('k, 'v) arc_lru \<Rightarrow> addr \<Rightarrow> ('k, 'v) arc_lru" where
  "lru_remove_from_ghost s node = s\<lparr>lru_ghost_nodes := fst (remove_node (lru_ghost_nodes s) node)\<rparr>"

definition lru_erase_ghost :: "('k, 'v) arc_lru \<Rightarrow> 'k \<Rightarrow> ('k, 'v) arc_lru \<times> bool" where
  "lru_erase_ghost s key =
     (case map_of (lru_ghost s) key of
        None \<Rightarrow> (s, False)
      | Some node \<Rightarrow>
          let s = lru_remove_from_ghost s node
          in (s\<lparr>lru_ghost := AList.delete key (lru_ghost s)\<rparr>, True))"

definition lru_add_to_front :: "('k, 'v) arc_lru \<Rightarrow> addr \<Rightarrow> ('k, 'v) arc_lru option" where
  "lru_add_to_front s node = do {
     first \<leftarrow> nd_next (lru_nodes s (lru_main_head s));
     if node = lru_main_head s \<or> nd_next (lru_nodes s node) \<noteq> None
        \<or> nd_prev (lru_nodes s node) \<noteq> None
     then None
     else
       let h = set_next (lru_nodes s) node (Some first);
           h = set_prev h node (Some (lru_main_head s));
           h = set_prev h first (Some node);
           h = set_next h (lru_main_head s) (Some node)
       in Some (s\<lparr>lru_nodes := h\<rparr>) }"

definition lru_move_to_front :: "('k, 'v) arc_lru \<Rightarrow> addr \<Rightarrow> ('k, 'v) arc_lru option" where
  "lru_move_to_front s node =
     (let r = remove_node (lru_nodes s) node; s = s\<lparr>lru_nodes := fst r\<rparr>
      in if \<not> snd r then Some s else lru_add_to_front s node)"

definition lru_remove_oldest_ghost :: "('k, 'v) arc_lru \<Rightarrow> ('k, 'v) arc_lru" where
  "lru_remove_oldest_ghost s =
     (case nd_prev (lru_ghost_nodes s (lru_ghost_tail s)) of
        None \<Rightarrow> s
      | Some oldest \<Rightarrow>
          if oldest = lru_ghost_head s then s
          else
            let s = lru_remove_from_ghost s oldest
            in s\<lparr>lru_ghost := AList.delete (nd_key (lru_ghost_nodes s oldest)) (lru_ghost s)\<rparr>)"

definition lru_add_to_ghost :: "('k, 'v) arc_lru \<Rightarrow> addr \<Rightarrow> ('k, 'v) arc_lru \<times> bool" where
  "lru_add_to_ghost s evicted =
     (case nd_next (lru_ghost_nodes s (lru_ghost_head s)) of
        None \<Rightarrow> (s, False)
      | Some first \<Rightarrow>
          if lru_ghost_cap s = 0 then (s, False)
          else if nd_next (lru_nodes s evicted) \<noteq> None \<or> nd_prev (lru_nodes s evicted) \<noteq> None
          then (s, False)
          else
            let key = nd_key (lru_nodes s evicted);
                node = lru_ghost_fresh s;
                s = s\<lparr>lru_ghost_nodes := (lru_ghost_nodes s)(node := new_arc_node key ()),
                      lru_ghost_fresh := node + 1\<rparr>
            in if map_of (lru_ghost s) key \<noteq> None then (s, False)
               else
                 let h = set_next (lru_ghost_nodes s) node (Some first);
                     h = set_prev h node (Some (lru_ghost_head s));
                     h = set_prev h first (Some node);
                     h = set_next h (lru_ghost_head s) (Some node)
                 in (s\<lparr>lru_ghost := AList.update key node (lru_ghost s), lru_ghost_nodes := h\<rparr>, True))"

definition lru_evict_least_recent :: "('k, 'v) arc_lru \<Rightarrow> ('k, 'v) arc_lru" where
  "lru_evict_least_recent s =
     (case nd_prev (lru_nodes s (lru_main_tail s)) of
        None \<Rightarrow> s
      | Some least_recent \<Rightarrow>
          if least_recent = lru_main_head s then s
          else
            let s = lru_remove_from_main s least_recent;
                s = (if length (lru_ghost s) \<ge> lru_ghost_cap s then lru_remove_oldest_ghost s else s);
                s = fst (lru_add_to_ghost s least_recent)
            in s\<lparr>lru_main := AList.delete (nd_key (lru_nodes s least_recent)) (lru_main s)\<rparr>)"

definition lru_update_existing_node ::
    "('k, 'v) arc_lru \<Rightarrow> addr \<Rightarrow> 'v \<Rightarrow> (('k, 'v) arc_lru \<times> bool) option" where
  "lru_update_existing_node s node v =
     (let s = s\<lparr>lru_nodes := set_value (lru_nodes s) node v\<rparr>
      in do { s \<leftarrow> lru_move_to_front s node; Some (s, True) })"

definition lru_add_new_node ::
    "('k, 'v) arc_lru \<Rightarrow> 'k \<Rightarrow> 'v \<Rightarrow> (('k, 'v) arc_lru \<times> bool) option" where
  "lru_add_new_node s key v =
     (let s = (if length (lru_main s) \<ge> lru_cap s then lru_evict_least_recent s else s);
          new_node = lru_fresh s;
          s = s\<lparr>lru_nodes := (lru_nodes s)(new_node := new_arc_node key v), lru_fresh := new_node + 1,
                lru_main := AList.update key new_node (lru_main s)\<rparr>
      in do { s \<leftarrow> lru_add_to_front s new_node; Some (s, True) })"

definition lru_update_node_access ::
    "('k, 'v) arc_lru \<Rightarrow> addr \<Rightarrow> (('k, 'v) arc_lru \<times> bool) option" where
  "lru_update_node_access s node = do {
     s \<leftarrow> lru_move_to_front s node;
     let s = s\<lparr>lru_nodes := increment_access_count (lru_nodes s) node\<rparr>
     in Some (s, nd_access_count (lru_nodes s node) \<ge> lru_trans s) }"

section \<open>Public operations\<close>

definition lru_put :: "('k, 'v) arc_lru \<Rightarrow> 'k \<Rightarrow> 'v \<Rightarrow> (('k, 'v) arc_lru \<times> bool) option" where
  "lru_put s key v =
     (if lru_cap s = 0 then Some (s, False)
      else
        case map_of (lru_main s) key of
          Some node \<Rightarrow> lru_update_existing_node s node v
        | None \<Rightarrow> lru_add_new_node (fst (lru_erase_ghost s key)) key v)"

text \<open>A hit gives the value and whether the node should move to the LFU partition.\<close>

definition lru_get :: "('k, 'v) arc_lru \<Rightarrow> 'k \<Rightarrow> (('k, 'v) arc_lru \<times> ('v \<times> bool) option) option" where
  "lru_get s key =
     (case map_of (lru_main s) key of
        Some node \<Rightarrow> do {
          r \<leftarrow> lru_update_node_access s node;
          Some (fst r, Some (nd_value (lru_nodes (fst r) node), snd r)) }
      | None \<Rightarrow> Some (s, None))"

definition lru_contain :: "('k, 'v) arc_lru \<Rightarrow> 'k \<Rightarrow> bool" where
  "lru_contain s key \<longleftrightarrow> map_of (lru_main s) key \<noteq> None"

definition lru_erase :: "('k, 'v) arc_lru \<Rightarrow> 'k \<Rightarrow> ('k, 'v) arc_lru \<times> bool" where
  "lru_erase s key =
     (case map_of (lru_main s) key of
        None \<Rightarrow> (s, False)
      | Some node \<Rightarrow>
          let s = lru_remove_from_main s node
          in (s\<lparr>lru_main := AList.delete key (lru_main s)\<rparr>, True))"

definition lru_invalidate :: "('k, 'v) arc_lru \<Rightarrow> 'k \<Rightarrow> ('k, 'v) arc_lru \<times> bool" where
  "lru_invalidate s key =
     (let (s, removed) =
          (case map_of (lru_main s) key of
             None \<Rightarrow> (s, False)
           | Some node \<Rightarrow>
               let s = lru_remove_from_main s node
               in (s\<lparr>lru_main := AList.delete key (lru_main s)\<rparr>, True));
          (s, ghost_removed) = lru_erase_ghost s key
      in (s, removed \<or> ghost_removed))"

definition lru_check_ghost :: "('k, 'v) arc_lru \<Rightarrow> 'k \<Rightarrow> ('k, 'v) arc_lru \<times> bool" where
  "lru_check_ghost s key = lru_erase_ghost s key"

definition lru_increase_capacity :: "('k, 'v) arc_lru \<Rightarrow> ('k, 'v) arc_lru" where
  "lru_increase_capacity s = s\<lparr>lru_cap := lru_cap s + 1\<rparr>"

text \<open>The loop that evicts until the capacity holds; a run without end is \<^term>\<open>None\<close>.\<close>

partial_function (option) lru_shrink :: "('k, 'v) arc_lru \<Rightarrow> ('k, 'v) arc_lru option" where
  "lru_shrink s =
     (if length (lru_main s) > lru_cap s then lru_shrink (lru_evict_least_recent s) else Some s)"

definition lru_decrease_capacity :: "('k, 'v) arc_lru \<Rightarrow> (('k, 'v) arc_lru \<times> bool) option" where
  "lru_decrease_capacity s =
     (if lru_cap s = 0 then Some (s, False)
      else do { s \<leftarrow> lru_shrink (s\<lparr>lru_cap := lru_cap s - 1\<rparr>); Some (s, True) })"

section \<open>Specification\<close>

record ('k, 'v) lru_spec =
  ls_cap :: nat
  ls_gcap :: nat
  ls_trans :: nat
  ls_entries :: "('k \<times> 'v \<times> nat) list"
  ls_ghosts :: "'k list"

definition without :: "'k \<Rightarrow> ('k \<times> 'a) list \<Rightarrow> ('k \<times> 'a) list" where
  "without k es = filter (\<lambda>e. fst e \<noteq> k) es"

definition ls_evict :: "('k, 'v) lru_spec \<Rightarrow> ('k, 'v) lru_spec" where
  "ls_evict a =
     (if ls_entries a = [] then a
      else
        let gs = (if length (ls_ghosts a) \<ge> ls_gcap a then butlast (ls_ghosts a) else ls_ghosts a)
        in a\<lparr>ls_entries := butlast (ls_entries a),
             ls_ghosts := (if ls_gcap a = 0 then gs else fst (last (ls_entries a)) # gs)\<rparr>)"

definition ls_put :: "('k, 'v) lru_spec \<Rightarrow> 'k \<Rightarrow> 'v \<Rightarrow> ('k, 'v) lru_spec \<times> bool" where
  "ls_put a k v =
     (if ls_cap a = 0 then (a, False)
      else
        case map_of (ls_entries a) k of
          Some (_, c) \<Rightarrow> (a\<lparr>ls_entries := (k, v, c) # without k (ls_entries a)\<rparr>, True)
        | None \<Rightarrow>
            let a = a\<lparr>ls_ghosts := removeAll k (ls_ghosts a)\<rparr>;
                a = (if length (ls_entries a) \<ge> ls_cap a then ls_evict a else a)
            in (a\<lparr>ls_entries := (k, v, 1) # ls_entries a\<rparr>, True))"

definition ls_get :: "('k, 'v) lru_spec \<Rightarrow> 'k \<Rightarrow> ('k, 'v) lru_spec \<times> ('v \<times> bool) option" where
  "ls_get a k =
     (case map_of (ls_entries a) k of
        Some (v, c) \<Rightarrow>
          (a\<lparr>ls_entries := (k, v, c + 1) # without k (ls_entries a)\<rparr>, Some (v, ls_trans a \<le> c + 1))
      | None \<Rightarrow> (a, None))"

definition ls_erase :: "('k, 'v) lru_spec \<Rightarrow> 'k \<Rightarrow> ('k, 'v) lru_spec \<times> bool" where
  "ls_erase a k = (a\<lparr>ls_entries := without k (ls_entries a)\<rparr>, k \<in> fst ` set (ls_entries a))"

definition ls_check_ghost :: "('k, 'v) lru_spec \<Rightarrow> 'k \<Rightarrow> ('k, 'v) lru_spec \<times> bool" where
  "ls_check_ghost a k = (a\<lparr>ls_ghosts := removeAll k (ls_ghosts a)\<rparr>, k \<in> set (ls_ghosts a))"

definition ls_invalidate :: "('k, 'v) lru_spec \<Rightarrow> 'k \<Rightarrow> ('k, 'v) lru_spec \<times> bool" where
  "ls_invalidate a k =
     (a\<lparr>ls_entries := without k (ls_entries a), ls_ghosts := removeAll k (ls_ghosts a)\<rparr>,
      k \<in> fst ` set (ls_entries a) \<or> k \<in> set (ls_ghosts a))"

function ls_shrink :: "('k, 'v) lru_spec \<Rightarrow> ('k, 'v) lru_spec" where
  "ls_shrink a = (if length (ls_entries a) > ls_cap a then ls_shrink (ls_evict a) else a)"
  by auto
termination
  by (relation "measure (\<lambda>a. length (ls_entries a))") (auto simp: ls_evict_def Let_def)

declare ls_shrink.simps [simp del]

definition ls_decrease :: "('k, 'v) lru_spec \<Rightarrow> ('k, 'v) lru_spec \<times> bool" where
  "ls_decrease a =
     (if ls_cap a = 0 then (a, False) else (ls_shrink (a\<lparr>ls_cap := ls_cap a - 1\<rparr>), True))"

text \<open>The well-formed specification states.\<close>

definition ls_keys_ok :: "('k, 'v) lru_spec \<Rightarrow> bool" where
  "ls_keys_ok a \<longleftrightarrow> distinct (map fst (ls_entries a)) \<and> distinct (ls_ghosts a)
     \<and> fst ` set (ls_entries a) \<inter> set (ls_ghosts a) = {} \<and> length (ls_ghosts a) \<le> ls_gcap a"

definition ls_inv :: "('k, 'v) lru_spec \<Rightarrow> bool" where
  "ls_inv a \<longleftrightarrow> ls_keys_ok a \<and> length (ls_entries a) \<le> ls_cap a"

section \<open>Representation\<close>

abbreviation main_key :: "('k, 'v) arc_lru \<Rightarrow> addr \<Rightarrow> 'k" where
  "main_key s p \<equiv> nd_key (lru_nodes s p)"

abbreviation ghost_key :: "('k, 'v) arc_lru \<Rightarrow> addr \<Rightarrow> 'k" where
  "ghost_key s p \<equiv> nd_key (lru_ghost_nodes s p)"

definition lru_main_at :: "('k, 'v) arc_lru \<Rightarrow> addr list \<Rightarrow> bool" where
  "lru_main_at s xs \<longleftrightarrow>
     keyed_list (lru_nodes s) (lru_fresh s) (lru_main s) (lru_main_head s) (lru_main_tail s) xs"

definition lru_ghost_at :: "('k, 'v) arc_lru \<Rightarrow> addr list \<Rightarrow> bool" where
  "lru_ghost_at s gs \<longleftrightarrow>
     keyed_list (lru_ghost_nodes s) (lru_ghost_fresh s) (lru_ghost s) (lru_ghost_head s) (lru_ghost_tail s) gs"

definition lru_at :: "('k, 'v) arc_lru \<Rightarrow> addr list \<Rightarrow> addr list \<Rightarrow> bool" where
  "lru_at s xs gs \<longleftrightarrow> lru_main_at s xs \<and> lru_ghost_at s gs"

lemmas lru_at_defs = lru_at_def lru_main_at_def lru_ghost_at_def keyed_list_def

text \<open>States that agree on everything but the ghost fields.\<close>

definition same_main :: "('k, 'v) arc_lru \<Rightarrow> ('k, 'v) arc_lru \<Rightarrow> bool" where
  "same_main s t \<longleftrightarrow> lru_cap t = lru_cap s \<and> lru_ghost_cap t = lru_ghost_cap s \<and> lru_trans t = lru_trans s
     \<and> lru_nodes t = lru_nodes s \<and> lru_fresh t = lru_fresh s \<and> lru_main t = lru_main s
     \<and> lru_main_head t = lru_main_head s \<and> lru_main_tail t = lru_main_tail s"

definition lru_view :: "('k, 'v) arc_lru \<Rightarrow> addr list \<Rightarrow> addr list \<Rightarrow> ('k, 'v) lru_spec" where
  "lru_view s xs gs = \<lparr>ls_cap = lru_cap s, ls_gcap = lru_ghost_cap s, ls_trans = lru_trans s,
     ls_entries = map (\<lambda>p. content (lru_nodes s p)) xs, ls_ghosts = map (ghost_key s) gs\<rparr>"

definition lru_rep :: "('k, 'v) arc_lru \<Rightarrow> ('k, 'v) lru_spec \<Rightarrow> bool" where
  "lru_rep s a \<longleftrightarrow> (\<exists>xs gs. lru_at s xs gs \<and> a = lru_view s xs gs)"

lemma fst_content [simp]: "fst (content n) = nd_key n"
  by (simp add: content_def)

lemma map_content_without:
  assumes "distinct (map key xs)" and "p \<in> set xs" and "\<And>q. fst (f q) = key q"
  shows "map f (remove1 p xs) = without (key p) (map f xs)"
  using assms
proof (induction xs)
  case (Cons x xs)
  show ?case
  proof (cases "x = p")
    case True
    with Cons.prems(1) have "key p \<notin> key ` set xs" by simp
    then have "\<forall>e \<in> set (map f xs). fst e \<noteq> key p"
      using Cons.prems(3) by (metis (no_types, lifting) image_iff list.set_map)
    then have "filter (\<lambda>e. fst e \<noteq> key p) (map f xs) = map f xs" by (simp add: filter_id_conv)
    with True Cons.prems show ?thesis by (simp add: without_def)
  next
    case False
    with Cons have "key x \<noteq> key p" by auto
    with False Cons show ?thesis by (simp add: without_def)
  qed
qed simp

lemma map_of_content:
  assumes "distinct (map key xs)" and "p \<in> set xs" and "\<And>q. fst (f q) = key q"
  shows "map_of (map f xs) (key p) = Some (snd (f p))"
proof -
  have "distinct (map fst (map f xs))" using assms by (simp add: comp_def)
  moreover have "(key p, snd (f p)) \<in> set (map f xs)"
    using assms(2) assms(3) [of p] by (metis image_eqI list.set_map prod.collapse)
  ultimately show ?thesis by (simp only: map_of_eq_Some_iff)
qed

lemma map_remove1_key:
  assumes "distinct (map key xs)" and "p \<in> set xs"
  shows "map key (remove1 p xs) = removeAll (key p) (map key xs)"
  using assms
proof (induction xs)
  case (Cons x xs)
  show ?case
  proof (cases "x = p")
    case True
    with Cons.prems show ?thesis by simp
  next
    case False
    with Cons.prems have "key x \<noteq> key p" by auto
    with False Cons show ?thesis by simp
  qed
qed simp

section \<open>Refinement of the private operations\<close>

lemma lru_add_to_front_eq:
  assumes d: "dll (lru_nodes s) (lru_main_head s) xs (lru_main_tail s)"
    and p: "p \<notin> set (lru_main_head s # xs @ [lru_main_tail s])" and det: "detached (lru_nodes s) p"
  obtains h' where "lru_add_to_front s p = Some (s\<lparr>lru_nodes := h'\<rparr>)"
    "dll h' (lru_main_head s) (p # xs) (lru_main_tail s)" "\<And>q. content (h' q) = content (lru_nodes s q)"
proof
  let ?h = "link_between (lru_nodes s) (lru_main_head s) p (hd (xs @ [lru_main_tail s]))"
  show "lru_add_to_front s p = Some (s\<lparr>lru_nodes := ?h\<rparr>)"
    using dll_front [OF d] p det by (simp add: lru_add_to_front_def Let_def detached_def link_between_def)
  show "dll ?h (lru_main_head s) (p # xs) (lru_main_tail s)" by (rule dll_push_front [OF d p])
qed (rule link_between_content)

lemma lru_move_to_front_eq:
  assumes d: "dll (lru_nodes s) (lru_main_head s) xs (lru_main_tail s)" and p: "p \<in> set xs"
  obtains h' where "lru_move_to_front s p = Some (s\<lparr>lru_nodes := h'\<rparr>)"
    "dll h' (lru_main_head s) (p # remove1 p xs) (lru_main_tail s)"
    "\<And>q. content (h' q) = content (lru_nodes s q)"
proof -
  obtain h1 where h1: "remove_node (lru_nodes s) p = (h1, True)"
    "dll h1 (lru_main_head s) (remove1 p xs) (lru_main_tail s)" "detached h1 p"
    "\<And>q. content (h1 q) = content (lru_nodes s q)"
    using remove_node_dll [OF d p] by metis
  let ?s = "s\<lparr>lru_nodes := h1\<rparr>"
  have "p \<notin> set (lru_main_head ?s # remove1 p xs @ [lru_main_tail ?s])"
    using d p by (auto simp: dll_def)
  then obtain h2 where h2: "lru_add_to_front ?s p = Some (?s\<lparr>lru_nodes := h2\<rparr>)"
    "dll h2 (lru_main_head s) (p # remove1 p xs) (lru_main_tail s)" "\<And>q. content (h2 q) = content (h1 q)"
    using lru_add_to_front_eq [of ?s "remove1 p xs" p] h1 by auto
  show ?thesis
    using h1 h2 by (intro that [of h2]) (simp_all add: lru_move_to_front_def Let_def)
qed

lemma lru_repI: "lru_at s xs gs \<Longrightarrow> lru_view s xs gs = a \<Longrightarrow> lru_rep s a"
  by (auto simp: lru_rep_def)

lemma lru_drop_main:
  assumes "lru_at s xs gs" and p: "p \<in> set xs"
  obtains h' where "lru_remove_from_main s p = s\<lparr>lru_nodes := h'\<rparr>" "detached h' p"
    "\<And>q. content (h' q) = content (lru_nodes s q)"
    "lru_at (s\<lparr>lru_nodes := h', lru_main := AList.delete (main_key s p) (lru_main s)\<rparr>) (remove1 p xs) gs"
proof
  have at: "keyed_list (lru_nodes s) (lru_fresh s) (lru_main s) (lru_main_head s) (lru_main_tail s) xs"
    using assms(1) by (simp add: lru_at_def lru_main_at_def)
  let ?h = "fst (remove_node (lru_nodes s) p)"
  show "lru_remove_from_main s p = s\<lparr>lru_nodes := ?h\<rparr>" by (simp add: lru_remove_from_main_def)
  show "lru_at (s\<lparr>lru_nodes := ?h, lru_main := AList.delete (main_key s p) (lru_main s)\<rparr>) (remove1 p xs) gs"
    using assms(1) keyed_list_remove(1) [OF at p] by (simp add: lru_at_def lru_main_at_def lru_ghost_at_def)
qed (use assms(1) p keyed_list_remove(2,3) in \<open>auto simp: lru_at_def lru_main_at_def\<close>)

lemma same_main_trans: "same_main s t \<Longrightarrow> same_main t u \<Longrightarrow> same_main s u"
  by (simp add: same_main_def)

lemma lru_drop_ghost:
  assumes at: "lru_ghost_at s gs" and p: "p \<in> set gs"
  defines "t \<equiv> (lru_remove_from_ghost s p)\<lparr>lru_ghost := AList.delete (ghost_key s p) (lru_ghost s)\<rparr>"
  shows "lru_ghost_at t (remove1 p gs)" and "\<And>q. nd_key (lru_ghost_nodes (lru_remove_from_ghost s p) q) = ghost_key s q"
    and "same_main s t"
proof -
  note rm = keyed_list_remove [OF at [unfolded lru_ghost_at_def] p]
  show "lru_ghost_at t (remove1 p gs)" using rm(1) by (simp add: lru_ghost_at_def t_def lru_remove_from_ghost_def)
  show "nd_key (lru_ghost_nodes (lru_remove_from_ghost s p) q) = ghost_key s q" for q
    using content_sel [OF rm(3)] by (simp add: lru_remove_from_ghost_def)
  show "same_main s t" by (simp add: same_main_def t_def lru_remove_from_ghost_def)
qed

lemma lru_erase_ghost_at:
  fixes s :: "('k, 'v) arc_lru" and k :: 'k
  assumes at: "lru_ghost_at s gs"
  defines "t \<equiv> fst (lru_erase_ghost s k)"
  shows "\<exists>gs'. lru_ghost_at t gs' \<and> map (ghost_key t) gs' = removeAll k (map (ghost_key s) gs)"
    and "same_main s t" and "snd (lru_erase_ghost s k) \<longleftrightarrow> k \<in> ghost_key s ` set gs"
proof -
  have idx: "index_ok (lru_ghost s) (ghost_key s) gs" using at by (simp add: lru_ghost_at_def keyed_list_def)
  have gd: "distinct (map (ghost_key s) gs)" using idx by (simp add: index_ok_def)
  have "(\<exists>gs'. lru_ghost_at t gs' \<and> map (ghost_key t) gs' = removeAll k (map (ghost_key s) gs))
      \<and> same_main s t \<and> (snd (lru_erase_ghost s k) \<longleftrightarrow> k \<in> ghost_key s ` set gs)"
  proof (cases "map_of (lru_ghost s) k")
    case None
    then have "k \<notin> ghost_key s ` set gs" using index_lookup_None [OF idx] by blast
    then show ?thesis using None at by (auto simp: t_def lru_erase_ghost_def same_main_def)
  next
    case (Some p)
    then have p: "p \<in> set gs" "ghost_key s p = k" using index_lookup [OF idx] by blast+
    have t: "t = (lru_remove_from_ghost s p)\<lparr>lru_ghost := AList.delete (ghost_key s p) (lru_ghost s)\<rparr>"
      and r: "snd (lru_erase_ghost s k)"
      using Some p by (simp_all add: t_def lru_erase_ghost_def Let_def lru_remove_from_ghost_def)
    note drop = lru_drop_ghost [OF at p(1), folded t]
    have "map (ghost_key t) (remove1 p gs) = removeAll k (map (ghost_key s) gs)"
      using map_remove1_key [OF gd p(1)] p(2) drop(2) by (simp add: t)
    with drop r p show ?thesis by auto
  qed
  then show "\<exists>gs'. lru_ghost_at t gs' \<and> map (ghost_key t) gs' = removeAll k (map (ghost_key s) gs)"
    and "same_main s t" and "snd (lru_erase_ghost s k) \<longleftrightarrow> k \<in> ghost_key s ` set gs" by blast+
qed

lemma lru_remove_oldest_ghost_at:
  assumes at: "lru_ghost_at s gs"
  defines "t \<equiv> lru_remove_oldest_ghost s"
  shows "\<exists>gs'. lru_ghost_at t gs' \<and> map (ghost_key t) gs' = butlast (map (ghost_key s) gs)"
    and "same_main s t"
proof -
  have d: "dll (lru_ghost_nodes s) (lru_ghost_head s) gs (lru_ghost_tail s)" using at by (simp add: lru_ghost_at_def keyed_list_def)
  have "(\<exists>gs'. lru_ghost_at t gs' \<and> map (ghost_key t) gs' = butlast (map (ghost_key s) gs)) \<and> same_main s t"
  proof (cases gs rule: rev_cases)
    case Nil
    with dll_back [OF d] have "t = s" by (simp add: t_def lru_remove_oldest_ghost_def)
    with Nil at show ?thesis by (auto simp: same_main_def)
  next
    case (snoc g p)
    have prev: "nd_prev (lru_ghost_nodes s (lru_ghost_tail s)) = Some p" "p \<noteq> lru_ghost_head s"
      and dist: "distinct gs"
      using d snoc dll_back [OF d] by (auto simp: dll_def)
    have p: "p \<in> set gs" using snoc by simp
    note drop = lru_drop_ghost [OF at p]
    have t: "t = (lru_remove_from_ghost s p)\<lparr>lru_ghost := AList.delete (ghost_key s p) (lru_ghost s)\<rparr>"
      using prev drop(2) by (simp add: t_def lru_remove_oldest_ghost_def Let_def)
        (simp add: lru_remove_from_ghost_def)
    have rm: "remove1 p gs = g" using snoc dist by (simp add: remove1_append)
    have "map (ghost_key t) g = butlast (map (ghost_key s) gs)"
      using snoc drop(2) by (simp add: t butlast_append)
    with drop [folded t] show ?thesis unfolding rm by blast
  qed
  then show "\<exists>gs'. lru_ghost_at t gs' \<and> map (ghost_key t) gs' = butlast (map (ghost_key s) gs)"
    and "same_main s t" by blast+
qed

lemma lru_add_to_ghost_at:
  fixes s :: "('k, 'v) arc_lru" and e :: addr
  assumes at: "lru_ghost_at s gs" and det: "detached (lru_nodes s) e"
    and new: "main_key s e \<notin> ghost_key s ` set gs"
  defines "t \<equiv> fst (lru_add_to_ghost s e)"
  shows "\<exists>gs'. lru_ghost_at t gs' \<and> map (ghost_key t) gs' =
       (if lru_ghost_cap s = 0 then map (ghost_key s) gs else main_key s e # map (ghost_key s) gs)"
    and "same_main s t"
proof -
  show "same_main s t"
    by (auto simp: t_def lru_add_to_ghost_def same_main_def Let_def split: option.split)
  show "\<exists>gs'. lru_ghost_at t gs' \<and> map (ghost_key t) gs' =
       (if lru_ghost_cap s = 0 then map (ghost_key s) gs else main_key s e # map (ghost_key s) gs)"
  proof (cases "lru_ghost_cap s = 0")
    case True
    then have "t = s" by (auto simp: t_def lru_add_to_ghost_def split: option.split)
    with True at show ?thesis by auto
  next
    case False
    let ?n = "lru_ghost_fresh s" and ?k = "main_key s e" and ?hd = "lru_ghost_head s" and ?tl = "lru_ghost_tail s"
    define h where "h = (lru_ghost_nodes s)(?n := new_arc_node ?k ())"
    define h' where "h' = link_between h ?hd ?n (hd (gs @ [?tl]))"
    note at' = at [unfolded lru_ghost_at_def]
    note keyed = keyed_list_new(3,5) [OF at' new, of "()", folded h_def, folded h'_def]
    have d: "dll (lru_ghost_nodes s) ?hd gs ?tl" and n: "?n \<notin> set (?hd # gs @ [?tl])"
      using at' by (auto simp: keyed_list_def)
    have "map_of (lru_ghost s) ?k = None" using new keyed_list_lookup(2) [OF at'] by blast
    then have t: "t = s\<lparr>lru_ghost_nodes := h', lru_ghost_fresh := ?n + 1,
        lru_ghost := AList.update ?k ?n (lru_ghost s)\<rparr>"
      using False det n dll_front [OF d]
      by (simp add: t_def lru_add_to_ghost_def Let_def detached_def h'_def h_def link_between_def)
    have "lru_ghost_at t (?n # gs)" using keyed(1) by (simp add: lru_ghost_at_def t)
    moreover have "nd_key (h' q) = (if q = ?n then ?k else ghost_key s q)" for q
      using arg_cong [OF keyed(2), of fst q] by (cases "q = ?n") simp_all
    then have "map (ghost_key t) (?n # gs) = ?k # map (ghost_key s) gs" using n by (auto simp: t)
    ultimately show ?thesis using False by auto
  qed
qed

lemma lru_main_at_same:
  "same_main s t \<Longrightarrow> lru_main_at (t\<lparr>lru_main := m\<rparr>) xs = lru_main_at (s\<lparr>lru_main := m\<rparr>) xs"
  by (simp add: lru_main_at_def keyed_list_def same_main_def)

lemma lru_evict_at:
  fixes s :: "('k, 'v) arc_lru"
  assumes at: "lru_at s (xs @ [p]) gs" and new: "main_key s p \<notin> ghost_key s ` set gs"
  defines "t \<equiv> lru_evict_least_recent s"
    and "full \<equiv> length gs \<ge> lru_ghost_cap s"
  shows "\<exists>gs'. lru_at t xs gs' \<and> map (ghost_key t) gs' =
      (let old = (if full then butlast (map (ghost_key s) gs) else map (ghost_key s) gs)
       in if lru_ghost_cap s = 0 then old else main_key s p # old)"
    and "\<And>q. content (lru_nodes t q) = content (lru_nodes s q)"
    and "lru_cap t = lru_cap s" "lru_ghost_cap t = lru_ghost_cap s" "lru_trans t = lru_trans s"
proof -
  have d: "dll (lru_nodes s) (lru_main_head s) (xs @ [p]) (lru_main_tail s)" and gat: "lru_ghost_at s gs"
    using at by (simp_all add: lru_at_def lru_main_at_def keyed_list_def)
  have bk: "nd_prev (lru_nodes s (lru_main_tail s)) = Some p" "p \<noteq> lru_main_head s"
    using dll_back [OF d] d by (auto simp: dll_def)
  have rm: "remove1 p (xs @ [p]) = xs" using d by (auto simp: dll_def remove1_append)
  obtain h where h: "lru_remove_from_main s p = s\<lparr>lru_nodes := h\<rparr>" "detached h p"
    and con: "\<And>q. content (h q) = content (lru_nodes s q)"
    and at1: "lru_at (s\<lparr>lru_nodes := h, lru_main := AList.delete (main_key s p) (lru_main s)\<rparr>) xs gs"
    using lru_drop_main [OF at, of p] unfolding rm by auto
  define s1 where "s1 = s\<lparr>lru_nodes := h\<rparr>"
  define s2 where "s2 = (if length (lru_ghost s1) \<ge> lru_ghost_cap s1 then lru_remove_oldest_ghost s1 else s1)"
  define s3 where "s3 = fst (lru_add_to_ghost s2 p)"
  have gat1: "lru_ghost_at s1 gs" using gat by (simp add: lru_ghost_at_def keyed_list_def s1_def)
  have full: "length (lru_ghost s1) \<ge> lru_ghost_cap s1 \<longleftrightarrow> full"
    using gat index_length by (fastforce simp: lru_ghost_at_def keyed_list_def full_def s1_def)
  have s1s2: "same_main s1 s2"
    using lru_remove_oldest_ghost_at(2) [OF gat1] by (simp add: s2_def same_main_def)
  obtain gs2 where gat2: "lru_ghost_at s2 gs2" and k2: "map (ghost_key s2) gs2 =
      (if full then butlast (map (ghost_key s) gs) else map (ghost_key s) gs)"
    using lru_remove_oldest_ghost_at(1) [OF gat1] gat1 unfolding s2_def full
    by (cases full) (auto simp: s1_def)
  have keys: "main_key s2 p = main_key s p" "detached (lru_nodes s2) p"
    using s1s2 h(2) content_sel [OF con] by (simp_all add: same_main_def s1_def)
  have "set (map (ghost_key s2) gs2) \<subseteq> ghost_key s ` set gs"
    unfolding k2 by (auto dest: in_set_butlastD)
  then have "main_key s2 p \<notin> ghost_key s2 ` set gs2" using new keys(1) by auto
  note ghost3 = lru_add_to_ghost_at [OF gat2 keys(2) this, folded s3_def]
  have s1s3: "same_main s1 s3" using s1s2 ghost3(2) by (rule same_main_trans)
  have "t = s3\<lparr>lru_main := AList.delete (main_key s3 p) (lru_main s3)\<rparr>"
    unfolding t_def lru_evict_least_recent_def bk(1) option.case Let_def h(1) s1_def [symmetric]
      s2_def [symmetric] s3_def [symmetric] using bk(2) by simp
  moreover have "main_key s3 p = main_key s p"
    using s1s3 content_sel [OF con] by (simp add: same_main_def s1_def)
  ultimately have t: "t = s3\<lparr>lru_main := AList.delete (main_key s p) (lru_main s3)\<rparr>" by simp
  have main3: "lru_main s3 = lru_main s" "lru_nodes s3 = h" using s1s3 by (simp_all add: same_main_def s1_def)
  have "lru_main_at t xs"
    using at1 lru_main_at_same [OF s1s3] unfolding t main3 by (simp add: lru_at_def s1_def lru_main_at_def keyed_list_def)
  moreover obtain gs3 where "lru_ghost_at s3 gs3" and k3: "map (ghost_key s3) gs3 =
      (if lru_ghost_cap s = 0 then map (ghost_key s2) gs2 else main_key s p # map (ghost_key s2) gs2)"
    using ghost3(1) keys(1) s1s2 by (auto simp: same_main_def s1_def)
  moreover from this have "lru_ghost_at t gs3" by (simp add: t lru_ghost_at_def keyed_list_def)
  ultimately have "lru_at t xs gs3" "map (ghost_key t) gs3 = (let old = (if full then butlast (map (ghost_key s) gs)
      else map (ghost_key s) gs) in if lru_ghost_cap s = 0 then old else main_key s p # old)"
    by (simp_all add: lru_at_def t k2)
  then show "\<exists>gs'. lru_at t xs gs' \<and> map (ghost_key t) gs' =
      (let old = (if full then butlast (map (ghost_key s) gs) else map (ghost_key s) gs)
       in if lru_ghost_cap s = 0 then old else main_key s p # old)" by blast
  show "content (lru_nodes t q) = content (lru_nodes s q)" for q using con by (simp add: t main3)
  show "lru_cap t = lru_cap s" "lru_ghost_cap t = lru_ghost_cap s" "lru_trans t = lru_trans s"
    using s1s3 by (simp_all add: t same_main_def s1_def)
qed

section \<open>Refinement of the operations\<close>

lemma lru_repE:
  assumes "lru_rep s a"
  obtains xs gs where "lru_at s xs gs" "a = lru_view s xs gs"
  using assms by (auto simp: lru_rep_def)

lemma lru_view_simps [simp]:
  "ls_cap (lru_view s xs gs) = lru_cap s" "ls_gcap (lru_view s xs gs) = lru_ghost_cap s"
  "ls_trans (lru_view s xs gs) = lru_trans s"
  "ls_entries (lru_view s xs gs) = map (\<lambda>p. content (lru_nodes s p)) xs"
  "ls_ghosts (lru_view s xs gs) = map (ghost_key s) gs"
  by (simp_all add: lru_view_def)

lemma lru_rep_fields:
  assumes "lru_rep s a"
  shows "lru_cap s = ls_cap a" "lru_ghost_cap s = ls_gcap a" "lru_trans s = ls_trans a"
    "length (lru_main s) = length (ls_entries a)" "length (lru_ghost s) = length (ls_ghosts a)"
    "fst ` set (lru_main s) = fst ` set (ls_entries a)" "fst ` set (lru_ghost s) = set (ls_ghosts a)"
    "distinct (map fst (ls_entries a))" "distinct (ls_ghosts a)"
proof -
  obtain xs gs where at: "lru_at s xs gs" and a: "a = lru_view s xs gs" using assms by (rule lru_repE)
  have m: "index_ok (lru_main s) (main_key s) xs" and g: "index_ok (lru_ghost s) (ghost_key s) gs"
    using at by (simp_all add: lru_at_defs)
  show "lru_cap s = ls_cap a" "lru_ghost_cap s = ls_gcap a" "lru_trans s = ls_trans a"
    "length (lru_main s) = length (ls_entries a)" "length (lru_ghost s) = length (ls_ghosts a)"
    using index_length [OF m] index_length [OF g] by (simp_all add: a)
  show "fst ` set (lru_main s) = fst ` set (ls_entries a)" "fst ` set (lru_ghost s) = set (ls_ghosts a)"
    using index_keys [OF m] index_keys [OF g] by (simp_all add: a image_image)
  show "distinct (map fst (ls_entries a))" "distinct (ls_ghosts a)"
    using m g by (simp_all add: a index_ok_def comp_def)
qed

lemma lru_evict_rep:
  assumes rep: "lru_rep s a" and ok: "ls_keys_ok a"
  shows "lru_rep (lru_evict_least_recent s) (ls_evict a)"
proof -
  obtain xs gs where at: "lru_at s xs gs" and a: "a = lru_view s xs gs" using rep by (rule lru_repE)
  show ?thesis
  proof (cases xs rule: rev_cases)
    case Nil
    have d: "dll (lru_nodes s) (lru_main_head s) xs (lru_main_tail s)" using at by (simp add: lru_at_defs)
    with dll_back [OF d] Nil have "lru_evict_least_recent s = s" by (simp add: lru_evict_least_recent_def)
    moreover have "ls_evict a = a" by (simp add: ls_evict_def a Nil)
    ultimately show ?thesis using rep by simp
  next
    case (snoc ys p)
    have "main_key s p \<in> fst ` set (ls_entries a)" using snoc by (force simp: a)
    then have new: "main_key s p \<notin> ghost_key s ` set gs" using ok by (auto simp: ls_keys_ok_def a)
    note ev = lru_evict_at [OF at [unfolded snoc] new]
    obtain gs' where "lru_at (lru_evict_least_recent s) ys gs'" and
      "map (ghost_key (lru_evict_least_recent s)) gs' =
        (let old = (if length gs \<ge> lru_ghost_cap s then butlast (map (ghost_key s) gs) else map (ghost_key s) gs)
         in if lru_ghost_cap s = 0 then old else main_key s p # old)"
      using ev(1) by blast
    moreover from this have "lru_view (lru_evict_least_recent s) ys gs' = ls_evict a"
      using ev(2-5) snoc by (simp add: lru_view_def ls_evict_def a Let_def)
    ultimately show ?thesis by (blast intro: lru_repI)
  qed
qed

lemma ls_evict_simps [simp]:
  "ls_cap (ls_evict a) = ls_cap a" "ls_gcap (ls_evict a) = ls_gcap a" "ls_trans (ls_evict a) = ls_trans a"
  "ls_entries (ls_evict a) = butlast (ls_entries a)"
  by (simp_all add: ls_evict_def Let_def)

lemma distinct_butlast_last: "distinct xs \<Longrightarrow> xs \<noteq> [] \<Longrightarrow> last xs \<notin> set (butlast xs)"
  by (induction xs) (auto dest: in_set_butlastD)

lemma ls_keys_ok_evict:
  assumes "ls_keys_ok a"
  shows "ls_keys_ok (ls_evict a)"
proof (cases "ls_entries a" rule: rev_cases)
  case Nil
  with assms show ?thesis by (simp add: ls_evict_def)
next
  case (snoc es e)
  define gs where "gs = (if length (ls_ghosts a) \<ge> ls_gcap a then butlast (ls_ghosts a) else ls_ghosts a)"
  have sub: "set gs \<subseteq> set (ls_ghosts a)" "distinct gs"
    using assms by (auto simp: gs_def ls_keys_ok_def distinct_butlast dest: in_set_butlastD)
  have len: "length gs \<le> ls_gcap a" "ls_gcap a \<noteq> 0 \<Longrightarrow> Suc (length gs) \<le> ls_gcap a"
    using assms by (auto simp: gs_def ls_keys_ok_def)
  have "fst ` set es \<inter> set (ls_ghosts a) = {}" "fst e \<notin> set (ls_ghosts a)" "distinct (map fst es)"
    "fst e \<notin> fst ` set es"
    using assms by (auto simp: ls_keys_ok_def snoc)
  moreover from this sub(1) have "fst ` set es \<inter> set gs = {}" "fst e \<notin> set gs" by blast+
  moreover have "ls_evict a = a\<lparr>ls_entries := es, ls_ghosts := (if ls_gcap a = 0 then gs else fst e # gs)\<rparr>"
    by (simp add: ls_evict_def Let_def snoc gs_def)
  ultimately show ?thesis
    using sub(2) len by (cases "ls_gcap a = 0") (simp_all add: ls_keys_ok_def)
qed

lemma lru_update_existing_node_rep:
  assumes rep: "lru_rep s a" and p: "map_of (lru_main s) k = Some p"
  shows "\<exists>s' c v0. lru_update_existing_node s p v = Some (s', True) \<and> map_of (ls_entries a) k = Some (v0, c)
    \<and> lru_rep s' (a\<lparr>ls_entries := (k, v, c) # without k (ls_entries a)\<rparr>)"
proof -
  obtain xs gs where at: "lru_at s xs gs" and a: "a = lru_view s xs gs" using rep by (rule lru_repE)
  have idx: "index_ok (lru_main s) (main_key s) xs"
    and d: "dll (lru_nodes s) (lru_main_head s) xs (lru_main_tail s)" using at by (simp_all add: lru_at_defs)
  have px: "p \<in> set xs" "main_key s p = k" and dk: "distinct (map (main_key s) xs)"
    using p index_lookup [OF idx] idx by (simp_all add: index_ok_def)
  define s1 where "s1 = s\<lparr>lru_nodes := set_value (lru_nodes s) p v\<rparr>"
  have d1: "dll (lru_nodes s1) (lru_main_head s1) xs (lru_main_tail s1)"
    unfolding s1_def by (simp, rule dll_cong [OF d]) (auto simp: set_value_def)
  obtain h' where h': "lru_move_to_front s1 p = Some (s1\<lparr>lru_nodes := h'\<rparr>)"
    "dll h' (lru_main_head s1) (p # remove1 p xs) (lru_main_tail s1)"
    "\<And>q. content (h' q) = content (lru_nodes s1 q)"
    using lru_move_to_front_eq [OF d1 px(1)] by metis
  let ?c = "nd_access_count (lru_nodes s p)"
  have con: "content (h' q) = (if q = p then (k, v, ?c) else content (lru_nodes s q))" for q
    using h'(3) [of q] px(2) by (auto simp: s1_def set_value_def content_def)
  have "index_ok (lru_main s) (\<lambda>q. nd_key (h' q)) (p # remove1 p xs)"
  proof (rule index_perm [OF index_cong [OF idx]])
    show "nd_key (h' q) = main_key s q" if "q \<in> set xs" for q
      using arg_cong [OF con, of fst q] px(2) by (auto split: if_split_asm)
    show "set (p # remove1 p xs) = set xs" "distinct (p # remove1 p xs)"
      using px(1) index_distinct [OF idx] by auto
  qed
  then have "lru_at (s1\<lparr>lru_nodes := h'\<rparr>) (p # remove1 p xs) gs"
    using at h'(2) px(1) by (auto simp: lru_at_defs s1_def dest: notin_set_remove1)
  moreover have "lru_view (s1\<lparr>lru_nodes := h'\<rparr>) (p # remove1 p xs) gs
      = a\<lparr>ls_entries := (k, v, ?c) # without k (ls_entries a)\<rparr>"
  proof -
    have "map (\<lambda>q. content (h' q)) (remove1 p xs) = map (\<lambda>q. content (lru_nodes s q)) (remove1 p xs)"
      using index_distinct [OF idx] by (intro map_cong) (auto simp: con)
    also have "\<dots> = without k (map (\<lambda>q. content (lru_nodes s q)) xs)"
      using map_content_without [OF dk px(1), of "\<lambda>q. content (lru_nodes s q)"] px(2) by simp
    finally show ?thesis by (simp add: lru_view_def s1_def a con)
  qed
  moreover have "map_of (ls_entries a) k = Some (nd_value (lru_nodes s p), ?c)"
    using map_of_content [OF dk px(1), of "\<lambda>q. content (lru_nodes s q)"] px(2) by (simp add: a content_def)
  moreover have "lru_update_existing_node s p v = Some (s1\<lparr>lru_nodes := h'\<rparr>, True)"
    using h'(1) by (simp add: lru_update_existing_node_def Let_def s1_def)
  ultimately show ?thesis by (blast intro: lru_repI)
qed

lemma lru_update_node_access_rep:
  assumes rep: "lru_rep s a" and p: "map_of (lru_main s) k = Some p"
  shows "\<exists>s' c v. lru_update_node_access s p = Some (s', ls_trans a \<le> c + 1) \<and> nd_value (lru_nodes s' p) = v
    \<and> map_of (ls_entries a) k = Some (v, c)
    \<and> lru_rep s' (a\<lparr>ls_entries := (k, v, c + 1) # without k (ls_entries a)\<rparr>)"
proof -
  obtain xs gs where at: "lru_at s xs gs" and a: "a = lru_view s xs gs" using rep by (rule lru_repE)
  have idx: "index_ok (lru_main s) (main_key s) xs"
    and d: "dll (lru_nodes s) (lru_main_head s) xs (lru_main_tail s)" using at by (simp_all add: lru_at_defs)
  have px: "p \<in> set xs" "main_key s p = k" and dk: "distinct (map (main_key s) xs)"
    using p index_lookup [OF idx] idx by (simp_all add: index_ok_def)
  obtain h1 where h1: "lru_move_to_front s p = Some (s\<lparr>lru_nodes := h1\<rparr>)"
    "dll h1 (lru_main_head s) (p # remove1 p xs) (lru_main_tail s)"
    "\<And>q. content (h1 q) = content (lru_nodes s q)"
    using lru_move_to_front_eq [OF d px(1)] by metis
  define h' where "h' = increment_access_count h1 p"
  let ?c = "nd_access_count (lru_nodes s p)" and ?v = "nd_value (lru_nodes s p)"
  have con: "content (h' q) = (if q = p then (k, ?v, ?c + 1) else content (lru_nodes s q))" for q
    using content_sel [OF h1(3)] h1(3) [of q] px(2) by (simp add: h'_def increment_access_count_def content_def)
  have "index_ok (lru_main s) (\<lambda>q. nd_key (h' q)) (p # remove1 p xs)"
  proof (rule index_perm [OF index_cong [OF idx]])
    show "nd_key (h' q) = main_key s q" if "q \<in> set xs" for q
      using arg_cong [OF con, of fst q] px(2) by (auto split: if_split_asm)
    show "set (p # remove1 p xs) = set xs" "distinct (p # remove1 p xs)"
      using px(1) index_distinct [OF idx] by auto
  qed
  moreover have "dll h' (lru_main_head s) (p # remove1 p xs) (lru_main_tail s)"
    by (rule dll_cong [OF h1(2)]) (simp add: h'_def increment_access_count_def)
  ultimately have "lru_at (s\<lparr>lru_nodes := h'\<rparr>) (p # remove1 p xs) gs"
    using at px(1) by (auto simp: lru_at_defs dest: notin_set_remove1)
  moreover have "lru_view (s\<lparr>lru_nodes := h'\<rparr>) (p # remove1 p xs) gs
      = a\<lparr>ls_entries := (k, ?v, ?c + 1) # without k (ls_entries a)\<rparr>"
  proof -
    have "map (\<lambda>q. content (h' q)) (remove1 p xs) = map (\<lambda>q. content (lru_nodes s q)) (remove1 p xs)"
      using index_distinct [OF idx] by (intro map_cong) (auto simp: con)
    also have "\<dots> = without k (map (\<lambda>q. content (lru_nodes s q)) xs)"
      using map_content_without [OF dk px(1), of "\<lambda>q. content (lru_nodes s q)"] px(2) by simp
    finally show ?thesis by (simp add: lru_view_def a con)
  qed
  moreover have "map_of (ls_entries a) k = Some (?v, ?c)"
    using map_of_content [OF dk px(1), of "\<lambda>q. content (lru_nodes s q)"] px(2) by (simp add: a content_def)
  moreover have "nd_access_count (h' p) = ?c + 1" "nd_value (h' p) = ?v"
    using con [of p] by (simp_all add: content_def)
  moreover have "lru_update_node_access s p = Some (s\<lparr>lru_nodes := h'\<rparr>, lru_trans s \<le> nd_access_count (h' p))"
    using h1(1) by (simp add: lru_update_node_access_def Let_def h'_def)
  ultimately show ?thesis
    by (intro exI [of _ "s\<lparr>lru_nodes := h'\<rparr>"] exI [of _ ?c] exI [of _ ?v] conjI)
      (auto intro: lru_repI simp: a)
qed

lemma lru_insert_front_rep:
  assumes rep: "lru_rep s a" and k: "k \<notin> fst ` set (ls_entries a)"
  shows "\<exists>s'. lru_add_to_front (s\<lparr>lru_nodes := (lru_nodes s)(lru_fresh s := new_arc_node k v),
      lru_fresh := lru_fresh s + 1, lru_main := AList.update k (lru_fresh s) (lru_main s)\<rparr>) (lru_fresh s) = Some s'
    \<and> lru_rep s' (a\<lparr>ls_entries := (k, v, 1) # ls_entries a\<rparr>)"
proof -
  obtain xs gs where at: "lru_at s xs gs" and a: "a = lru_view s xs gs" using rep by (rule lru_repE)
  let ?n = "lru_fresh s"
  define h where "h = (lru_nodes s)(?n := new_arc_node k v)"
  define s1 where "s1 = s\<lparr>lru_nodes := h, lru_fresh := ?n + 1, lru_main := AList.update k ?n (lru_main s)\<rparr>"
  have idx: "index_ok (lru_main s) (main_key s) xs"
    and d: "dll (lru_nodes s) (lru_main_head s) xs (lru_main_tail s)"
    and n: "?n \<notin> set (lru_main_head s # xs @ [lru_main_tail s])"
    using at by (auto simp: lru_at_defs)
  have d1: "dll (lru_nodes s1) (lru_main_head s1) xs (lru_main_tail s1)"
    using n unfolding s1_def by (simp, intro dll_cong [OF d]) (auto simp: h_def)
  have "?n \<notin> set (lru_main_head s1 # xs @ [lru_main_tail s1])" "detached (lru_nodes s1) ?n"
    using n by (simp_all add: s1_def h_def detached_def new_arc_node_def)
  then obtain h' where h': "lru_add_to_front s1 ?n = Some (s1\<lparr>lru_nodes := h'\<rparr>)"
    "dll h' (lru_main_head s1) (?n # xs) (lru_main_tail s1)" "\<And>q. content (h' q) = content (lru_nodes s1 q)"
    using lru_add_to_front_eq [OF d1] by metis
  have con: "content (h' q) = (if q = ?n then (k, v, 1) else content (lru_nodes s q))" for q
    using h'(3) [of q] by (simp add: s1_def h_def content_def new_arc_node_def)
  have keep: "content (h' q) = content (lru_nodes s q)" if "q \<in> set xs" for q
    using n that by (auto simp: con)
  have "k \<notin> main_key s ` set xs" using k by (auto simp: a image_image)
  then have "index_ok (AList.update k ?n (lru_main s)) (\<lambda>q. nd_key (h' q)) (?n # xs)"
    using content_sel [OF keep] arg_cong [OF con [of ?n], of fst]
    by (intro index_insert index_cong [OF idx]) (auto simp: image_iff)
  then have "lru_at (s1\<lparr>lru_nodes := h'\<rparr>) (?n # xs) gs"
    using at h'(2) by (auto simp: lru_at_defs s1_def)
  moreover have "lru_view (s1\<lparr>lru_nodes := h'\<rparr>) (?n # xs) gs = a\<lparr>ls_entries := (k, v, 1) # ls_entries a\<rparr>"
    using keep by (simp add: lru_view_def s1_def a con cong: map_cong)
  ultimately show ?thesis
    using h'(1) by (auto simp: s1_def h_def intro: lru_repI)
qed

lemma lru_erase_ghost_rep:
  assumes rep: "lru_rep s a"
  shows "lru_rep (fst (lru_erase_ghost s k)) (a\<lparr>ls_ghosts := removeAll k (ls_ghosts a)\<rparr>)"
    and "snd (lru_erase_ghost s k) \<longleftrightarrow> k \<in> set (ls_ghosts a)"
proof -
  obtain xs gs where at: "lru_at s xs gs" and a: "a = lru_view s xs gs" using rep by (rule lru_repE)
  note er = lru_erase_ghost_at [of s gs k]
  have gat: "lru_ghost_at s gs" using at by (simp add: lru_at_def)
  obtain gs' where gs': "lru_ghost_at (fst (lru_erase_ghost s k)) gs'"
    "map (ghost_key (fst (lru_erase_ghost s k))) gs' = removeAll k (map (ghost_key s) gs)"
    using er(1) [OF gat] by blast
  have "lru_at (fst (lru_erase_ghost s k)) xs gs'"
    using at gs'(1) er(2) [OF gat] by (simp add: lru_at_def lru_main_at_def keyed_list_def same_main_def)
  moreover have "lru_view (fst (lru_erase_ghost s k)) xs gs' = a\<lparr>ls_ghosts := removeAll k (ls_ghosts a)\<rparr>"
    using gs'(2) er(2) [OF gat] by (simp add: lru_view_def a same_main_def)
  ultimately show "lru_rep (fst (lru_erase_ghost s k)) (a\<lparr>ls_ghosts := removeAll k (ls_ghosts a)\<rparr>)"
    by (rule lru_repI)
  show "snd (lru_erase_ghost s k) \<longleftrightarrow> k \<in> set (ls_ghosts a)" using er(3) [OF gat] by (simp add: a)
qed

lemma lru_lookup_rep:
  assumes "lru_rep s a"
  shows "map_of (lru_main s) k = None \<longleftrightarrow> map_of (ls_entries a) k = None"
  using lru_rep_fields(6) [OF assms] by (simp add: map_of_eq_None_iff)

lemma ls_keys_ok_remove_ghost:
  "ls_keys_ok a \<Longrightarrow> ls_keys_ok (a\<lparr>ls_ghosts := removeAll k (ls_ghosts a)\<rparr>)"
  by (auto simp: ls_keys_ok_def distinct_removeAll intro: order_trans [OF length_removeAll_less_eq])

text \<open>Each public operation refines its specification.\<close>

lemma lru_put_rep:
  assumes rep: "lru_rep s a" and ok: "ls_keys_ok a"
  shows "\<exists>s'. lru_put s k v = Some (s', snd (ls_put a k v)) \<and> lru_rep s' (fst (ls_put a k v))"
proof (cases "lru_cap s = 0")
  case True
  then show ?thesis using rep lru_rep_fields(1) [OF rep] by (simp add: lru_put_def ls_put_def)
next
  case cap: False
  show ?thesis
  proof (cases "map_of (lru_main s) k")
    case (Some p)
    then show ?thesis
      using lru_update_existing_node_rep [OF rep Some, of v] cap lru_rep_fields(1) [OF rep]
      by (auto simp: lru_put_def ls_put_def)
  next
    case None
    define s1 where "s1 = fst (lru_erase_ghost s k)"
    define a1 where "a1 = a\<lparr>ls_ghosts := removeAll k (ls_ghosts a)\<rparr>"
    have rep1: "lru_rep s1 a1" and ok1: "ls_keys_ok a1"
      using lru_erase_ghost_rep(1) [OF rep] ls_keys_ok_remove_ghost [OF ok] by (simp_all add: s1_def a1_def)
    define s2 where "s2 = (if length (lru_main s1) \<ge> lru_cap s1 then lru_evict_least_recent s1 else s1)"
    define a2 where "a2 = (if length (ls_entries a1) \<ge> ls_cap a1 then ls_evict a1 else a1)"
    have rep2: "lru_rep s2 a2"
      using rep1 lru_evict_rep [OF rep1 ok1] lru_rep_fields [OF rep1] by (simp add: s2_def a2_def)
    have "map_of (ls_entries a) k = None" using lru_lookup_rep [OF rep] None by blast
    then have "k \<notin> fst ` set (ls_entries a)" by (simp add: map_of_eq_None_iff)
    then have "k \<notin> fst ` set (ls_entries a2)" by (auto simp: a2_def a1_def dest: in_set_butlastD)
    then obtain s' where "lru_add_to_front (s2\<lparr>lru_nodes := (lru_nodes s2)(lru_fresh s2 := new_arc_node k v),
        lru_fresh := lru_fresh s2 + 1, lru_main := AList.update k (lru_fresh s2) (lru_main s2)\<rparr>) (lru_fresh s2) = Some s'"
      and rep': "lru_rep s' (a2\<lparr>ls_entries := (k, v, 1) # ls_entries a2\<rparr>)"
      using lru_insert_front_rep [OF rep2] by blast
    then have "lru_add_new_node s1 k v = Some (s', True)"
      by (simp add: lru_add_new_node_def Let_def flip: s2_def)
    moreover have "ls_put a k v = (a2\<lparr>ls_entries := (k, v, 1) # ls_entries a2\<rparr>, True)"
      using cap lru_rep_fields(1) [OF rep] \<open>map_of (ls_entries a) k = None\<close>
      by (simp add: ls_put_def Let_def a2_def a1_def)
    ultimately show ?thesis using None cap rep' by (simp add: lru_put_def s1_def)
  qed
qed

lemma lru_get_rep:
  assumes rep: "lru_rep s a"
  shows "\<exists>s'. lru_get s k = Some (s', snd (ls_get a k)) \<and> lru_rep s' (fst (ls_get a k))"
proof (cases "map_of (lru_main s) k")
  case None
  then have "map_of (ls_entries a) k = None" using lru_lookup_rep [OF rep] by blast
  with None rep show ?thesis by (simp add: lru_get_def ls_get_def)
next
  case (Some p)
  then show ?thesis
    using lru_update_node_access_rep [OF rep Some] by (auto simp: lru_get_def ls_get_def)
qed

lemma lru_erase_rep:
  assumes rep: "lru_rep s a"
  shows "lru_rep (fst (lru_erase s k)) (fst (ls_erase a k))" "snd (lru_erase s k) = snd (ls_erase a k)"
proof -
  obtain xs gs where at: "lru_at s xs gs" and a: "a = lru_view s xs gs" using rep by (rule lru_repE)
  have idx: "index_ok (lru_main s) (main_key s) xs" using at by (simp add: lru_at_defs)
  then have dk: "distinct (map (main_key s) xs)" by (simp add: index_ok_def)
  have "lru_rep (fst (lru_erase s k)) (fst (ls_erase a k)) \<and> snd (lru_erase s k) = snd (ls_erase a k)"
  proof (cases "map_of (lru_main s) k")
    case None
    then have "k \<notin> fst ` set (ls_entries a)"
      using lru_lookup_rep [OF rep] by (simp add: map_of_eq_None_iff)
    moreover from this have "without k (ls_entries a) = ls_entries a"
      unfolding without_def by (intro filter_True) force
    ultimately show ?thesis using None rep by (simp add: lru_erase_def ls_erase_def)
  next
    case (Some p)
    then have p: "p \<in> set xs" "main_key s p = k" using index_lookup [OF idx] by blast+
    obtain h where h: "lru_remove_from_main s p = s\<lparr>lru_nodes := h\<rparr>"
      "\<And>q. content (h q) = content (lru_nodes s q)"
      "lru_at (s\<lparr>lru_nodes := h, lru_main := AList.delete (main_key s p) (lru_main s)\<rparr>) (remove1 p xs) gs"
      using lru_drop_main [OF at p(1)] by metis
    have "lru_view (s\<lparr>lru_nodes := h, lru_main := AList.delete (main_key s p) (lru_main s)\<rparr>) (remove1 p xs) gs
        = fst (ls_erase a k)"
      using map_content_without [OF dk p(1), of "\<lambda>q. content (lru_nodes s q)"] h(2) p(2)
      by (simp add: lru_view_def a ls_erase_def)
    moreover have "k \<in> fst ` set (ls_entries a)" using p by (force simp: a image_image)
    ultimately show ?thesis
      using h Some p(2) lru_repI [OF h(3)] by (simp add: lru_erase_def Let_def ls_erase_def)
  qed
  then show "lru_rep (fst (lru_erase s k)) (fst (ls_erase a k))" "snd (lru_erase s k) = snd (ls_erase a k)"
    by blast+
qed

lemma lru_invalidate_rep:
  assumes rep: "lru_rep s a"
  shows "lru_rep (fst (lru_invalidate s k)) (fst (ls_invalidate a k))"
    "snd (lru_invalidate s k) = snd (ls_invalidate a k)"
proof -
  have eq: "lru_invalidate s k = (let (t, removed) = lru_erase s k; (u, gone) = lru_erase_ghost t k
      in (u, removed \<or> gone))"
    by (simp add: lru_invalidate_def lru_erase_def)
  note er = lru_erase_rep [OF rep, of k]
  note gh = lru_erase_ghost_rep [OF er(1), of k]
  show "lru_rep (fst (lru_invalidate s k)) (fst (ls_invalidate a k))"
    "snd (lru_invalidate s k) = snd (ls_invalidate a k)"
    using gh er(2) by (simp_all add: eq split_beta Let_def ls_invalidate_def ls_erase_def)
qed

lemma lru_shrink_rep:
  "lru_rep s a \<Longrightarrow> ls_keys_ok a \<Longrightarrow> \<exists>s'. lru_shrink s = Some s' \<and> lru_rep s' (ls_shrink a)"
proof (induction a arbitrary: s rule: ls_shrink.induct)
  case (1 a)
  have len: "length (lru_main s) > lru_cap s \<longleftrightarrow> length (ls_entries a) > ls_cap a"
    using lru_rep_fields [OF 1(2)] by simp
  show ?case
  proof (cases "length (ls_entries a) > ls_cap a")
    case True
    then have "\<exists>s'. lru_shrink (lru_evict_least_recent s) = Some s' \<and> lru_rep s' (ls_shrink (ls_evict a))"
      using 1(1) lru_evict_rep [OF 1(2,3)] ls_keys_ok_evict [OF 1(3)] by blast
    with True len show ?thesis by (simp add: lru_shrink.simps [of s] ls_shrink.simps [of a])
  next
    case False
    with len 1(2) show ?thesis by (simp add: lru_shrink.simps [of s] ls_shrink.simps [of a])
  qed
qed

lemma lru_rep_cap: "lru_rep s a \<Longrightarrow> lru_rep (s\<lparr>lru_cap := n\<rparr>) (a\<lparr>ls_cap := n\<rparr>)"
  by (auto elim!: lru_repE simp: lru_at_defs lru_view_def intro!: lru_repI)

lemma lru_decrease_rep:
  assumes "lru_rep s a" and "ls_keys_ok a"
  shows "\<exists>s'. lru_decrease_capacity s = Some (s', snd (ls_decrease a)) \<and> lru_rep s' (fst (ls_decrease a))"
proof -
  have "lru_rep (s\<lparr>lru_cap := lru_cap s - 1\<rparr>) (a\<lparr>ls_cap := ls_cap a - 1\<rparr>)"
    using lru_rep_cap [OF assms(1), of "lru_cap s - 1"] lru_rep_fields(1) [OF assms(1)] by simp
  moreover have "ls_keys_ok (a\<lparr>ls_cap := ls_cap a - 1\<rparr>)" using assms(2) by (simp add: ls_keys_ok_def)
  ultimately have "\<exists>s'. lru_shrink (s\<lparr>lru_cap := lru_cap s - 1\<rparr>) = Some s'
      \<and> lru_rep s' (ls_shrink (a\<lparr>ls_cap := ls_cap a - 1\<rparr>))"
    by (rule lru_shrink_rep)
  with assms(1) lru_rep_fields(1) [OF assms(1)] show ?thesis
    by (auto simp: lru_decrease_capacity_def ls_decrease_def)
qed

lemma new_arc_lru_rep:
  "lru_rep (new_arc_lru dk dv c th g)
     \<lparr>ls_cap = c, ls_gcap = g, ls_trans = th, ls_entries = [], ls_ghosts = []\<rparr>"
  by (rule lru_repI [of _ "[]" "[]"])
    (simp_all add: lru_at_defs lru_view_def new_arc_lru_def dll_def sentinels_def set_next_def set_prev_def
      index_ok_def)

section \<open>The partition contract\<close>

definition lru_lookup :: "('k, 'v) arc_lru \<Rightarrow> 'k \<Rightarrow> 'v option" where
  "lru_lookup s k = map_option (\<lambda>p. nd_value (lru_nodes s p)) (map_of (lru_main s) k)"

definition lru_ghost_keys :: "('k, 'v) arc_lru \<Rightarrow> 'k set" where
  "lru_ghost_keys s = fst ` set (lru_ghost s)"

definition lru_inv :: "('k, 'v) arc_lru \<Rightarrow> bool" where
  "lru_inv s \<longleftrightarrow> (\<exists>a. lru_rep s a \<and> ls_inv a)"

definition entry_map :: "('k \<times> 'v \<times> nat) list \<Rightarrow> 'k \<Rightarrow> 'v option" where
  "entry_map es k = map_option fst (map_of es k)"

lemma dom_entry_map: "dom (entry_map es) = fst ` set es"
  unfolding dom_def entry_map_def by (simp add: map_of_eq_None_iff)

lemma entry_map_Cons: "entry_map ((k, v, c) # es) = (entry_map es)(k \<mapsto> v)"
  by (auto simp: entry_map_def)

lemma map_of_without: "map_of (without k es) = (map_of es)(k := None)"
  by (induction es) (auto simp: without_def)

lemma entry_map_without: "entry_map (without k es) = (entry_map es)(k := None)"
  by (auto simp: entry_map_def map_of_without)

lemma entry_map_butlast:
  assumes "distinct (map fst es)" and "es \<noteq> []"
  shows "entry_map (butlast es) = entry_map es |` (- {fst (last es)})"
proof (cases es rule: rev_cases)
  case (snoc ys e)
  have "map_of ys (fst e) = None" using assms(1) by (simp add: snoc map_of_eq_None_iff)
  then show ?thesis
    by (intro ext, cases e) (auto simp: snoc entry_map_def restrict_map_def map_add_def split: option.split)
qed (use assms in simp)

lemma card_keys: "distinct (map fst es) \<Longrightarrow> card (fst ` set es) = length es"
  by (metis distinct_card length_map list.set_map)

lemma lru_lookup_rep_eq:
  assumes "lru_rep s a"
  shows "lru_lookup s = entry_map (ls_entries a)"
proof
  fix k
  obtain xs gs where at: "lru_at s xs gs" and a: "a = lru_view s xs gs" using assms by (rule lru_repE)
  have idx: "index_ok (lru_main s) (main_key s) xs" using at by (simp add: lru_at_defs)
  show "lru_lookup s k = entry_map (ls_entries a) k"
  proof (cases "map_of (lru_main s) k")
    case None
    then show ?thesis using lru_lookup_rep [OF assms, of k] by (simp add: lru_lookup_def entry_map_def)
  next
    case (Some p)
    then have p: "p \<in> set xs" "main_key s p = k" using index_lookup [OF idx] by blast+
    then have "map_of (ls_entries a) k = Some (snd (content (lru_nodes s p)))"
      using map_of_content [of "main_key s" xs p "\<lambda>q. content (lru_nodes s q)"] idx
      by (simp add: a index_ok_def)
    with Some show ?thesis by (simp add: lru_lookup_def entry_map_def content_def)
  qed
qed

lemma lru_ghost_keys_rep: "lru_rep s a \<Longrightarrow> lru_ghost_keys s = set (ls_ghosts a)"
  by (simp add: lru_ghost_keys_def lru_rep_fields)

lemma lru_invE:
  assumes "lru_inv s"
  obtains a where "lru_rep s a" "ls_inv a" "ls_keys_ok a" "lru_lookup s = entry_map (ls_entries a)"
    "lru_ghost_keys s = set (ls_ghosts a)" "lru_cap s = ls_cap a" "lru_ghost_cap s = ls_gcap a"
    "lru_trans s = ls_trans a"
proof -
  obtain a where a: "lru_rep s a" "ls_inv a" using assms by (auto simp: lru_inv_def)
  show ?thesis
    by (rule that [OF a _ lru_lookup_rep_eq [OF a(1)] lru_ghost_keys_rep [OF a(1)] lru_rep_fields(1-3) [OF a(1)]])
      (use a(2) in \<open>simp add: ls_inv_def\<close>)
qed

lemma lru_invI: "lru_rep s a \<Longrightarrow> ls_inv a \<Longrightarrow> lru_inv s"
  by (auto simp: lru_inv_def)

text \<open>The specification keeps its invariant.\<close>

lemma keys_without: "fst ` set (without k es) = fst ` set es - {k}"
  by (auto simp: without_def)

lemma distinct_without: "distinct (map fst es) \<Longrightarrow> distinct (map fst (without k es))"
  by (simp add: without_def distinct_map_filter)

lemma length_without: "length (without k es) \<le> length es"
  by (simp add: without_def)

lemma length_without_in: "k \<in> fst ` set es \<Longrightarrow> length (without k es) < length es"
  unfolding without_def by (elim imageE) (auto intro: length_filter_less)

lemma ls_evict_ghosts:
  assumes "ls_keys_ok a" and "ls_entries a \<noteq> []"
  shows "set (ls_ghosts (ls_evict a)) \<subseteq> set (ls_ghosts a) \<union> {fst (last (ls_entries a))}"
    and "ls_gcap a = 0 \<or> fst (last (ls_entries a)) \<in> set (ls_ghosts (ls_evict a))"
  using assms(2) by (auto simp: ls_evict_def Let_def dest: in_set_butlastD)

lemma ls_put_resident:
  fixes a :: "('k, 'v) lru_spec" and v :: 'v
  assumes inv: "ls_inv a" and cap: "ls_cap a \<noteq> 0" and k: "map_of (ls_entries a) k = Some (v0, c)"
  defines "b \<equiv> fst (ls_put a k v)"
  shows "snd (ls_put a k v)" "ls_inv b" "ls_cap b = ls_cap a" "ls_gcap b = ls_gcap a" "ls_trans b = ls_trans a"
    "entry_map (ls_entries b) = (entry_map (ls_entries a))(k \<mapsto> v)" "ls_ghosts b = ls_ghosts a"
proof -
  have b: "b = a\<lparr>ls_entries := (k, v, c) # without k (ls_entries a)\<rparr>" "snd (ls_put a k v)"
    using cap k by (simp_all add: b_def ls_put_def)
  have kin: "k \<in> fst ` set (ls_entries a)" using k by (force dest: map_of_SomeD)
  show "snd (ls_put a k v)" "ls_cap b = ls_cap a" "ls_gcap b = ls_gcap a" "ls_trans b = ls_trans a"
    "ls_ghosts b = ls_ghosts a" using b by simp_all
  show "entry_map (ls_entries b) = (entry_map (ls_entries a))(k \<mapsto> v)"
    by (simp add: b entry_map_Cons entry_map_without)
  show "ls_inv b"
    using inv length_without_in [OF kin] kin
    by (auto simp: b ls_inv_def ls_keys_ok_def keys_without distinct_without)
qed

lemma ls_put_new:
  fixes a :: "('k, 'v) lru_spec" and v :: 'v
  assumes inv: "ls_inv a" and cap: "ls_cap a \<noteq> 0" and k: "map_of (ls_entries a) k = None"
  defines "b \<equiv> fst (ls_put a k v)"
  defines "ev \<equiv> (if length (ls_entries a) \<ge> ls_cap a then {fst (last (ls_entries a))} else {})"
  shows "snd (ls_put a k v)" "ls_inv b" "ls_cap b = ls_cap a" "ls_gcap b = ls_gcap a" "ls_trans b = ls_trans a"
    "ev \<subseteq> dom (entry_map (ls_entries a)) - {k}"
    "entry_map (ls_entries b) = (entry_map (ls_entries a) |` (- ev))(k \<mapsto> v)"
    "set (ls_ghosts b) \<subseteq> set (ls_ghosts a) - {k} \<union> ev" "ls_gcap a = 0 \<or> ev \<subseteq> set (ls_ghosts b)"
    "ev = {} \<or> card (dom (entry_map (ls_entries a))) = ls_cap a"
proof -
  define a1 where "a1 = a\<lparr>ls_ghosts := removeAll k (ls_ghosts a)\<rparr>"
  define full where "full = (length (ls_entries a) \<ge> ls_cap a)"
  define a2 where "a2 = (if full then ls_evict a1 else a1)"
  have ok: "ls_keys_ok a" and len: "length (ls_entries a) \<le> ls_cap a" using inv by (simp_all add: ls_inv_def)
  have b: "b = a2\<lparr>ls_entries := (k, v, 1) # ls_entries a2\<rparr>" "snd (ls_put a k v)"
    using cap k by (simp_all add: b_def ls_put_def Let_def a2_def a1_def full_def)
  have ok1: "ls_keys_ok a1" unfolding a1_def by (rule ls_keys_ok_remove_ghost [OF ok])
  have ok2: "ls_keys_ok a2" using ok1 ls_keys_ok_evict [OF ok1] by (simp add: a2_def)
  have knot: "k \<notin> fst ` set (ls_entries a)" using k by (simp add: map_of_eq_None_iff)
  have ne: "ls_entries a \<noteq> []" if full using that cap by (auto simp: full_def)
  have es2: "ls_entries a2 = (if full then butlast (ls_entries a) else ls_entries a)" by (simp add: a2_def a1_def)
  have dist: "distinct (map fst (ls_entries a))" using ok by (simp add: ls_keys_ok_def)
  have lastin: "last (ls_entries a) \<in> set (ls_entries a)" if full using ne [OF that] by simp
  have ev: "ev = (if full then {fst (last (ls_entries a))} else {})" by (simp add: ev_def full_def)
  have g2: "set (ls_ghosts a2) \<subseteq> set (ls_ghosts a) - {k} \<union> ev" "ls_gcap a = 0 \<or> ev \<subseteq> set (ls_ghosts a2)"
    using ls_evict_ghosts [OF ok1] ne by (auto simp: a2_def a1_def ev)
  have knot2: "k \<notin> fst ` set (ls_entries a2)" using knot by (auto simp: es2 dest: in_set_butlastD)
  show "snd (ls_put a k v)" by (rule b(2))
  show "ls_cap b = ls_cap a" "ls_gcap b = ls_gcap a" "ls_trans b = ls_trans a" by (simp_all add: b a2_def a1_def)
  show evsub: "ev \<subseteq> dom (entry_map (ls_entries a)) - {k}"
    using lastin knot by (auto simp: ev dom_entry_map)
  show "entry_map (ls_entries b) = (entry_map (ls_entries a) |` (- ev))(k \<mapsto> v)"
    using ne entry_map_butlast [OF dist] by (auto simp: b entry_map_Cons es2 ev)
  show "set (ls_ghosts b) \<subseteq> set (ls_ghosts a) - {k} \<union> ev" "ls_gcap a = 0 \<or> ev \<subseteq> set (ls_ghosts b)"
    using g2 by (simp_all add: b)
  show "ev = {} \<or> card (dom (entry_map (ls_entries a))) = ls_cap a"
    using len card_keys [OF dist] by (auto simp: ev full_def dom_entry_map)
  have "k \<notin> set (ls_ghosts a2)" using g2(1) evsub by blast
  moreover have "length (ls_entries a2) < ls_cap a2"
    using len cap by (auto simp: es2 full_def a2_def a1_def)
  ultimately show "ls_inv b"
    using ok2 knot2 by (simp add: b ls_inv_def ls_keys_ok_def)
qed

lemma ls_shrink_evicts:
  assumes ok: "ls_keys_ok a" and len: "length (ls_entries a) \<le> Suc (ls_cap a)"
  defines "b \<equiv> ls_shrink a"
  defines "ev \<equiv> (if length (ls_entries a) > ls_cap a then {fst (last (ls_entries a))} else {})"
  shows "ls_inv b" "ls_cap b = ls_cap a" "ls_gcap b = ls_gcap a" "ls_trans b = ls_trans a"
    "ev \<subseteq> dom (entry_map (ls_entries a))" "entry_map (ls_entries b) = entry_map (ls_entries a) |` (- ev)"
    "set (ls_ghosts b) \<subseteq> set (ls_ghosts a) \<union> ev" "ls_gcap a = 0 \<or> ev \<subseteq> set (ls_ghosts b)"
proof -
  define full where "full = (length (ls_entries a) > ls_cap a)"
  have b: "b = (if full then ls_evict a else a)"
    using len by (auto simp: b_def full_def ls_shrink.simps [of a] ls_shrink.simps [of "ls_evict a"])
  have ev: "ev = (if full then {fst (last (ls_entries a))} else {})" by (simp add: ev_def full_def)
  have ne: "ls_entries a \<noteq> []" if full using that by (auto simp: full_def)
  have dist: "distinct (map fst (ls_entries a))" using ok by (simp add: ls_keys_ok_def)
  show "ls_cap b = ls_cap a" "ls_gcap b = ls_gcap a" "ls_trans b = ls_trans a" by (simp_all add: b)
  show "ls_inv b" using ok ls_keys_ok_evict [OF ok] len by (auto simp: b ls_inv_def full_def)
  show "ev \<subseteq> dom (entry_map (ls_entries a))" using ne by (auto simp: ev dom_entry_map)
  show "entry_map (ls_entries b) = entry_map (ls_entries a) |` (- ev)"
    using ne entry_map_butlast [OF dist] by (auto simp: b ev)
  show "set (ls_ghosts b) \<subseteq> set (ls_ghosts a) \<union> ev" "ls_gcap a = 0 \<or> ev \<subseteq> set (ls_ghosts b)"
    using ls_evict_ghosts [OF ok] ne by (auto simp: b ev)
qed

interpretation lru: arc_partition lru_inv lru_lookup lru_ghost_keys lru_cap lru_ghost_cap
  lru_put lru_contain lru_check_ghost lru_invalidate lru_increase_capacity lru_decrease_capacity
proof
  fix s :: "('k, 'v) arc_lru" and k :: 'k and v :: 'v
  assume "lru_inv s"
  then obtain a where rep: "lru_rep s a" and inv: "ls_inv a" and ok: "ls_keys_ok a"
    and look: "lru_lookup s = entry_map (ls_entries a)" and gh: "lru_ghost_keys s = set (ls_ghosts a)"
    and cap: "lru_cap s = ls_cap a" and gcap: "lru_ghost_cap s = ls_gcap a"
    by (rule lru_invE)
  have dist: "distinct (map fst (ls_entries a))" "distinct (ls_ghosts a)" using ok by (simp_all add: ls_keys_ok_def)
  note look' = lru_lookup_rep_eq and gh' = lru_ghost_keys_rep and fields = lru_rep_fields(1,2)
  show "finite (dom (lru_lookup s)) \<and> card (dom (lru_lookup s)) \<le> lru_cap s"
    using inv card_keys [OF dist(1)] by (simp add: look dom_entry_map cap ls_inv_def)
  show "finite (lru_ghost_keys s) \<and> card (lru_ghost_keys s) \<le> lru_ghost_cap s"
    using ok dist by (simp add: gh gcap ls_keys_ok_def distinct_card)
  show "dom (lru_lookup s) \<inter> lru_ghost_keys s = {}"
    using ok by (simp add: look gh dom_entry_map ls_keys_ok_def)
  show "lru_contain s k \<longleftrightarrow> lru_lookup s k \<noteq> None"
    by (simp add: lru_contain_def lru_lookup_def)
  show "lru_put s k v = Some (s, False)" if "lru_cap s = 0" using that by (simp add: lru_put_def)
  show "\<exists>s'. lru_check_ghost s k = (s', k \<in> lru_ghost_keys s) \<and> lru_inv s' \<and> lru_cap s' = lru_cap s
      \<and> lru_ghost_cap s' = lru_ghost_cap s \<and> lru_lookup s' = lru_lookup s
      \<and> lru_ghost_keys s' = lru_ghost_keys s - {k}"
  proof (intro exI conjI)
    note er = lru_erase_ghost_rep [OF rep, of k]
    let ?s = "fst (lru_erase_ghost s k)"
    show "lru_check_ghost s k = (?s, k \<in> lru_ghost_keys s)"
      using er(2) by (simp add: lru_check_ghost_def gh prod_eq_iff)
    show "lru_inv ?s"
      using er(1) inv ls_keys_ok_remove_ghost [OF ok, of k] by (auto intro!: lru_invI simp: ls_inv_def)
    show "lru_lookup ?s = lru_lookup s" "lru_ghost_keys ?s = lru_ghost_keys s - {k}"
      "lru_cap ?s = lru_cap s" "lru_ghost_cap ?s = lru_ghost_cap s"
      using look' [OF er(1)] gh' [OF er(1)] fields [OF er(1)] by (simp_all add: look gh cap gcap)
  qed
  show "\<exists>s'. lru_invalidate s k = (s', lru_lookup s k \<noteq> None \<or> k \<in> lru_ghost_keys s) \<and> lru_inv s'
      \<and> lru_cap s' = lru_cap s \<and> lru_ghost_cap s' = lru_ghost_cap s
      \<and> lru_lookup s' = (lru_lookup s)(k := None) \<and> lru_ghost_keys s' = lru_ghost_keys s - {k}"
  proof (intro exI conjI)
    note er = lru_invalidate_rep [OF rep, of k]
    let ?s = "fst (lru_invalidate s k)" and ?a = "fst (ls_invalidate a k)"
    have "k \<in> fst ` set (ls_entries a) \<longleftrightarrow> lru_lookup s k \<noteq> None"
      using dom_entry_map [of "ls_entries a"] by (auto simp: look)
    then show "lru_invalidate s k = (?s, lru_lookup s k \<noteq> None \<or> k \<in> lru_ghost_keys s)"
      using er(2) by (simp add: ls_invalidate_def gh prod_eq_iff)
    show "lru_inv ?s"
    proof (rule lru_invI [OF er(1)])
      have "length (removeAll k (ls_ghosts a)) \<le> ls_gcap a"
        using ok order_trans [OF length_removeAll_less_eq] by (auto simp: ls_keys_ok_def)
      with inv order_trans [OF length_without [of k "ls_entries a"]] show "ls_inv ?a"
        by (auto simp: ls_invalidate_def ls_inv_def ls_keys_ok_def keys_without distinct_without distinct_removeAll)
    qed
    show "lru_lookup ?s = (lru_lookup s)(k := None)" "lru_ghost_keys ?s = lru_ghost_keys s - {k}"
      "lru_cap ?s = lru_cap s" "lru_ghost_cap ?s = lru_ghost_cap s"
      using look' [OF er(1)] gh' [OF er(1)] fields [OF er(1)]
      by (simp_all add: look gh cap gcap ls_invalidate_def entry_map_without)
  qed
  show "lru_inv (lru_increase_capacity s) \<and> lru_cap (lru_increase_capacity s) = lru_cap s + 1
      \<and> lru_ghost_cap (lru_increase_capacity s) = lru_ghost_cap s
      \<and> lru_lookup (lru_increase_capacity s) = lru_lookup s
      \<and> lru_ghost_keys (lru_increase_capacity s) = lru_ghost_keys s"
  proof -
    have "lru_rep (lru_increase_capacity s) (a\<lparr>ls_cap := ls_cap a + 1\<rparr>)"
      using lru_rep_cap [OF rep, of "ls_cap a + 1"] by (simp add: lru_increase_capacity_def cap)
    moreover have "ls_inv (a\<lparr>ls_cap := ls_cap a + 1\<rparr>)" using inv by (simp add: ls_inv_def ls_keys_ok_def)
    ultimately have "lru_inv (lru_increase_capacity s)" by (rule lru_invI)
    moreover have "lru_lookup (lru_increase_capacity s) k = lru_lookup s k" for k
      by (simp add: lru_lookup_def lru_increase_capacity_def)
    ultimately show ?thesis by (auto simp: lru_increase_capacity_def lru_ghost_keys_def)
  qed
  show "lru_decrease_capacity s = Some (s, False)" if "lru_cap s = 0"
    using that by (simp add: lru_decrease_capacity_def)
  show "\<exists>s' ev. lru_decrease_capacity s = Some (s', True) \<and> lru_inv s' \<and> lru_cap s' = lru_cap s - 1
      \<and> lru_ghost_cap s' = lru_ghost_cap s \<and> ev \<subseteq> dom (lru_lookup s)
      \<and> lru_lookup s' = lru_lookup s |` (- ev) \<and> lru_ghost_keys s' \<subseteq> lru_ghost_keys s \<union> ev
      \<and> (ev = {} \<or> card (dom (lru_lookup s)) = lru_cap s) \<and> (lru_ghost_cap s = 0 \<or> ev \<subseteq> lru_ghost_keys s')"
    if c: "lru_cap s \<noteq> 0"
  proof -
    define a1 where "a1 = a\<lparr>ls_cap := ls_cap a - 1\<rparr>"
    have ok1: "ls_keys_ok a1" and len1: "length (ls_entries a1) \<le> Suc (ls_cap a1)"
      using ok inv by (simp_all add: a1_def ls_keys_ok_def ls_inv_def)
    define ev where "ev = (if length (ls_entries a1) > ls_cap a1 then {fst (last (ls_entries a1))} else {})"
    note sh = ls_shrink_evicts [OF ok1 len1, folded ev_def]
    obtain s' where s': "lru_decrease_capacity s = Some (s', True)" "lru_rep s' (ls_shrink a1)"
      using lru_decrease_rep [OF rep ok] c by (auto simp: ls_decrease_def cap a1_def)
    have "ev = {} \<or> card (dom (lru_lookup s)) = lru_cap s"
      using inv card_keys [OF dist(1)] by (auto simp: ev_def a1_def look dom_entry_map cap ls_inv_def)
    moreover have "lru_inv s'" using s'(2) sh(1) by (rule lru_invI)
    moreover have "lru_cap s' = lru_cap s - 1" "lru_ghost_cap s' = lru_ghost_cap s"
      using fields [OF s'(2)] sh(2,3) by (simp_all add: cap gcap a1_def)
    moreover have "ev \<subseteq> dom (lru_lookup s)" "lru_lookup s' = lru_lookup s |` (- ev)"
      using look' [OF s'(2)] sh(5,6) by (simp_all add: look a1_def)
    moreover have "lru_ghost_keys s' \<subseteq> lru_ghost_keys s \<union> ev" "lru_ghost_cap s = 0 \<or> ev \<subseteq> lru_ghost_keys s'"
      using gh' [OF s'(2)] sh(7,8) by (simp_all add: gh gcap a1_def)
    ultimately show ?thesis using s'(1) by blast
  qed
  show "\<exists>s' ev. lru_put s k v = Some (s', True) \<and> lru_inv s' \<and> lru_cap s' = lru_cap s
      \<and> lru_ghost_cap s' = lru_ghost_cap s \<and> ev \<subseteq> dom (lru_lookup s) - {k}
      \<and> lru_lookup s' = (lru_lookup s |` (- ev))(k \<mapsto> v) \<and> lru_ghost_keys s' \<subseteq> lru_ghost_keys s - {k} \<union> ev
      \<and> (ev = {} \<or> lru_lookup s k = None \<and> card (dom (lru_lookup s)) = lru_cap s)
      \<and> (lru_ghost_cap s = 0 \<or> ev \<subseteq> lru_ghost_keys s')"
    if c: "lru_cap s \<noteq> 0"
  proof -
    obtain s' where s': "lru_put s k v = Some (s', snd (ls_put a k v))" "lru_rep s' (fst (ls_put a k v))"
      using lru_put_rep [OF rep ok] by blast
    have c': "ls_cap a \<noteq> 0" using c by (simp add: cap)
    note f = look' [OF s'(2)] gh' [OF s'(2)] fields [OF s'(2)]
    show ?thesis
    proof (cases "map_of (ls_entries a) k")
      case None
      define ev where "ev = (if length (ls_entries a) \<ge> ls_cap a then {fst (last (ls_entries a))} else {})"
      note p = ls_put_new [OF inv c' None, folded ev_def]
      have "lru_lookup s k = None" using None by (simp add: look entry_map_def)
      with s' p f lru_invI [OF s'(2) p(2)] show ?thesis
        by (intro exI [of _ s'] exI [of _ ev]) (simp add: look gh cap gcap)
    next
      case (Some vc)
      obtain v0 c0 where vc: "vc = (v0, c0)" by force
      note p = ls_put_resident [OF inv c' Some [unfolded vc]]
      have "k \<notin> set (ls_ghosts a)"
        using ok Some by (force simp: ls_keys_ok_def dest: map_of_SomeD)
      with s' p f lru_invI [OF s'(2) p(2)] show ?thesis
        by (intro exI [of _ s'] exI [of _ "{}"]) (simp add: look gh cap gcap fun_eq_iff restrict_map_def)
    qed
  qed
qed

text \<open>Reading and promotion are particular to this partition.\<close>

lemma lru_get_law:
  assumes "lru_inv s"
  shows "\<exists>s' b. lru_get s k = Some (s', map_option (\<lambda>v. (v, b)) (lru_lookup s k)) \<and> lru_inv s'
    \<and> lru_cap s' = lru_cap s \<and> lru_ghost_cap s' = lru_ghost_cap s \<and> lru_lookup s' = lru_lookup s
    \<and> lru_ghost_keys s' = lru_ghost_keys s"
proof -
  obtain a where rep: "lru_rep s a" and inv: "ls_inv a" and ok: "ls_keys_ok a"
    and look: "lru_lookup s = entry_map (ls_entries a)" and gh: "lru_ghost_keys s = set (ls_ghosts a)"
    and cap: "lru_cap s = ls_cap a" "lru_ghost_cap s = ls_gcap a"
    using assms by (rule lru_invE)
  obtain s' where s': "lru_get s k = Some (s', snd (ls_get a k))" "lru_rep s' (fst (ls_get a k))"
    using lru_get_rep [OF rep] by blast
  note f = lru_lookup_rep_eq [OF s'(2)] lru_ghost_keys_rep [OF s'(2)] lru_rep_fields(1,2) [OF s'(2)]
  show ?thesis
  proof (cases "map_of (ls_entries a) k")
    case None
    with s' inv f show ?thesis
      by (intro exI [of _ s'] exI [of _ False])
        (auto simp: ls_get_def look gh cap entry_map_def intro: lru_invI)
  next
    case (Some vc)
    obtain v c where vc: "vc = (v, c)" by force
    have kin: "k \<in> fst ` set (ls_entries a)" using Some by (force dest: map_of_SomeD)
    have "ls_inv (fst (ls_get a k))"
      using inv length_without_in [OF kin] kin
      by (auto simp: ls_get_def Some vc ls_inv_def ls_keys_ok_def keys_without distinct_without)
    moreover have "entry_map (ls_entries (fst (ls_get a k))) = entry_map (ls_entries a)"
      by (auto simp: ls_get_def Some vc entry_map_Cons entry_map_without fun_eq_iff) (simp add: entry_map_def Some vc)
    ultimately show ?thesis
      using s' f lru_invI [OF s'(2)]
      by (intro exI [of _ s'] exI [of _ "ls_trans a \<le> c + 1"])
        (simp add: look gh cap ls_get_def Some vc, simp add: entry_map_def Some vc)
  qed
qed

lemma lru_erase_law:
  fixes s :: "('k, 'v) arc_lru" and k :: 'k
  assumes "lru_inv s"
  defines "t \<equiv> fst (lru_erase s k)"
  shows "lru_inv t" "lru_cap t = lru_cap s" "lru_ghost_cap t = lru_ghost_cap s"
    "lru_lookup t = (lru_lookup s)(k := None)" "lru_ghost_keys t = lru_ghost_keys s"
proof -
  obtain a where rep: "lru_rep s a" and inv: "ls_inv a" and ok: "ls_keys_ok a"
    and look: "lru_lookup s = entry_map (ls_entries a)" and gh: "lru_ghost_keys s = set (ls_ghosts a)"
    and cap: "lru_cap s = ls_cap a" "lru_ghost_cap s = ls_gcap a"
    using assms(1) by (rule lru_invE)
  have t: "lru_rep t (a\<lparr>ls_entries := without k (ls_entries a)\<rparr>)"
    using lru_erase_rep(1) [OF rep, of k] by (simp add: t_def ls_erase_def)
  show "lru_inv t"
    using inv order_trans [OF length_without [of k "ls_entries a"]]
    by (intro lru_invI [OF t]) (auto simp: ls_inv_def ls_keys_ok_def keys_without distinct_without)
  show "lru_cap t = lru_cap s" "lru_ghost_cap t = lru_ghost_cap s"
    "lru_lookup t = (lru_lookup s)(k := None)" "lru_ghost_keys t = lru_ghost_keys s"
    using lru_lookup_rep_eq [OF t] lru_ghost_keys_rep [OF t] lru_rep_fields(1,2) [OF t]
    by (simp_all add: look gh cap entry_map_without)
qed

lemma lru_inv_new: "lru_inv (new_arc_lru dk dv c th g)"
  by (rule lru_invI [OF new_arc_lru_rep]) (simp add: ls_inv_def ls_keys_ok_def)

lemma lru_check_ghost_rep:
  assumes "lru_rep s a"
  shows "lru_rep (fst (lru_check_ghost s k)) (fst (ls_check_ghost a k))"
    and "snd (lru_check_ghost s k) = snd (ls_check_ghost a k)"
  using lru_erase_ghost_rep [OF assms, of k] by (simp_all add: lru_check_ghost_def ls_check_ghost_def)

lemma lru_increase_rep:
  assumes "lru_rep s a"
  shows "lru_rep (lru_increase_capacity s) (a\<lparr>ls_cap := ls_cap a + 1\<rparr>)"
  using lru_rep_cap [OF assms, of "ls_cap a + 1"] lru_rep_fields(1) [OF assms] by (simp add: lru_increase_capacity_def)

lemma lru_contain_rep: "lru_rep s a \<Longrightarrow> lru_contain s k \<longleftrightarrow> k \<in> fst ` set (ls_entries a)"
  by (simp add: lru_contain_def map_of_eq_None_iff lru_rep_fields)

lemma lru_entry_rep:
  assumes "lru_rep s a" and "map_of (lru_main s) k = Some p"
  shows "map_of (ls_entries a) k = Some (nd_value (lru_nodes s p), nd_access_count (lru_nodes s p))"
proof -
  obtain xs gs where at: "lru_at s xs gs" and a: "a = lru_view s xs gs" using assms(1) by (rule lru_repE)
  have idx: "index_ok (lru_main s) (main_key s) xs" using at by (simp add: lru_at_defs)
  then have p: "p \<in> set xs" "main_key s p = k" using index_lookup [OF idx] assms(2) by blast+
  then show ?thesis
    using map_of_content [of "main_key s" xs p "\<lambda>q. content (lru_nodes s q)"] idx
    by (simp add: a index_ok_def content_def)
qed

lemma lru_get_resident:
  assumes "lru_inv s" and "map_of (lru_main s) k = Some p"
  shows "\<exists>l. lru_get s k = Some (l, Some (nd_value (lru_nodes s p), lru_trans s \<le> nd_access_count (lru_nodes s p) + 1))"
proof -
  obtain a where a: "lru_rep s a" using assms(1) by (auto simp: lru_inv_def)
  from lru_get_rep [OF a, of k] show ?thesis
    by (auto simp: ls_get_def lru_entry_rep [OF a assms(2)] lru_rep_fields(3) [OF a])
qed

section \<open>Properties\<close>

text \<open>
  C9. The pointer-level LRU partition implements the list specification. On every state
  that represents a well-formed specification state, each of its operations (storing, reading,
  asking for a key, erasing, invalidating, taking a ghost, growing and shrinking) returns (no null
  dereference, no failed assertion, no endless loop), gives the answer of the specification, and
  ends in a state that represents its result.
\<close>

theorem lru_refines_spec:
  assumes "lru_rep s a" and "ls_inv a"
  shows "(\<exists>s'. lru_put s k v = Some (s', snd (ls_put a k v)) \<and> lru_rep s' (fst (ls_put a k v)))
    \<and> (\<exists>s'. lru_get s k = Some (s', snd (ls_get a k)) \<and> lru_rep s' (fst (ls_get a k)))
    \<and> (\<exists>s'. lru_decrease_capacity s = Some (s', snd (ls_decrease a)) \<and> lru_rep s' (fst (ls_decrease a)))
    \<and> lru_rep (fst (lru_erase s k)) (fst (ls_erase a k)) \<and> snd (lru_erase s k) = snd (ls_erase a k)
    \<and> lru_rep (fst (lru_invalidate s k)) (fst (ls_invalidate a k))
    \<and> snd (lru_invalidate s k) = snd (ls_invalidate a k)
    \<and> lru_rep (fst (lru_check_ghost s k)) (fst (ls_check_ghost a k))
    \<and> snd (lru_check_ghost s k) = snd (ls_check_ghost a k)
    \<and> lru_rep (lru_increase_capacity s) (a\<lparr>ls_cap := ls_cap a + 1\<rparr>)
    \<and> lru_contain s k = (k \<in> fst ` set (ls_entries a))"
  using lru_put_rep [OF assms(1)] lru_get_rep [OF assms(1)] lru_decrease_rep [OF assms(1)] lru_erase_rep [OF assms(1)]
    lru_invalidate_rep [OF assms(1)] lru_check_ghost_rep [OF assms(1)] lru_increase_rep [OF assms(1)]
    lru_contain_rep [OF assms(1)] assms(2)
  by (simp add: ls_inv_def)

theorem lru_refines_spec_witness:
  "\<exists>s'. lru_put (new_arc_lru (0 :: nat) (0 :: nat) 1 2 1) 5 7 = Some (s', True)
     \<and> lru_rep s' \<lparr>ls_cap = 1, ls_gcap = 1, ls_trans = 2, ls_entries = [(5, 7, 1)], ls_ghosts = []\<rparr>
     \<and> lru_contain s' 5 \<and> \<not> snd (lru_check_ghost s' 6)"
proof -
  let ?a = "\<lparr>ls_cap = 1, ls_gcap = 1, ls_trans = 2, ls_entries = [(5, 7, 1)], ls_ghosts = []\<rparr> :: (nat, nat) lru_spec"
  obtain s' where s': "lru_put (new_arc_lru (0 :: nat) (0 :: nat) 1 2 1) 5 7 = Some (s', True)" "lru_rep s' ?a"
    using lru_refines_spec [OF new_arc_lru_rep [of "0 :: nat" "0 :: nat" 1 2 1], of 5 7]
    by (auto simp: ls_inv_def ls_keys_ok_def ls_put_def)
  with lru_refines_spec [OF s'(2), of 5] lru_refines_spec [OF s'(2), of 6] show ?thesis
    by (auto simp: ls_inv_def ls_keys_ok_def ls_check_ghost_def)
qed

text \<open>
  C21. Storing a new key into a full LRU partition evicts exactly the least recently used
  entry, the last of the specification list, and records its key as the newest ghost.
\<close>

theorem lru_evicts_least_recent:
  assumes "lru_rep s a" and "ls_inv a" and "ls_entries a = es @ [(w, wv, c)]" and "length es + 1 = ls_cap a"
    and "k \<notin> fst ` set (ls_entries a)" and "ls_gcap a \<noteq> 0"
  shows "\<exists>s' gs. lru_put s k v = Some (s', True)
    \<and> lru_rep s' (a\<lparr>ls_entries := (k, v, 1) # es, ls_ghosts := w # gs\<rparr>) \<and> set gs \<subseteq> set (ls_ghosts a)
    \<and> lru_contain s' k \<and> \<not> lru_contain s' w"
proof -
  obtain s' where s': "lru_put s k v = Some (s', snd (ls_put a k v))" "lru_rep s' (fst (ls_put a k v))"
    using lru_put_rep [OF assms(1)] assms(2) by (auto simp: ls_inv_def)
  have new: "map_of (ls_entries a) k = None" using assms(5) by (simp add: map_of_eq_None_iff)
  define g where "g = removeAll k (ls_ghosts a)"
  define gs where "gs = (if length g \<ge> ls_gcap a then butlast g else g)"
  have put: "ls_put a k v = (a\<lparr>ls_entries := (k, v, 1) # es, ls_ghosts := w # gs\<rparr>, True)"
    unfolding ls_put_def new option.case Let_def
    using assms(3,4,6) by (simp add: Let_def ls_evict_def gs_def g_def)
  have gs: "set gs \<subseteq> set (ls_ghosts a)" by (auto simp: gs_def g_def dest: in_set_butlastD)
  have "w \<noteq> k" "w \<notin> fst ` set es" using assms(2,3,5) by (auto simp: ls_inv_def ls_keys_ok_def)
  then have "lru_contain s' k \<and> \<not> lru_contain s' w"
    using lru_lookup_rep [OF s'(2)] by (simp add: lru_contain_def put map_of_eq_None_iff)
  with s' put gs show ?thesis by auto
qed

theorem lru_evicts_least_recent_witness:
  "\<exists>t s' gs. lru_put (new_arc_lru (0 :: nat) (0 :: nat) 1 2 3) 5 7 = Some (t, True)
     \<and> lru_put t 6 8 = Some (s', True) \<and> lru_contain s' 6 \<and> \<not> lru_contain s' 5
     \<and> lru_rep s' \<lparr>ls_cap = 1, ls_gcap = 3, ls_trans = 2, ls_entries = [(6, 8, 1)], ls_ghosts = 5 # gs\<rparr>"
proof -
  let ?a = "\<lparr>ls_cap = 1, ls_gcap = 3, ls_trans = 2, ls_entries = [(5, 7, 1)], ls_ghosts = []\<rparr> :: (nat, nat) lru_spec"
  obtain t where t: "lru_put (new_arc_lru (0 :: nat) (0 :: nat) 1 2 3) 5 7 = Some (t, True)" "lru_rep t ?a"
    using lru_put_rep [OF new_arc_lru_rep [of "0 :: nat" "0 :: nat" 1 2 3], of 5 7] by (auto simp: ls_keys_ok_def ls_put_def)
  show ?thesis
    using lru_evicts_least_recent [OF t(2), of "[]" 5 7 1 6 8] t(1) by (auto simp: ls_inv_def ls_keys_ok_def)
qed

end
