(* ===== verification/Ordered_Map.thy ===== *)
theory Ordered_Map
  imports TLSS_Prelude "HOL-Library.AList"
begin

text \<open>
  \<^verbatim>\<open>std::map\<close> as the list of its entries in key order. Lookup is \<^const>\<open>map_of\<close>,
  erasure \<^const>\<open>AList.delete\<close>, iteration the list itself and \<^verbatim>\<open>begin()\<close> its head.
\<close>

type_synonym ('k, 'v) omap = "('k \<times> 'v) list"

text \<open>Assignment to a key, inserting it at its place in the order where it is absent.\<close>

fun omap_set :: "'k :: linorder \<Rightarrow> 'v \<Rightarrow> ('k, 'v) omap \<Rightarrow> ('k, 'v) omap" where
  "omap_set k v [] = [(k, v)]"
| "omap_set k v ((l, w) # m) =
     (if k < l then (k, v) # (l, w) # m else if k = l then (k, v) # m else (l, w) # omap_set k v m)"

text \<open>\<^verbatim>\<open>emplace\<close>: insert unless the key is there, and whether it did.\<close>

definition omap_emplace :: "'k :: linorder \<Rightarrow> 'v \<Rightarrow> ('k, 'v) omap \<Rightarrow> ('k, 'v) omap \<times> bool" where
  "omap_emplace k v m = (case map_of m k of None \<Rightarrow> (omap_set k v m, True) | Some _ \<Rightarrow> (m, False))"

definition omap_ok :: "('k :: linorder, 'v) omap \<Rightarrow> bool" where
  "omap_ok m \<longleftrightarrow> sorted_wrt (<) (map fst m)"

lemma omap_set_lookup [simp]: "map_of (omap_set k v m) = (map_of m)(k \<mapsto> v)"
  by (induction k v m rule: omap_set.induct) auto

lemma omap_set_keys: "fst ` set (omap_set k v m) = insert k (fst ` set m)"
  by (induction k v m rule: omap_set.induct) auto

lemma omap_ok_Nil [simp]: "omap_ok []"
  by (simp add: omap_ok_def)

lemma omap_ok_set: "omap_ok m \<Longrightarrow> omap_ok (omap_set k v m)"
proof (induction k v m rule: omap_set.induct)
  case (2 k v l w m)
  then show ?case using omap_set_keys [of k v m] by (fastforce simp: omap_ok_def)
qed (simp add: omap_ok_def)

lemma omap_ok_filter: "omap_ok m \<Longrightarrow> omap_ok (filter P m)"
  by (simp add: omap_ok_def sorted_wrt_map sorted_wrt_filter)

lemma omap_ok_delete: "omap_ok m \<Longrightarrow> omap_ok (AList.delete k m)"
  by (simp add: AList.delete_eq omap_ok_filter)

lemma omap_delete_lookup [simp]: "map_of (AList.delete k m) = (map_of m)(k := None)"
  by (simp add: AList.delete_conv')

lemma omap_distinct: "omap_ok m \<Longrightarrow> distinct (map fst m)"
  by (simp add: omap_ok_def strict_sorted_iff)

lemma omap_mem: "omap_ok m \<Longrightarrow> (k, v) \<in> set m \<longleftrightarrow> map_of m k = Some v"
  using omap_distinct by fastforce

text \<open>Two ordered maps with the same lookups are the same.\<close>

lemma omap_eqI:
  assumes "omap_ok m" and "omap_ok n" and "map_of m = map_of n"
  shows "m = n"
proof -
  have "set m = set n" using assms omap_mem by (metis subrelI subset_antisym)
  moreover have "sorted_wrt (\<lambda>x y. fst x < fst y) m" "sorted_wrt (\<lambda>x y. fst x < fst y) n"
    using assms(1,2) by (simp_all add: omap_ok_def sorted_wrt_map)
  ultimately show ?thesis
  proof (induction m arbitrary: n)
    case (Cons e m)
    then obtain f n' where n: "n = f # n'" by (cases n) auto
    have "e = f"
    proof (rule ccontr)
      assume "e \<noteq> f"
      with Cons.prems(1) n have "e \<in> set n'" "f \<in> set m" by auto
      with Cons.prems(2,3) n show False by fastforce
    qed
    moreover from this have "set m = set n'" using Cons.prems n by auto
    ultimately show ?case using Cons n by simp
  qed simp
qed

lemma omap_delete_set: "omap_ok m \<Longrightarrow> map_of m k = None \<Longrightarrow> AList.delete k (omap_set k v m) = m"
  by (rule omap_eqI) (auto simp: omap_ok_set omap_ok_delete)

lemma omap_first_least:
  assumes "omap_ok m" and "(k, v) \<in> set m"
  shows "fst (hd m) \<le> k"
  using assms by (cases m) (auto simp: omap_ok_def intro: less_imp_le)

end
