(* ===== verification/Arc_Lfu.thy ===== *)
theory Arc_Lfu
  imports Arc_Lru Ordered_Map
begin

text \<open>
  The LFU partition of \<^verbatim>\<open>inc/common/cache/arc_lfu.h\<close>: an index from keys to nodes, the
  nodes in buckets by access count, and a ghost list of the keys last evicted, oldest
  first. The specification keeps one list of entries in the order of their last
  access; the buckets are its slices by count, so the victim is the entry that was
  accessed least often and, among those, least recently. \<^term>\<open>None\<close> is a null
  dereference or a loop that does not end.
\<close>

section \<open>State\<close>

text \<open>The ordered map from access counts to buckets.\<close>

type_synonym freq_map = "(nat, addr list) omap"

text \<open>\<^verbatim>\<open>operator[]\<close>, which inserts an empty bucket where there is none.\<close>

definition fm_at :: "freq_map \<Rightarrow> nat \<Rightarrow> freq_map \<times> addr list" where
  "fm_at fm f = (case map_of fm f of None \<Rightarrow> (omap_set f [] fm, []) | Some b \<Rightarrow> (fm, b))"

text \<open>Appending a node to the bucket of a count, which is created where there is none.\<close>

definition fm_push :: "nat \<Rightarrow> addr \<Rightarrow> freq_map \<Rightarrow> freq_map" where
  "fm_push f node fm =
     (let fm = (if map_of fm f = None then omap_set f [] fm else fm);
          (fm, b) = fm_at fm f
      in omap_set f (b @ [node]) fm)"

record ('k, 'v) arc_lfu =
  lfu_cap :: nat
  lfu_ghost_cap :: nat
  lfu_trans :: nat
  lfu_min_freq :: nat
  lfu_nodes :: "('k, 'v) heap"
  lfu_fresh :: addr
  lfu_main :: "('k \<times> addr) list"
  lfu_freq_map :: freq_map
  lfu_ghost_nodes :: "('k, unit) heap"
  lfu_ghost_fresh :: addr
  lfu_ghost :: "('k \<times> addr) list"
  lfu_ghost_head :: addr
  lfu_ghost_tail :: addr

definition new_arc_lfu :: "'k \<Rightarrow> 'v \<Rightarrow> nat \<Rightarrow> nat \<Rightarrow> nat \<Rightarrow> ('k, 'v) arc_lfu" where
  "new_arc_lfu dk dv cap threshold ghost_cap =
     \<lparr>lfu_cap = cap, lfu_ghost_cap = ghost_cap, lfu_trans = threshold, lfu_min_freq = 0,
      lfu_nodes = (\<lambda>p. new_arc_node dk dv), lfu_fresh = 0, lfu_main = [], lfu_freq_map = [],
      lfu_ghost_nodes = sentinels dk (), lfu_ghost_fresh = 2, lfu_ghost = [],
      lfu_ghost_head = 0, lfu_ghost_tail = 1\<rparr>"

section \<open>Private operations\<close>

definition lfu_remove_from_ghost :: "('k, 'v) arc_lfu \<Rightarrow> addr \<Rightarrow> ('k, 'v) arc_lfu" where
  "lfu_remove_from_ghost s node = s\<lparr>lfu_ghost_nodes := fst (remove_node (lfu_ghost_nodes s) node)\<rparr>"

definition lfu_erase_ghost :: "('k, 'v) arc_lfu \<Rightarrow> 'k \<Rightarrow> ('k, 'v) arc_lfu \<times> bool" where
  "lfu_erase_ghost s key =
     (case map_of (lfu_ghost s) key of
        None \<Rightarrow> (s, False)
      | Some node \<Rightarrow>
          let s = lfu_remove_from_ghost s node
          in (s\<lparr>lfu_ghost := AList.delete key (lfu_ghost s)\<rparr>, True))"

definition lfu_add_to_ghost :: "('k, 'v) arc_lfu \<Rightarrow> addr \<Rightarrow> ('k, 'v) arc_lfu" where
  "lfu_add_to_ghost s evicted =
     (if lfu_ghost_cap s = 0 then s
      else
        let key = nd_key (lfu_nodes s evicted);
            node = lfu_ghost_fresh s;
            h = (lfu_ghost_nodes s)(node := new_arc_node key ());
            tail = lfu_ghost_tail s;
            h = set_next h node (Some tail);
            h = set_prev h node (nd_prev (h tail));
            h = (case nd_prev (h tail) of None \<Rightarrow> h | Some q \<Rightarrow> set_next h q (Some node));
            h = set_prev h tail (Some node)
        in s\<lparr>lfu_ghost_nodes := h, lfu_ghost_fresh := node + 1,
             lfu_ghost := AList.update (nd_key (h node)) node (lfu_ghost s)\<rparr>)"

definition lfu_remove_oldest_ghost :: "('k, 'v) arc_lfu \<Rightarrow> ('k, 'v) arc_lfu option" where
  "lfu_remove_oldest_ghost s = do {
     oldest \<leftarrow> nd_next (lfu_ghost_nodes s (lfu_ghost_head s));
     if oldest \<noteq> lfu_ghost_tail s
     then
       let s = lfu_remove_from_ghost s oldest
       in Some (s\<lparr>lfu_ghost := AList.delete (nd_key (lfu_ghost_nodes s oldest)) (lfu_ghost s)\<rparr>)
     else Some s }"

definition lfu_evict_least_frequent :: "('k, 'v) arc_lfu \<Rightarrow> ('k, 'v) arc_lfu option" where
  "lfu_evict_least_frequent s =
     (if lfu_freq_map s = [] then Some s
      else
        let mf = lfu_min_freq s; (fm, b) = fm_at (lfu_freq_map s) mf
        in case b of
             [] \<Rightarrow> Some (s\<lparr>lfu_freq_map := fm\<rparr>)
           | least_node # b \<Rightarrow>
               let fm = omap_set mf b fm;
                   s = s\<lparr>lfu_freq_map := fm\<rparr>;
                   s = (if b = []
                        then let fm = AList.delete mf fm; s = s\<lparr>lfu_freq_map := fm\<rparr>
                             in if fm \<noteq> [] then s\<lparr>lfu_min_freq := fst (hd fm)\<rparr> else s
                        else s)
               in do {
                    s \<leftarrow> (if length (lfu_ghost s) \<ge> lfu_ghost_cap s then lfu_remove_oldest_ghost s else Some s);
                    let s = lfu_add_to_ghost s least_node
                    in Some (s\<lparr>lfu_main := AList.delete (nd_key (lfu_nodes s least_node)) (lfu_main s)\<rparr>) })"

definition lfu_update_node_frequency :: "('k, 'v) arc_lfu \<Rightarrow> addr \<Rightarrow> ('k, 'v) arc_lfu" where
  "lfu_update_node_frequency s node =
     (let old_freq = nd_access_count (lfu_nodes s node);
          s = s\<lparr>lfu_nodes := increment_access_count (lfu_nodes s) node\<rparr>;
          new_freq = nd_access_count (lfu_nodes s node);
          (fm, old_list) = fm_at (lfu_freq_map s) old_freq;
          old_list = removeAll node old_list;
          fm = omap_set old_freq old_list fm;
          s = s\<lparr>lfu_freq_map := fm\<rparr>;
          s = (if old_list = []
               then let s = s\<lparr>lfu_freq_map := AList.delete old_freq fm\<rparr>
                    in if old_freq = lfu_min_freq s then s\<lparr>lfu_min_freq := new_freq\<rparr> else s
               else s)
      in s\<lparr>lfu_freq_map := fm_push new_freq node (lfu_freq_map s)\<rparr>)"

definition lfu_update_existing_node ::
    "('k, 'v) arc_lfu \<Rightarrow> addr \<Rightarrow> 'v \<Rightarrow> ('k, 'v) arc_lfu \<times> bool" where
  "lfu_update_existing_node s node v =
     (let s = s\<lparr>lfu_nodes := set_value (lfu_nodes s) node v\<rparr>
      in (lfu_update_node_frequency s node, True))"

definition lfu_add_new_node ::
    "('k, 'v) arc_lfu \<Rightarrow> 'k \<Rightarrow> 'v \<Rightarrow> (('k, 'v) arc_lfu \<times> bool) option" where
  "lfu_add_new_node s key v = do {
     s \<leftarrow> (if length (lfu_main s) \<ge> lfu_cap s then lfu_evict_least_frequent s else Some s);
     let new_node = lfu_fresh s;
         s = s\<lparr>lfu_nodes := (lfu_nodes s)(new_node := new_arc_node key v), lfu_fresh := new_node + 1,
               lfu_main := AList.update key new_node (lfu_main s)\<rparr>
     in Some (s\<lparr>lfu_freq_map := fm_push 1 new_node (lfu_freq_map s), lfu_min_freq := 1\<rparr>, True) }"

section \<open>Public operations\<close>

definition lfu_put :: "('k, 'v) arc_lfu \<Rightarrow> 'k \<Rightarrow> 'v \<Rightarrow> (('k, 'v) arc_lfu \<times> bool) option" where
  "lfu_put s key v =
     (if lfu_cap s = 0 then Some (s, False)
      else
        case map_of (lfu_main s) key of
          Some node \<Rightarrow> Some (lfu_update_existing_node s node v)
        | None \<Rightarrow> lfu_add_new_node (fst (lfu_erase_ghost s key)) key v)"

definition lfu_get :: "('k, 'v) arc_lfu \<Rightarrow> 'k \<Rightarrow> ('k, 'v) arc_lfu \<times> 'v option" where
  "lfu_get s key =
     (case map_of (lfu_main s) key of
        Some node \<Rightarrow> let s = lfu_update_node_frequency s node in (s, Some (nd_value (lfu_nodes s node)))
      | None \<Rightarrow> (s, None))"

definition lfu_contain :: "('k, 'v) arc_lfu \<Rightarrow> 'k \<Rightarrow> bool" where
  "lfu_contain s key \<longleftrightarrow> map_of (lfu_main s) key \<noteq> None"

definition lfu_invalidate :: "('k, 'v) arc_lfu \<Rightarrow> 'k \<Rightarrow> ('k, 'v) arc_lfu \<times> bool" where
  "lfu_invalidate s key =
     (let (s, removed) =
          (case map_of (lfu_main s) key of
             None \<Rightarrow> (s, False)
           | Some node \<Rightarrow>
               let f = nd_access_count (lfu_nodes s node);
                   s = (case map_of (lfu_freq_map s) f of
                          None \<Rightarrow> s
                        | Some b \<Rightarrow>
                            let b = removeAll node b; fm = omap_set f b (lfu_freq_map s)
                            in s\<lparr>lfu_freq_map := (if b = [] then AList.delete f fm else fm)\<rparr>);
                   s = s\<lparr>lfu_main := AList.delete key (lfu_main s)\<rparr>
               in (s\<lparr>lfu_min_freq := (if lfu_freq_map s = [] then 0 else fst (hd (lfu_freq_map s)))\<rparr>, True));
          (s, ghost_removed) = lfu_erase_ghost s key
      in (s, removed \<or> ghost_removed))"

definition lfu_check_ghost :: "('k, 'v) arc_lfu \<Rightarrow> 'k \<Rightarrow> ('k, 'v) arc_lfu \<times> bool" where
  "lfu_check_ghost s key = lfu_erase_ghost s key"

definition lfu_increase_capacity :: "('k, 'v) arc_lfu \<Rightarrow> ('k, 'v) arc_lfu" where
  "lfu_increase_capacity s = s\<lparr>lfu_cap := lfu_cap s + 1\<rparr>"

partial_function (option) lfu_shrink :: "('k, 'v) arc_lfu \<Rightarrow> ('k, 'v) arc_lfu option" where
  "lfu_shrink s =
     (if length (lfu_main s) > lfu_cap s then Option.bind (lfu_evict_least_frequent s) lfu_shrink else Some s)"

definition lfu_decrease_capacity :: "('k, 'v) arc_lfu \<Rightarrow> (('k, 'v) arc_lfu \<times> bool) option" where
  "lfu_decrease_capacity s =
     (if lfu_cap s = 0 then Some (s, False)
      else do { s \<leftarrow> lfu_shrink (s\<lparr>lfu_cap := lfu_cap s - 1\<rparr>); Some (s, True) })"

section \<open>Specification\<close>

record ('k, 'v) lfu_spec =
  fs_cap :: nat
  fs_gcap :: nat
  fs_trans :: nat
  fs_entries :: "('k \<times> 'v \<times> nat) list"
  fs_ghosts :: "'k list"

abbreviation freq :: "'k \<times> 'v \<times> nat \<Rightarrow> nat" where
  "freq e \<equiv> snd (snd e)"

definition least_freq :: "('k \<times> 'v \<times> nat) list \<Rightarrow> nat" where
  "least_freq es = Min (freq ` set es)"

text \<open>The entry accessed least often, and least recently among those.\<close>

definition fs_victim :: "('k \<times> 'v \<times> nat) list \<Rightarrow> 'k \<times> 'v \<times> nat" where
  "fs_victim es = hd (filter (\<lambda>e. freq e = least_freq es) es)"

definition fs_evict :: "('k, 'v) lfu_spec \<Rightarrow> ('k, 'v) lfu_spec" where
  "fs_evict a =
     (if fs_entries a = [] then a
      else
        let k = fst (fs_victim (fs_entries a));
            gs = (if length (fs_ghosts a) \<ge> fs_gcap a then tl (fs_ghosts a) else fs_ghosts a)
        in a\<lparr>fs_entries := without k (fs_entries a),
             fs_ghosts := (if fs_gcap a = 0 then gs else gs @ [k])\<rparr>)"

definition fs_put :: "('k, 'v) lfu_spec \<Rightarrow> 'k \<Rightarrow> 'v \<Rightarrow> ('k, 'v) lfu_spec \<times> bool" where
  "fs_put a k v =
     (if fs_cap a = 0 then (a, False)
      else
        case map_of (fs_entries a) k of
          Some (_, c) \<Rightarrow> (a\<lparr>fs_entries := without k (fs_entries a) @ [(k, v, c + 1)]\<rparr>, True)
        | None \<Rightarrow>
            let a = a\<lparr>fs_ghosts := removeAll k (fs_ghosts a)\<rparr>;
                a = (if length (fs_entries a) \<ge> fs_cap a then fs_evict a else a)
            in (a\<lparr>fs_entries := fs_entries a @ [(k, v, 1)]\<rparr>, True))"

definition fs_get :: "('k, 'v) lfu_spec \<Rightarrow> 'k \<Rightarrow> ('k, 'v) lfu_spec \<times> 'v option" where
  "fs_get a k =
     (case map_of (fs_entries a) k of
        Some (v, c) \<Rightarrow> (a\<lparr>fs_entries := without k (fs_entries a) @ [(k, v, c + 1)]\<rparr>, Some v)
      | None \<Rightarrow> (a, None))"

definition fs_check_ghost :: "('k, 'v) lfu_spec \<Rightarrow> 'k \<Rightarrow> ('k, 'v) lfu_spec \<times> bool" where
  "fs_check_ghost a k = (a\<lparr>fs_ghosts := removeAll k (fs_ghosts a)\<rparr>, k \<in> set (fs_ghosts a))"

definition fs_invalidate :: "('k, 'v) lfu_spec \<Rightarrow> 'k \<Rightarrow> ('k, 'v) lfu_spec \<times> bool" where
  "fs_invalidate a k =
     (a\<lparr>fs_entries := without k (fs_entries a), fs_ghosts := removeAll k (fs_ghosts a)\<rparr>,
      k \<in> fst ` set (fs_entries a) \<or> k \<in> set (fs_ghosts a))"

lemma least_freq_in: "es \<noteq> [] \<Longrightarrow> least_freq es \<in> freq ` set es"
  unfolding least_freq_def by (rule Min_in) auto

lemma fs_victim_in:
  assumes "es \<noteq> []"
  shows "fs_victim es \<in> set es" "freq (fs_victim es) = least_freq es"
proof -
  have "filter (\<lambda>e. freq e = least_freq es) es \<noteq> []"
    using least_freq_in [OF assms] by (force simp: filter_empty_conv)
  then have "fs_victim es \<in> set (filter (\<lambda>e. freq e = least_freq es) es)"
    unfolding fs_victim_def by (rule hd_in_set)
  then show "fs_victim es \<in> set es" "freq (fs_victim es) = least_freq es" by auto
qed

function fs_shrink :: "('k, 'v) lfu_spec \<Rightarrow> ('k, 'v) lfu_spec" where
  "fs_shrink a = (if length (fs_entries a) > fs_cap a then fs_shrink (fs_evict a) else a)"
  by auto
termination
proof (relation "measure (\<lambda>a. length (fs_entries a))")
  fix a :: "('k, 'v) lfu_spec"
  assume "length (fs_entries a) > fs_cap a"
  then have "fs_entries a \<noteq> []" by auto
  then show "(fs_evict a, a) \<in> measure (\<lambda>a. length (fs_entries a))"
    using fs_victim_in(1) by (auto simp: fs_evict_def Let_def intro!: length_without_in)
qed simp

declare fs_shrink.simps [simp del]

definition fs_decrease :: "('k, 'v) lfu_spec \<Rightarrow> ('k, 'v) lfu_spec \<times> bool" where
  "fs_decrease a =
     (if fs_cap a = 0 then (a, False) else (fs_shrink (a\<lparr>fs_cap := fs_cap a - 1\<rparr>), True))"

text \<open>The well-formed specification states.\<close>

definition fs_keys_ok :: "('k, 'v) lfu_spec \<Rightarrow> bool" where
  "fs_keys_ok a \<longleftrightarrow> distinct (map fst (fs_entries a)) \<and> distinct (fs_ghosts a)
     \<and> fst ` set (fs_entries a) \<inter> set (fs_ghosts a) = {} \<and> length (fs_ghosts a) \<le> fs_gcap a"

definition fs_inv :: "('k, 'v) lfu_spec \<Rightarrow> bool" where
  "fs_inv a \<longleftrightarrow> fs_keys_ok a \<and> length (fs_entries a) \<le> fs_cap a"

section \<open>Buckets\<close>

text \<open>The buckets of a list of nodes: its non-empty slices by count.\<close>

definition slots :: "(addr \<Rightarrow> nat) \<Rightarrow> addr list \<Rightarrow> nat \<Rightarrow> addr list option" where
  "slots cnt xs f = (let b = filter (\<lambda>p. cnt p = f) xs in if b = [] then None else Some b)"

definition freq_ok :: "freq_map \<Rightarrow> (addr \<Rightarrow> nat) \<Rightarrow> addr list \<Rightarrow> bool" where
  "freq_ok fm cnt xs \<longleftrightarrow> omap_ok fm \<and> map_of fm = slots cnt xs"

lemma slots_remove:
  "slots cnt (removeAll p xs) = (slots cnt xs)(cnt p := (let b = removeAll p (filter (\<lambda>q. cnt q = cnt p) xs)
     in if b = [] then None else Some b))"
proof
  fix f
  have "filter (\<lambda>q. cnt q = f) (removeAll p xs) = removeAll p (filter (\<lambda>q. cnt q = f) xs)"
    by (simp add: removeAll_filter_not_eq) meson
  moreover have "removeAll p (filter (\<lambda>q. cnt q = f) xs) = filter (\<lambda>q. cnt q = f) xs" if "f \<noteq> cnt p"
    using that by (auto intro: removeAll_id)
  ultimately show "slots cnt (removeAll p xs) f = ((slots cnt xs)(cnt p := (let b = removeAll p
      (filter (\<lambda>q. cnt q = cnt p) xs) in if b = [] then None else Some b))) f"
    by (auto simp: slots_def Let_def)
qed

lemma slots_push:
  "slots cnt (xs @ [p]) = (slots cnt xs)(cnt p \<mapsto> (case slots cnt xs (cnt p) of None \<Rightarrow> [] | Some b \<Rightarrow> b) @ [p])"
  by (rule ext) (auto simp: slots_def Let_def)

lemma slots_cong: "(\<And>p. p \<in> set xs \<Longrightarrow> cnt' p = cnt p) \<Longrightarrow> slots cnt' xs = slots cnt xs"
  by (auto simp: slots_def fun_eq_iff cong: filter_cong)

lemma fm_push_map_of:
  "map_of (fm_push f p fm) = (map_of fm)(f \<mapsto> (case map_of fm f of None \<Rightarrow> [] | Some b \<Rightarrow> b) @ [p])"
  by (cases "map_of fm f") (simp_all add: fm_push_def fm_at_def)

lemma fm_push_ok: "omap_ok fm \<Longrightarrow> omap_ok (fm_push f p fm)"
  by (cases "map_of fm f") (simp_all add: fm_push_def fm_at_def omap_ok_set)

lemma freq_ok_push:
  "freq_ok fm cnt xs \<Longrightarrow> freq_ok (fm_push (cnt p) p fm) cnt (xs @ [p])"
  by (simp add: freq_ok_def fm_push_ok fm_push_map_of slots_push)

lemma freq_ok_cong:
  assumes "freq_ok fm cnt xs" and "\<And>p. p \<in> set xs \<Longrightarrow> cnt' p = cnt p"
  shows "freq_ok fm cnt' xs"
  using assms slots_cong [of xs cnt' cnt] by (simp add: freq_ok_def)

text \<open>Taking a node out of its bucket, and the bucket out of the map once it is empty.\<close>

lemma freq_ok_remove:
  fixes cnt :: "addr \<Rightarrow> nat" and p :: addr and xs :: "addr list"
  assumes ok: "freq_ok fm cnt xs"
  defines "b \<equiv> removeAll p (filter (\<lambda>q. cnt q = cnt p) xs)"
  shows "freq_ok (if b = [] then AList.delete (cnt p) (omap_set (cnt p) b fm) else omap_set (cnt p) b fm)
    cnt (removeAll p xs)"
proof -
  have "slots cnt (removeAll p xs) = (slots cnt xs)(cnt p := if b = [] then None else Some b)"
    by (simp add: slots_remove b_def Let_def)
  then show ?thesis using ok
    by (cases "b = []") (simp_all add: freq_ok_def omap_ok_delete omap_ok_set)
qed

lemma freq_ok_at:
  "freq_ok fm cnt xs \<Longrightarrow> p \<in> set xs \<Longrightarrow> map_of fm (cnt p) = Some (filter (\<lambda>q. cnt q = cnt p) xs)"
  by (auto simp: freq_ok_def slots_def Let_def filter_empty_conv)

lemma freq_ok_keys: "freq_ok fm cnt xs \<Longrightarrow> fst ` set fm = cnt ` set xs"
proof -
  assume ok: "freq_ok fm cnt xs"
  have "fst ` set fm = dom (map_of fm)" by (simp add: dom_map_of_conv_image_fst)
  also have "\<dots> = cnt ` set xs"
    using ok by (auto simp: freq_ok_def slots_def Let_def filter_empty_conv dom_def split: if_split_asm)
  finally show ?thesis .
qed

lemma freq_ok_empty: "freq_ok fm cnt xs \<Longrightarrow> fm = [] \<longleftrightarrow> xs = []"
  using freq_ok_keys [of fm cnt xs] by auto

lemma freq_ok_first:
  assumes ok: "freq_ok fm cnt xs" and "xs \<noteq> []"
  shows "fst (hd fm) = Min (cnt ` set xs)"
proof -
  obtain e rest where fm: "fm = e # rest" using freq_ok_empty [OF ok] assms(2) by (cases fm) auto
  have "fst e < g" if "g \<in> fst ` set rest" for g using ok that by (auto simp: freq_ok_def omap_ok_def fm)
  moreover have "cnt ` set xs = insert (fst e) (fst ` set rest)" using freq_ok_keys [OF ok] by (simp add: fm)
  ultimately have "Min (cnt ` set xs) = fst e" by (intro Min_eqI) (auto intro: less_imp_le)
  then show ?thesis by (simp add: fm)
qed

section \<open>Representation\<close>

abbreviation fmain_key :: "('k, 'v) arc_lfu \<Rightarrow> addr \<Rightarrow> 'k" where
  "fmain_key s p \<equiv> nd_key (lfu_nodes s p)"

abbreviation fghost_key :: "('k, 'v) arc_lfu \<Rightarrow> addr \<Rightarrow> 'k" where
  "fghost_key s p \<equiv> nd_key (lfu_ghost_nodes s p)"

abbreviation fcount :: "('k, 'v) arc_lfu \<Rightarrow> addr \<Rightarrow> nat" where
  "fcount s p \<equiv> nd_access_count (lfu_nodes s p)"

text \<open>The nodes \<open>xs\<close> in the order of their last access are exactly the indexed and bucketed ones.\<close>

definition lfu_main_at :: "('k, 'v) arc_lfu \<Rightarrow> addr list \<Rightarrow> bool" where
  "lfu_main_at s xs \<longleftrightarrow> index_ok (lfu_main s) (fmain_key s) xs \<and> (\<forall>p \<in> set xs. p < lfu_fresh s)
     \<and> freq_ok (lfu_freq_map s) (fcount s) xs
     \<and> (xs \<noteq> [] \<longrightarrow> lfu_min_freq s = Min (fcount s ` set xs)) \<and> (\<forall>p \<in> set xs. 0 < fcount s p)"

definition lfu_ghost_at :: "('k, 'v) arc_lfu \<Rightarrow> addr list \<Rightarrow> bool" where
  "lfu_ghost_at s gs \<longleftrightarrow>
     keyed_list (lfu_ghost_nodes s) (lfu_ghost_fresh s) (lfu_ghost s) (lfu_ghost_head s) (lfu_ghost_tail s) gs"

definition lfu_at :: "('k, 'v) arc_lfu \<Rightarrow> addr list \<Rightarrow> addr list \<Rightarrow> bool" where
  "lfu_at s xs gs \<longleftrightarrow> lfu_main_at s xs \<and> lfu_ghost_at s gs"

definition same_fmain :: "('k, 'v) arc_lfu \<Rightarrow> ('k, 'v) arc_lfu \<Rightarrow> bool" where
  "same_fmain s t \<longleftrightarrow> lfu_cap t = lfu_cap s \<and> lfu_ghost_cap t = lfu_ghost_cap s \<and> lfu_trans t = lfu_trans s
     \<and> lfu_min_freq t = lfu_min_freq s \<and> lfu_nodes t = lfu_nodes s \<and> lfu_fresh t = lfu_fresh s
     \<and> lfu_main t = lfu_main s \<and> lfu_freq_map t = lfu_freq_map s"

definition lfu_view :: "('k, 'v) arc_lfu \<Rightarrow> addr list \<Rightarrow> addr list \<Rightarrow> ('k, 'v) lfu_spec" where
  "lfu_view s xs gs = \<lparr>fs_cap = lfu_cap s, fs_gcap = lfu_ghost_cap s, fs_trans = lfu_trans s,
     fs_entries = map (\<lambda>p. content (lfu_nodes s p)) xs, fs_ghosts = map (fghost_key s) gs\<rparr>"

definition lfu_rep :: "('k, 'v) arc_lfu \<Rightarrow> ('k, 'v) lfu_spec \<Rightarrow> bool" where
  "lfu_rep s a \<longleftrightarrow> (\<exists>xs gs. lfu_at s xs gs \<and> a = lfu_view s xs gs)"

lemma lfu_repI: "lfu_at s xs gs \<Longrightarrow> lfu_view s xs gs = a \<Longrightarrow> lfu_rep s a"
  by (auto simp: lfu_rep_def)

lemma lfu_repE:
  assumes "lfu_rep s a"
  obtains xs gs where "lfu_at s xs gs" "a = lfu_view s xs gs"
  using assms by (auto simp: lfu_rep_def)

lemma lfu_view_simps [simp]:
  "fs_cap (lfu_view s xs gs) = lfu_cap s" "fs_gcap (lfu_view s xs gs) = lfu_ghost_cap s"
  "fs_trans (lfu_view s xs gs) = lfu_trans s"
  "fs_entries (lfu_view s xs gs) = map (\<lambda>p. content (lfu_nodes s p)) xs"
  "fs_ghosts (lfu_view s xs gs) = map (fghost_key s) gs"
  by (simp_all add: lfu_view_def)

lemma same_fmain_trans: "same_fmain s t \<Longrightarrow> same_fmain t u \<Longrightarrow> same_fmain s u"
  by (simp add: same_fmain_def)

lemma lfu_main_at_same: "same_fmain s t \<Longrightarrow> lfu_main_at t xs = lfu_main_at s xs"
  by (simp add: lfu_main_at_def same_fmain_def)

section \<open>Refinement of the private operations\<close>

lemma lfu_drop_ghost:
  assumes at: "lfu_ghost_at s gs" and p: "p \<in> set gs"
  defines "t \<equiv> (lfu_remove_from_ghost s p)\<lparr>lfu_ghost := AList.delete (fghost_key s p) (lfu_ghost s)\<rparr>"
  shows "lfu_ghost_at t (remove1 p gs)"
    and "\<And>q. nd_key (lfu_ghost_nodes (lfu_remove_from_ghost s p) q) = fghost_key s q" and "same_fmain s t"
proof -
  note rm = keyed_list_remove [OF at [unfolded lfu_ghost_at_def] p]
  show "lfu_ghost_at t (remove1 p gs)" using rm(1) by (simp add: lfu_ghost_at_def t_def lfu_remove_from_ghost_def)
  show "nd_key (lfu_ghost_nodes (lfu_remove_from_ghost s p) q) = fghost_key s q" for q
    using content_sel [OF rm(3)] by (simp add: lfu_remove_from_ghost_def)
  show "same_fmain s t" by (simp add: same_fmain_def t_def lfu_remove_from_ghost_def)
qed

lemma lfu_erase_ghost_at:
  fixes s :: "('k, 'v) arc_lfu" and k :: 'k
  assumes at: "lfu_ghost_at s gs"
  defines "t \<equiv> fst (lfu_erase_ghost s k)"
  shows "\<exists>gs'. lfu_ghost_at t gs' \<and> map (fghost_key t) gs' = removeAll k (map (fghost_key s) gs)"
    and "same_fmain s t" and "snd (lfu_erase_ghost s k) \<longleftrightarrow> k \<in> fghost_key s ` set gs"
proof -
  note look = keyed_list_lookup [OF at [unfolded lfu_ghost_at_def]]
  have "(\<exists>gs'. lfu_ghost_at t gs' \<and> map (fghost_key t) gs' = removeAll k (map (fghost_key s) gs))
      \<and> same_fmain s t \<and> (snd (lfu_erase_ghost s k) \<longleftrightarrow> k \<in> fghost_key s ` set gs)"
  proof (cases "map_of (lfu_ghost s) k")
    case None
    then have "k \<notin> fghost_key s ` set gs" using look(2) by blast
    then show ?thesis using None at by (auto simp: t_def lfu_erase_ghost_def same_fmain_def)
  next
    case (Some p)
    then have p: "p \<in> set gs" "fghost_key s p = k" using look(1) by blast+
    have t: "t = (lfu_remove_from_ghost s p)\<lparr>lfu_ghost := AList.delete (fghost_key s p) (lfu_ghost s)\<rparr>"
      and r: "snd (lfu_erase_ghost s k)"
      using Some p by (simp_all add: t_def lfu_erase_ghost_def Let_def lfu_remove_from_ghost_def)
    note drop = lfu_drop_ghost [OF at p(1), folded t]
    have "map (fghost_key t) (remove1 p gs) = removeAll k (map (fghost_key s) gs)"
      using map_remove1_key [OF look(4) p(1)] p(2) drop(2) by (simp add: t)
    with drop r p show ?thesis by auto
  qed
  then show "\<exists>gs'. lfu_ghost_at t gs' \<and> map (fghost_key t) gs' = removeAll k (map (fghost_key s) gs)"
    and "same_fmain s t" and "snd (lfu_erase_ghost s k) \<longleftrightarrow> k \<in> fghost_key s ` set gs" by blast+
qed

lemma lfu_remove_oldest_ghost_at:
  assumes at: "lfu_ghost_at s gs"
  shows "\<exists>t gs'. lfu_remove_oldest_ghost s = Some t \<and> lfu_ghost_at t gs'
    \<and> map (fghost_key t) gs' = tl (map (fghost_key s) gs) \<and> same_fmain s t"
proof -
  have d: "dll (lfu_ghost_nodes s) (lfu_ghost_head s) gs (lfu_ghost_tail s)"
    using at by (simp add: lfu_ghost_at_def keyed_list_def)
  show ?thesis
  proof (cases gs)
    case Nil
    with dll_front [OF d] have "lfu_remove_oldest_ghost s = Some s" by (simp add: lfu_remove_oldest_ghost_def)
    with Nil at show ?thesis by (auto simp: same_fmain_def)
  next
    case (Cons p g)
    define t where "t = (lfu_remove_from_ghost s p)\<lparr>lfu_ghost := AList.delete (fghost_key s p) (lfu_ghost s)\<rparr>"
    have p: "p \<in> set gs" using Cons by simp
    note drop = lfu_drop_ghost [OF at p, folded t_def]
    have nx: "nd_next (lfu_ghost_nodes s (lfu_ghost_head s)) = Some p" "p \<noteq> lfu_ghost_tail s"
      using d Cons dll_front [OF d] by (auto simp: dll_def)
    have "lfu_remove_oldest_ghost s = Some t"
      using nx drop(2) by (simp add: t_def lfu_remove_oldest_ghost_def Let_def) (simp add: lfu_remove_from_ghost_def)
    moreover have "map (fghost_key t) g = tl (map (fghost_key s) gs)" using drop(2) by (simp add: t_def Cons)
    moreover have "lfu_ghost_at t g" using drop(1) Cons by simp
    ultimately show ?thesis using drop(3) by blast
  qed
qed

lemma lfu_add_to_ghost_at:
  fixes s :: "('k, 'v) arc_lfu" and e :: addr
  assumes at: "lfu_ghost_at s gs" and new: "fmain_key s e \<notin> fghost_key s ` set gs"
  defines "t \<equiv> lfu_add_to_ghost s e"
  shows "\<exists>gs'. lfu_ghost_at t gs' \<and> map (fghost_key t) gs' =
       (if lfu_ghost_cap s = 0 then map (fghost_key s) gs else map (fghost_key s) gs @ [fmain_key s e])"
    and "same_fmain s t"
proof -
  show "same_fmain s t" by (simp add: t_def lfu_add_to_ghost_def same_fmain_def Let_def)
  show "\<exists>gs'. lfu_ghost_at t gs' \<and> map (fghost_key t) gs' =
       (if lfu_ghost_cap s = 0 then map (fghost_key s) gs else map (fghost_key s) gs @ [fmain_key s e])"
  proof (cases "lfu_ghost_cap s = 0")
    case True
    then have "t = s" by (simp add: t_def lfu_add_to_ghost_def)
    with True at show ?thesis by auto
  next
    case False
    let ?n = "lfu_ghost_fresh s" and ?k = "fmain_key s e" and ?hd = "lfu_ghost_head s" and ?tl = "lfu_ghost_tail s"
    define h where "h = (lfu_ghost_nodes s)(?n := new_arc_node ?k ())"
    define q where "q = last (?hd # gs)"
    define h' where "h' = link_between h q ?n ?tl"
    note at' = at [unfolded lfu_ghost_at_def]
    note keyed = keyed_list_new(4,6) [OF at' new, of "()", folded h_def, folded q_def, folded h'_def]
    have d: "dll (lfu_ghost_nodes s) ?hd gs ?tl" and n: "?n \<notin> set (?hd # gs @ [?tl])"
      using at' by (auto simp: keyed_list_def)
    have q: "nd_prev (lfu_ghost_nodes s ?tl) = Some q" "q \<in> set (?hd # gs)"
      using dll_back [OF d] by (simp add: q_def, simp only: q_def, intro last_in_set) simp
    then have ne: "q \<noteq> ?tl" "q \<noteq> ?n" "?n \<noteq> ?tl" using d n by (auto simp: dll_def)
    have key: "nd_key (h' x) = (if x = ?n then ?k else fghost_key s x)" for x
      using arg_cong [OF keyed(2), of fst x] by (cases "x = ?n") simp_all
    have t: "t = s\<lparr>lfu_ghost_nodes := h', lfu_ghost_fresh := ?n + 1,
        lfu_ghost := AList.update ?k ?n (lfu_ghost s)\<rparr>"
      using False q(1) ne key [of ?n]
      by (simp add: t_def lfu_add_to_ghost_def Let_def h'_def h_def link_between_def set_next_def set_prev_def
            fun_upd_twist new_arc_node_def)
    have "lfu_ghost_at t (gs @ [?n])" using keyed(1) by (simp add: lfu_ghost_at_def t)
    moreover have "map (fghost_key t) (gs @ [?n]) = map (fghost_key s) gs @ [?k]" using n key by (auto simp: t)
    ultimately show ?thesis using False by auto
  qed
qed

text \<open>The least count after one node is gone, and after one node is accessed.\<close>

lemma Min_count_remove:
  assumes "p \<in> set xs" "q \<in> set xs" "q \<noteq> p" "cnt q = Min (cnt ` set xs)"
  shows "Min (cnt ` set (removeAll p xs)) = Min (cnt ` set xs)"
  using assms by (intro Min_eqI) (auto intro: rev_image_eqI)

lemma Min_count_access:
  fixes cnt :: "addr \<Rightarrow> nat"
  assumes p: "p \<in> set xs" and cnt': "\<And>q. cnt' q = (if q = p then cnt p + 1 else cnt q)"
  defines "m \<equiv> Min (cnt ` set xs)"
  shows "Min (cnt' ` set (removeAll p xs @ [p])) =
    (if removeAll p (filter (\<lambda>q. cnt q = cnt p) xs) = [] \<and> cnt p = m then cnt p + 1 else m)"
proof -
  have le: "m \<le> cnt q" if "q \<in> set xs" for q using that by (simp add: m_def)
  obtain q where q: "q \<in> set xs" "cnt q = m"
    using Min_in [of "cnt ` set xs"] p unfolding m_def by fastforce
  have set': "cnt' ` set (removeAll p xs @ [p]) = insert (cnt p + 1) (cnt ` (set xs - {p}))"
    by (auto simp: cnt')
  show ?thesis
  proof (cases "removeAll p (filter (\<lambda>q. cnt q = cnt p) xs) = [] \<and> cnt p = m")
    case True
    then have "cnt r \<noteq> m" if "r \<in> set xs - {p}" for r
      using that by (auto simp: removeAll_filter_not_eq filter_empty_conv)
    then have "m < cnt r" if "r \<in> set xs - {p}" for r using that le by (metis DiffD1 le_neq_implies_less)
    then have "Min (insert (cnt p + 1) (cnt ` (set xs - {p}))) = cnt p + 1"
      using True by (intro Min_eqI) (auto simp: Suc_le_eq)
    then show ?thesis unfolding set' if_P [OF True] .
  next
    case False
    then have "\<exists>r \<in> set xs - {p}. cnt r = m"
      using q by (auto simp: removeAll_filter_not_eq filter_empty_conv)
    then have "Min (insert (cnt p + 1) (cnt ` (set xs - {p}))) = m"
      using le p by (intro Min_eqI) (auto intro: le_SucI)
    then show ?thesis unfolding set' if_not_P [OF False] .
  qed
qed

lemma lfu_drop_main:
  assumes at: "lfu_main_at s xs" and p: "p \<in> set xs"
  defines "b \<equiv> removeAll p (filter (\<lambda>q. fcount s q = fcount s p) xs)"
  defines "fm \<equiv> (if b = [] then AList.delete (fcount s p) (omap_set (fcount s p) b (lfu_freq_map s))
                  else omap_set (fcount s p) b (lfu_freq_map s))"
  shows "index_ok (AList.delete (fmain_key s p) (lfu_main s)) (fmain_key s) (remove1 p xs)"
    and "freq_ok fm (fcount s) (remove1 p xs)" and "distinct xs"
proof -
  have idx: "index_ok (lfu_main s) (fmain_key s) xs" and fr: "freq_ok (lfu_freq_map s) (fcount s) xs"
    using at by (simp_all add: lfu_main_at_def)
  show "index_ok (AList.delete (fmain_key s p) (lfu_main s)) (fmain_key s) (remove1 p xs)"
    using index_delete [OF idx p] .
  show "distinct xs" using idx by (rule index_distinct)
  then show "freq_ok fm (fcount s) (remove1 p xs)"
    using freq_ok_remove [OF fr, of p] unfolding fm_def b_def by (simp only: distinct_remove1_removeAll)
qed

lemma lfu_evict_at:
  fixes s :: "('k, 'v) arc_lfu"
  assumes at: "lfu_at s xs gs" and ne: "xs \<noteq> []"
  defines "p \<equiv> hd (filter (\<lambda>q. fcount s q = Min (fcount s ` set xs)) xs)"
  assumes new: "fmain_key s p \<notin> fghost_key s ` set gs"
  defines "old \<equiv> (if length gs \<ge> lfu_ghost_cap s then tl (map (fghost_key s) gs) else map (fghost_key s) gs)"
  shows "\<exists>t gs'. lfu_evict_least_frequent s = Some t \<and> lfu_at t (remove1 p xs) gs'
    \<and> map (fghost_key t) gs' = (if lfu_ghost_cap s = 0 then old else old @ [fmain_key s p])
    \<and> lfu_nodes t = lfu_nodes s \<and> lfu_cap t = lfu_cap s \<and> lfu_ghost_cap t = lfu_ghost_cap s
    \<and> lfu_trans t = lfu_trans s"
proof -
  let ?m = "Min (fcount s ` set xs)"
  have mat: "lfu_main_at s xs" and gat: "lfu_ghost_at s gs" using at by (simp_all add: lfu_at_def)
  have fr: "freq_ok (lfu_freq_map s) (fcount s) xs" and mf: "lfu_min_freq s = ?m"
    using mat ne by (simp_all add: lfu_main_at_def)
  have "?m \<in> fcount s ` set xs" using ne by (intro Min_in) simp_all
  then obtain rest where b: "filter (\<lambda>q. fcount s q = ?m) xs = p # rest"
    unfolding p_def by (cases "filter (\<lambda>q. fcount s q = ?m) xs") (auto simp: filter_empty_conv)
  then have "p \<in> set (filter (\<lambda>q. fcount s q = ?m) xs)" by simp
  then have p: "p \<in> set xs" "fcount s p = ?m" by simp_all
  note drop = lfu_drop_main [OF mat p(1), unfolded p(2) b]
  have rest: "removeAll p (p # rest) = rest" "set rest \<subseteq> set (remove1 p xs)" "\<And>q. q \<in> set rest \<Longrightarrow> fcount s q = ?m"
  proof -
    have "distinct (p # rest)" using distinct_filter [OF drop(3)] b by metis
    then show "removeAll p (p # rest) = rest" by simp
    have "set (p # rest) = {q \<in> set xs. fcount s q = ?m}" unfolding b [symmetric] by auto
    with \<open>distinct (p # rest)\<close> show "set rest \<subseteq> set (remove1 p xs)" "\<And>q. q \<in> set rest \<Longrightarrow> fcount s q = ?m"
      using drop(3) by auto
  qed
  define fm where "fm = (if rest = [] then AList.delete ?m (omap_set ?m rest (lfu_freq_map s))
    else omap_set ?m rest (lfu_freq_map s))"
  have fr': "freq_ok fm (fcount s) (remove1 p xs)" using drop(2) unfolding rest(1) fm_def .
  define s1 where "s1 = (if rest = [] \<and> fm \<noteq> [] then s\<lparr>lfu_freq_map := fm, lfu_min_freq := fst (hd fm)\<rparr>
    else s\<lparr>lfu_freq_map := fm\<rparr>)"
  have gat1: "lfu_ghost_at s1 gs" using gat by (simp add: lfu_ghost_at_def s1_def)
  have full: "length (lfu_ghost s1) = length gs"
    using keyed_list_lookup(3) [OF gat [unfolded lfu_ghost_at_def]] by (simp add: s1_def)
  have s1: "lfu_ghost_cap s1 = lfu_ghost_cap s" "lfu_ghost_nodes s1 = lfu_ghost_nodes s" by (simp_all add: s1_def)
  have "\<exists>s2 gs2. (if length (lfu_ghost s1) \<ge> lfu_ghost_cap s1 then lfu_remove_oldest_ghost s1 else Some s1) = Some s2
      \<and> lfu_ghost_at s2 gs2 \<and> same_fmain s1 s2 \<and> map (fghost_key s2) gs2 = old"
    using lfu_remove_oldest_ghost_at [OF gat1] gat1 unfolding full s1 old_def
    by (cases "lfu_ghost_cap s \<le> length gs") (auto simp: same_fmain_def s1)
  then obtain s2 gs2 where
    s2: "(if length (lfu_ghost s1) \<ge> lfu_ghost_cap s1 then lfu_remove_oldest_ghost s1 else Some s1) = Some s2"
    "lfu_ghost_at s2 gs2" "same_fmain s1 s2" and k2: "map (fghost_key s2) gs2 = old" by blast
  have nodes2: "lfu_nodes s2 = lfu_nodes s" "lfu_main s2 = lfu_main s" using s2(3) by (simp_all add: same_fmain_def s1_def)
  have "set old \<subseteq> set (map (fghost_key s) gs)" unfolding old_def by (cases "map (fghost_key s) gs") auto
  then have "fmain_key s2 p \<notin> set (map (fghost_key s2) gs2)" using new unfolding k2 nodes2 by auto
  then have "fmain_key s2 p \<notin> fghost_key s2 ` set gs2" by simp
  note ghost3 = lfu_add_to_ghost_at [OF s2(2) this]
  define s3 where "s3 = lfu_add_to_ghost s2 p"
  have s13: "same_fmain s1 s3" using same_fmain_trans [OF s2(3) ghost3(2)] by (simp add: s3_def)
  define t where "t = s3\<lparr>lfu_main := AList.delete (fmain_key s3 p) (lfu_main s3)\<rparr>"
  have "lfu_evict_least_frequent s = Some t"
  proof -
    have "lfu_freq_map s \<noteq> []" using freq_ok_empty [OF fr] ne by simp
    moreover have "fm_at (lfu_freq_map s) ?m = (lfu_freq_map s, p # rest)"
      using freq_ok_at [OF fr p(1)] b p(2) by (simp add: fm_at_def)
    ultimately have "lfu_evict_least_frequent s = do {
        s \<leftarrow> (if length (lfu_ghost s1) \<ge> lfu_ghost_cap s1 then lfu_remove_oldest_ghost s1 else Some s1);
        let s = lfu_add_to_ghost s p
        in Some (s\<lparr>lfu_main := AList.delete (fmain_key s p) (lfu_main s)\<rparr>) }"
      unfolding lfu_evict_least_frequent_def mf s1_def fm_def
      by (cases "rest = []"; cases "fm = []") (simp_all add: Let_def mf fm_def)
    then show ?thesis unfolding s2(1) by (simp add: t_def s3_def Let_def)
  qed
  moreover have "lfu_at t (remove1 p xs) gs3" if "lfu_ghost_at s3 gs3" for gs3
  proof -
    have "lfu_min_freq s1 = Min (fcount s ` set (remove1 p xs))" if "remove1 p xs \<noteq> []"
    proof (cases "rest = []")
      case True
      then show ?thesis using freq_ok_first [OF fr' that] freq_ok_empty [OF fr'] that by (simp add: s1_def)
    next
      case False
      then have "?m = Min (fcount s ` set (remove1 p xs))"
        using Min_count_remove [OF p(1), of "hd rest" "fcount s"] rest(2,3) drop(3)
        by (auto simp: distinct_remove1_removeAll subset_eq)
      with False show ?thesis by (simp add: s1_def mf)
    qed
    moreover have "lfu_main s3 = lfu_main s" "lfu_nodes s3 = lfu_nodes s" "lfu_fresh s3 = lfu_fresh s"
      "lfu_freq_map s3 = fm" "lfu_min_freq s3 = lfu_min_freq s1"
      using s13 by (simp_all add: same_fmain_def s1_def)
    ultimately show ?thesis using that drop(1) fr' mat
      by (auto simp: lfu_at_def lfu_main_at_def lfu_ghost_at_def t_def dest: notin_set_remove1)
  qed
  moreover have "lfu_nodes t = lfu_nodes s \<and> lfu_cap t = lfu_cap s \<and> lfu_ghost_cap t = lfu_ghost_cap s
      \<and> lfu_trans t = lfu_trans s" "lfu_ghost_nodes t = lfu_ghost_nodes s3"
    using s13 by (simp_all add: t_def same_fmain_def s1_def)
  moreover have "lfu_ghost_cap s2 = lfu_ghost_cap s" using s2(3) s1 by (simp add: same_fmain_def)
  ultimately show ?thesis using ghost3(1) unfolding s3_def [symmetric] k2 nodes2 by metis
qed

lemma lfu_update_frequency_at:
  fixes s :: "('k, 'v) arc_lfu"
  assumes at: "lfu_main_at s xs" and p: "p \<in> set xs"
  defines "t \<equiv> lfu_update_node_frequency s p"
  shows "lfu_main_at t (removeAll p xs @ [p])"
    and "lfu_nodes t = increment_access_count (lfu_nodes s) p"
    and "lfu_cap t = lfu_cap s" "lfu_ghost_cap t = lfu_ghost_cap s" "lfu_trans t = lfu_trans s"
    and "lfu_ghost_at t gs = lfu_ghost_at s gs" "lfu_ghost_nodes t = lfu_ghost_nodes s"
proof -
  have idx: "index_ok (lfu_main s) (fmain_key s) xs" and fr: "freq_ok (lfu_freq_map s) (fcount s) xs"
    and mf: "lfu_min_freq s = Min (fcount s ` set xs)"
    using at p by (auto simp: lfu_main_at_def)
  let ?h = "increment_access_count (lfu_nodes s) p" and ?c = "fcount s p"
  define b where "b = removeAll p (filter (\<lambda>q. fcount s q = ?c) xs)"
  define fm where "fm = (if b = [] then AList.delete ?c (omap_set ?c b (lfu_freq_map s)) else omap_set ?c b (lfu_freq_map s))"
  let ?mf = "if b = [] \<and> ?c = lfu_min_freq s then ?c + 1 else lfu_min_freq s"
  have h: "nd_access_count (?h q) = (if q = p then ?c + 1 else fcount s q)" "nd_key (?h q) = fmain_key s q" for q
    by (simp_all add: increment_access_count_def)
  have "fm_at (lfu_freq_map s) ?c = (lfu_freq_map s, filter (\<lambda>q. fcount s q = ?c) xs)"
    using freq_ok_at [OF fr p] by (simp add: fm_at_def)
  then have t: "t = s\<lparr>lfu_nodes := ?h, lfu_freq_map := fm_push (?c + 1) p fm, lfu_min_freq := ?mf\<rparr>"
    unfolding t_def lfu_update_node_frequency_def
    by (cases "b = []") (simp_all add: Let_def h(1) flip: b_def, simp_all add: fm_def)
  have "freq_ok fm (fcount s) (removeAll p xs)" using freq_ok_remove [OF fr, of p] unfolding fm_def b_def .
  then have "freq_ok fm (\<lambda>q. nd_access_count (?h q)) (removeAll p xs)" by (rule freq_ok_cong) (simp add: h)
  from freq_ok_push [OF this, of p] have "freq_ok (lfu_freq_map t) (fcount t) (removeAll p xs @ [p])"
    by (simp add: t h)
  moreover have "index_ok (lfu_main s) (fmain_key t) (removeAll p xs @ [p])"
  proof (rule index_perm [OF index_cong [OF idx]])
    show "distinct (removeAll p xs @ [p])" using index_distinct [OF idx] by (simp add: distinct_removeAll)
  qed (use p in \<open>auto simp: t h\<close>)
  moreover have "lfu_min_freq t = Min (fcount t ` set (removeAll p xs @ [p]))"
  proof -
    have "Min (fcount t ` set (removeAll p xs @ [p])) = ?mf"
      unfolding b_def mf using h(1) by (intro Min_count_access [OF p]) (simp add: t)
    then show ?thesis by (simp add: t)
  qed
  ultimately show "lfu_main_at t (removeAll p xs @ [p])"
    using at p unfolding lfu_main_at_def by (auto simp: t h)
  show "lfu_nodes t = increment_access_count (lfu_nodes s) p"
    "lfu_cap t = lfu_cap s" "lfu_ghost_cap t = lfu_ghost_cap s" "lfu_trans t = lfu_trans s"
    "lfu_ghost_at t gs = lfu_ghost_at s gs" "lfu_ghost_nodes t = lfu_ghost_nodes s"
    by (simp_all add: t lfu_ghost_at_def)
qed

section \<open>Refinement of the operations\<close>

lemma lfu_rep_fields:
  assumes "lfu_rep s a"
  shows "lfu_cap s = fs_cap a" "lfu_ghost_cap s = fs_gcap a" "lfu_trans s = fs_trans a"
    "length (lfu_main s) = length (fs_entries a)" "fst ` set (lfu_ghost s) = set (fs_ghosts a)"
    "map_of (lfu_main s) k = None \<longleftrightarrow> map_of (fs_entries a) k = None"
proof -
  obtain xs gs where at: "lfu_at s xs gs" and a: "a = lfu_view s xs gs" using assms by (rule lfu_repE)
  have m: "index_ok (lfu_main s) (fmain_key s) xs" and g: "index_ok (lfu_ghost s) (fghost_key s) gs"
    using at by (simp_all add: lfu_at_def lfu_main_at_def lfu_ghost_at_def keyed_list_def)
  show "lfu_cap s = fs_cap a" "lfu_ghost_cap s = fs_gcap a" "lfu_trans s = fs_trans a"
    "length (lfu_main s) = length (fs_entries a)" "fst ` set (lfu_ghost s) = set (fs_ghosts a)"
    using index_length [OF m] index_keys [OF g] by (simp_all add: a image_image)
  show "map_of (lfu_main s) k = None \<longleftrightarrow> map_of (fs_entries a) k = None"
    using index_keys [OF m] by (simp add: map_of_eq_None_iff a image_image)
qed

lemma lfu_victim:
  fixes s :: "('k, 'v) arc_lfu"
  assumes "xs \<noteq> []"
  defines "p \<equiv> hd (filter (\<lambda>q. fcount s q = Min (fcount s ` set xs)) xs)"
  shows "fs_victim (map (\<lambda>q. content (lfu_nodes s q)) xs) = content (lfu_nodes s p)" "p \<in> set xs"
proof -
  have m: "least_freq (map (\<lambda>q. content (lfu_nodes s q)) xs) = Min (fcount s ` set xs)"
    by (simp add: least_freq_def image_image content_def)
  have "Min (fcount s ` set xs) \<in> fcount s ` set xs" using assms(1) by (intro Min_in) simp_all
  then have ne: "filter (\<lambda>q. fcount s q = Min (fcount s ` set xs)) xs \<noteq> []" by (auto simp: filter_empty_conv)
  show "fs_victim (map (\<lambda>q. content (lfu_nodes s q)) xs) = content (lfu_nodes s p)"
  proof -
    have "freq (content (lfu_nodes s q)) = fcount s q" for q by (simp add: content_def)
    with ne show ?thesis by (simp add: fs_victim_def m filter_map comp_def p_def hd_map)
  qed
  show "p \<in> set xs" using hd_in_set [OF ne] by (simp add: p_def)
qed

lemma lfu_evict_rep:
  assumes rep: "lfu_rep s a" and ok: "fs_keys_ok a"
  shows "\<exists>t. lfu_evict_least_frequent s = Some t \<and> lfu_rep t (fs_evict a)"
proof -
  obtain xs gs where at: "lfu_at s xs gs" and a: "a = lfu_view s xs gs" using rep by (rule lfu_repE)
  have fr: "freq_ok (lfu_freq_map s) (fcount s) xs" and idx: "index_ok (lfu_main s) (fmain_key s) xs"
    using at by (simp_all add: lfu_at_def lfu_main_at_def)
  show ?thesis
  proof (cases "xs = []")
    case True
    then have "lfu_evict_least_frequent s = Some s" "fs_evict a = a"
      using freq_ok_empty [OF fr] by (simp_all add: lfu_evict_least_frequent_def fs_evict_def a)
    with rep show ?thesis by simp
  next
    case False
    define p where "p = hd (filter (\<lambda>q. fcount s q = Min (fcount s ` set xs)) xs)"
    note vic = lfu_victim [OF False, of s, folded p_def]
    have dk: "distinct (map (fmain_key s) xs)" using idx by (simp add: index_ok_def)
    have "fmain_key s p \<in> fst ` set (fs_entries a)" using vic(2) by (force simp: a)
    then have new: "fmain_key s p \<notin> fghost_key s ` set gs" using ok by (auto simp: fs_keys_ok_def a)
    obtain t gs' where t: "lfu_evict_least_frequent s = Some t" "lfu_at t (remove1 p xs) gs'"
      and k: "map (fghost_key t) gs' = (let old = (if length gs \<ge> lfu_ghost_cap s then tl (map (fghost_key s) gs)
          else map (fghost_key s) gs) in if lfu_ghost_cap s = 0 then old else old @ [fmain_key s p])"
      and f: "lfu_nodes t = lfu_nodes s" "lfu_cap t = lfu_cap s" "lfu_ghost_cap t = lfu_ghost_cap s" "lfu_trans t = lfu_trans s"
      using lfu_evict_at [OF at False, folded p_def, OF new] unfolding Let_def by metis
    have "lfu_view t (remove1 p xs) gs' = fs_evict a"
      using False vic(1) k f map_content_without [OF dk vic(2), of "\<lambda>q. content (lfu_nodes s q)"]
      by (simp add: lfu_view_def fs_evict_def a Let_def content_def)
    with t show ?thesis by (blast intro: lfu_repI)
  qed
qed

lemma fs_evict_simps [simp]:
  "fs_cap (fs_evict a) = fs_cap a" "fs_gcap (fs_evict a) = fs_gcap a" "fs_trans (fs_evict a) = fs_trans a"
  by (simp_all add: fs_evict_def Let_def)

lemma fs_evict_entries:
  "fs_entries a \<noteq> [] \<Longrightarrow> fs_entries (fs_evict a) = without (fst (fs_victim (fs_entries a))) (fs_entries a)"
  by (simp add: fs_evict_def Let_def)

lemma set_tl_subset: "set (tl xs) \<subseteq> set xs"
  by (cases xs) auto

lemma fs_keys_ok_evict:
  assumes "fs_keys_ok a"
  shows "fs_keys_ok (fs_evict a)"
proof (cases "fs_entries a = []")
  case True
  with assms show ?thesis by (simp add: fs_evict_def)
next
  case False
  define w where "w = fst (fs_victim (fs_entries a))"
  define gs where "gs = (if length (fs_ghosts a) \<ge> fs_gcap a then tl (fs_ghosts a) else fs_ghosts a)"
  have sub: "set gs \<subseteq> set (fs_ghosts a)" "distinct gs"
    using assms set_tl_subset [of "fs_ghosts a"] by (auto simp: gs_def fs_keys_ok_def distinct_tl)
  have len: "length gs \<le> fs_gcap a" "fs_gcap a \<noteq> 0 \<Longrightarrow> Suc (length gs) \<le> fs_gcap a"
    using assms by (auto simp: gs_def fs_keys_ok_def)
  have "w \<in> fst ` set (fs_entries a)" using fs_victim_in(1) [OF False] by (auto simp: w_def)
  then have "w \<notin> set gs" "fst ` set (without w (fs_entries a)) \<inter> set gs = {}"
    using assms sub(1) by (auto simp: fs_keys_ok_def keys_without)
  moreover have "fs_evict a = a\<lparr>fs_entries := without w (fs_entries a),
      fs_ghosts := (if fs_gcap a = 0 then gs else gs @ [w])\<rparr>"
    using False by (simp add: fs_evict_def Let_def gs_def w_def)
  ultimately show ?thesis
    using assms sub(2) len
    by (cases "fs_gcap a = 0") (auto simp: fs_keys_ok_def distinct_without keys_without)
qed

text \<open>An access moves the entry to the end and adds one to its count.\<close>

lemma lfu_access_rep:
  assumes at: "lfu_at s xs gs" and p: "p \<in> set xs" and a: "a = lfu_view s xs gs"
  defines "t \<equiv> lfu_update_node_frequency s p" and "k \<equiv> fmain_key s p"
  shows "lfu_rep t (a\<lparr>fs_entries := without k (fs_entries a) @ [(k, nd_value (lfu_nodes s p), fcount s p + 1)]\<rparr>)"
    and "nd_value (lfu_nodes t p) = nd_value (lfu_nodes s p)"
proof -
  have mat: "lfu_main_at s xs" and gat: "lfu_ghost_at s gs" using at by (simp_all add: lfu_at_def)
  then have idx: "index_ok (lfu_main s) (fmain_key s) xs" by (simp add: lfu_main_at_def)
  then have dk: "distinct (map (fmain_key s) xs)" and dist: "distinct xs"
    by (simp add: index_ok_def, rule index_distinct)
  note up = lfu_update_frequency_at [OF mat p, folded t_def]
  have "content (lfu_nodes t q) = content (lfu_nodes s q)" if "q \<noteq> p" for q
    using that by (simp add: up(2) increment_access_count_def)
  then have "map (\<lambda>q. content (lfu_nodes t q)) (removeAll p xs) = map (\<lambda>q. content (lfu_nodes s q)) (removeAll p xs)"
    by (intro map_cong) auto
  also have "\<dots> = without k (map (\<lambda>q. content (lfu_nodes s q)) xs)"
    using map_content_without [OF dk p, of "\<lambda>q. content (lfu_nodes s q)"] dist
    by (simp add: k_def distinct_remove1_removeAll)
  finally have "map (\<lambda>q. content (lfu_nodes t q)) (removeAll p xs) = without k (map (\<lambda>q. content (lfu_nodes s q)) xs)" .
  moreover have "content (lfu_nodes t p) = (k, nd_value (lfu_nodes s p), fcount s p + 1)"
    by (simp add: up(2) increment_access_count_def content_def k_def)
  ultimately have "lfu_view t (removeAll p xs @ [p]) gs
      = a\<lparr>fs_entries := without k (fs_entries a) @ [(k, nd_value (lfu_nodes s p), fcount s p + 1)]\<rparr>"
    using up(3-5,7) by (simp add: lfu_view_def a)
  moreover have "lfu_at t (removeAll p xs @ [p]) gs" using up(1,6) gat by (simp add: lfu_at_def)
  ultimately show "lfu_rep t (a\<lparr>fs_entries := without k (fs_entries a) @ [(k, nd_value (lfu_nodes s p), fcount s p + 1)]\<rparr>)"
    by (blast intro: lfu_repI)
  show "nd_value (lfu_nodes t p) = nd_value (lfu_nodes s p)" by (simp add: up(2) increment_access_count_def)
qed

lemma lfu_lookup_at:
  assumes at: "lfu_at s xs gs" and p: "map_of (lfu_main s) k = Some p"
  shows "p \<in> set xs" "fmain_key s p = k"
    "map_of (map (\<lambda>q. content (lfu_nodes s q)) xs) k = Some (nd_value (lfu_nodes s p), fcount s p)"
proof -
  have idx: "index_ok (lfu_main s) (fmain_key s) xs" using at by (simp add: lfu_at_def lfu_main_at_def)
  then show p': "p \<in> set xs" "fmain_key s p = k" using index_lookup p by metis+
  show "map_of (map (\<lambda>q. content (lfu_nodes s q)) xs) k = Some (nd_value (lfu_nodes s p), fcount s p)"
    using map_of_content [of "fmain_key s" xs p "\<lambda>q. content (lfu_nodes s q)"] idx p'
    by (simp add: index_ok_def content_def)
qed

lemma lfu_get_rep:
  assumes rep: "lfu_rep s a"
  shows "lfu_rep (fst (lfu_get s k)) (fst (fs_get a k)) \<and> snd (lfu_get s k) = snd (fs_get a k)"
proof (cases "map_of (lfu_main s) k")
  case None
  then have "map_of (fs_entries a) k = None" using lfu_rep_fields(6) [OF rep] by blast
  with None rep show ?thesis by (simp add: lfu_get_def fs_get_def)
next
  case (Some p)
  obtain xs gs where at: "lfu_at s xs gs" and a: "a = lfu_view s xs gs" using rep by (rule lfu_repE)
  note p = lfu_lookup_at [OF at Some]
  show ?thesis
    using lfu_access_rep [OF at p(1) a] p(2,3) Some
    by (simp add: lfu_get_def fs_get_def Let_def a)
qed

lemma lfu_set_value_at:
  "lfu_at s xs gs \<Longrightarrow> lfu_at (s\<lparr>lfu_nodes := set_value (lfu_nodes s) p v\<rparr>) xs gs"
proof -
  assume at: "lfu_at s xs gs"
  have "nd_key (set_value (lfu_nodes s) p v q) = fmain_key s q"
    "nd_access_count (set_value (lfu_nodes s) p v q) = fcount s q" for q
    by (simp_all add: set_value_def)
  with at show ?thesis by (simp add: lfu_at_def lfu_main_at_def lfu_ghost_at_def)
qed

lemma lfu_update_existing_node_rep:
  assumes rep: "lfu_rep s a" and k: "map_of (lfu_main s) k = Some p"
  shows "\<exists>t v0 c. lfu_update_existing_node s p v = (t, True) \<and> map_of (fs_entries a) k = Some (v0, c)
    \<and> lfu_rep t (a\<lparr>fs_entries := without k (fs_entries a) @ [(k, v, c + 1)]\<rparr>)"
proof -
  obtain xs gs where at: "lfu_at s xs gs" and a: "a = lfu_view s xs gs" using rep by (rule lfu_repE)
  define s1 where "s1 = s\<lparr>lfu_nodes := set_value (lfu_nodes s) p v\<rparr>"
  note p = lfu_lookup_at [OF at k]
  have dk: "distinct (map (fmain_key s) xs)" and dist: "distinct xs"
    using at index_distinct by (auto simp: lfu_at_def lfu_main_at_def index_ok_def)
  have nodes: "fmain_key s1 p = k" "fcount s1 p = fcount s p" "nd_value (lfu_nodes s1 p) = v"
    using p(2) by (simp_all add: s1_def set_value_def)
  have con: "content (lfu_nodes s1 q) = content (lfu_nodes s q)" if "q \<noteq> p" for q
    using that by (simp add: s1_def set_value_def)
  have same: "without k (map (\<lambda>q. content (lfu_nodes s1 q)) xs) = without k (map (\<lambda>q. content (lfu_nodes s q)) xs)"
  proof -
    have "fmain_key s1 q = fmain_key s q" for q by (simp add: s1_def set_value_def)
    then have dk1: "distinct (map (fmain_key s1) xs)" using dk by simp
    have "map (\<lambda>q. content (lfu_nodes s1 q)) (remove1 p xs) = map (\<lambda>q. content (lfu_nodes s q)) (remove1 p xs)"
      using dist con by (intro map_cong) auto
    then show ?thesis
      using map_content_without [OF dk1 p(1), of "\<lambda>q. content (lfu_nodes s1 q)"] nodes(1)
        map_content_without [OF dk p(1), of "\<lambda>q. content (lfu_nodes s q)"] p(2) by simp
  qed
  have "lfu_at s1 xs gs" using lfu_set_value_at [OF at] by (simp add: s1_def)
  from lfu_access_rep(1) [OF this p(1) refl] have
    "lfu_rep (lfu_update_node_frequency s1 p) (a\<lparr>fs_entries := without k (fs_entries a) @ [(k, v, fcount s p + 1)]\<rparr>)"
    using same by (simp add: nodes lfu_view_def a) (simp add: s1_def)
  with p(3) show ?thesis by (simp add: lfu_update_existing_node_def Let_def s1_def a)
qed

lemma lfu_insert_rep:
  fixes s :: "('k, 'v) arc_lfu" and k :: 'k and v :: 'v
  assumes rep: "lfu_rep s a" and k: "k \<notin> fst ` set (fs_entries a)"
  defines "n \<equiv> lfu_fresh s"
  defines "t \<equiv> s\<lparr>lfu_nodes := (lfu_nodes s)(n := new_arc_node k v), lfu_fresh := n + 1,
      lfu_main := AList.update k n (lfu_main s), lfu_freq_map := fm_push 1 n (lfu_freq_map s), lfu_min_freq := 1\<rparr>"
  shows "lfu_rep t (a\<lparr>fs_entries := fs_entries a @ [(k, v, 1)]\<rparr>)"
proof -
  obtain xs gs where at: "lfu_at s xs gs" and a: "a = lfu_view s xs gs" using rep by (rule lfu_repE)
  have idx: "index_ok (lfu_main s) (fmain_key s) xs" and fr: "freq_ok (lfu_freq_map s) (fcount s) xs"
    and pos: "\<forall>p \<in> set xs. 0 < fcount s p" and lt: "\<forall>p \<in> set xs. p < n"
    using at by (auto simp: lfu_at_def lfu_main_at_def n_def)
  have n: "n \<notin> set xs" using lt by blast
  have nodes: "lfu_nodes t q = (if q = n then new_arc_node k v else lfu_nodes s q)" for q by (simp add: t_def)
  have same: "fcount t q = fcount s q" "fmain_key t q = fmain_key s q" if "q \<in> set xs" for q
    using that n by (auto simp: nodes)
  have new: "fcount t n = 1" "fmain_key t n = k" by (simp_all add: nodes new_arc_node_def)
  have "index_ok (AList.update k n (lfu_main s)) (fmain_key t) (xs @ [n])"
  proof (rule index_insert_back)
    show "index_ok (lfu_main s) (fmain_key t) xs" using idx same(2) by (rule index_cong)
    show "k \<notin> fmain_key t ` set xs" using k same(2) by (auto simp: a image_image)
  qed (rule new)
  moreover have "freq_ok (fm_push 1 n (lfu_freq_map s)) (fcount t) (xs @ [n])"
    using freq_ok_push [OF freq_ok_cong [OF fr same(1)], of n] by (simp add: new)
  moreover have "1 = Min (fcount t ` set (xs @ [n]))"
    using pos by (intro Min_eqI [symmetric]) (auto simp: same(1) new Suc_le_eq)
  ultimately have "lfu_main_at t (xs @ [n])"
    using lt pos by (auto simp: lfu_main_at_def same new) (auto simp: t_def)
  moreover have "lfu_ghost_at t gs" using at by (simp add: lfu_at_def lfu_ghost_at_def t_def)
  ultimately have "lfu_at t (xs @ [n]) gs" by (simp add: lfu_at_def)
  moreover have "lfu_view t (xs @ [n]) gs = a\<lparr>fs_entries := fs_entries a @ [(k, v, 1)]\<rparr>"
  proof -
    have "map (\<lambda>q. content (lfu_nodes t q)) xs = map (\<lambda>q. content (lfu_nodes s q)) xs"
      using n by (intro map_cong) (auto simp: nodes)
    moreover have "content (lfu_nodes t n) = (k, v, 1)" by (simp add: nodes new_arc_node_def content_def)
    ultimately show ?thesis by (simp add: lfu_view_def a) (simp add: t_def)
  qed
  ultimately show ?thesis by (rule lfu_repI)
qed

lemma lfu_erase_ghost_rep:
  assumes rep: "lfu_rep s a"
  shows "lfu_rep (fst (lfu_erase_ghost s k)) (a\<lparr>fs_ghosts := removeAll k (fs_ghosts a)\<rparr>)"
    "snd (lfu_erase_ghost s k) \<longleftrightarrow> k \<in> set (fs_ghosts a)"
proof -
  obtain xs gs where at: "lfu_at s xs gs" and a: "a = lfu_view s xs gs" using rep by (rule lfu_repE)
  then have gat: "lfu_ghost_at s gs" by (simp add: lfu_at_def)
  note er = lfu_erase_ghost_at [OF gat, of k]
  let ?t = "fst (lfu_erase_ghost s k)"
  obtain gs' where gs': "lfu_ghost_at ?t gs'" "map (fghost_key ?t) gs' = removeAll k (map (fghost_key s) gs)"
    using er(1) by blast
  have "lfu_at ?t xs gs'" using at gs'(1) lfu_main_at_same [OF er(2)] by (simp add: lfu_at_def)
  moreover have "lfu_view ?t xs gs' = a\<lparr>fs_ghosts := removeAll k (fs_ghosts a)\<rparr>"
    using gs'(2) er(2) by (simp add: lfu_view_def a same_fmain_def)
  ultimately show "lfu_rep ?t (a\<lparr>fs_ghosts := removeAll k (fs_ghosts a)\<rparr>)" by (rule lfu_repI)
  show "snd (lfu_erase_ghost s k) \<longleftrightarrow> k \<in> set (fs_ghosts a)" using er(3) by (simp add: a)
qed

lemma fs_keys_ok_remove_ghost:
  "fs_keys_ok a \<Longrightarrow> fs_keys_ok (a\<lparr>fs_ghosts := removeAll k (fs_ghosts a)\<rparr>)"
  using order_trans [OF length_removeAll_less_eq] by (auto simp: fs_keys_ok_def distinct_removeAll)

lemma fs_evict_keys: "fst ` set (fs_entries (fs_evict a)) \<subseteq> fst ` set (fs_entries a)"
  by (auto simp: fs_evict_def Let_def without_def)

lemma lfu_put_rep:
  assumes rep: "lfu_rep s a" and ok: "fs_keys_ok a"
  shows "\<exists>s'. lfu_put s k v = Some (s', snd (fs_put a k v)) \<and> lfu_rep s' (fst (fs_put a k v))"
proof (cases "lfu_cap s = 0")
  case True
  then show ?thesis using rep lfu_rep_fields(1) [OF rep] by (simp add: lfu_put_def fs_put_def)
next
  case cap: False
  show ?thesis
  proof (cases "map_of (lfu_main s) k")
    case (Some p)
    then show ?thesis
      using lfu_update_existing_node_rep [OF rep Some, of v] cap lfu_rep_fields(1) [OF rep]
      by (auto simp: lfu_put_def fs_put_def)
  next
    case None
    define s1 where "s1 = fst (lfu_erase_ghost s k)"
    define a1 where "a1 = a\<lparr>fs_ghosts := removeAll k (fs_ghosts a)\<rparr>"
    have rep1: "lfu_rep s1 a1" and ok1: "fs_keys_ok a1"
      using lfu_erase_ghost_rep(1) [OF rep] fs_keys_ok_remove_ghost [OF ok] by (simp_all add: s1_def a1_def)
    define a2 where "a2 = (if length (fs_entries a1) \<ge> fs_cap a1 then fs_evict a1 else a1)"
    have "\<exists>s2. (if length (lfu_main s1) \<ge> lfu_cap s1 then lfu_evict_least_frequent s1 else Some s1) = Some s2
        \<and> lfu_rep s2 a2"
      using rep1 lfu_evict_rep [OF rep1 ok1] lfu_rep_fields(1,4) [OF rep1] by (simp add: a2_def)
    then obtain s2 where
      s2: "(if length (lfu_main s1) \<ge> lfu_cap s1 then lfu_evict_least_frequent s1 else Some s1) = Some s2"
      and rep2: "lfu_rep s2 a2" by blast
    have none: "map_of (fs_entries a) k = None" using lfu_rep_fields(6) [OF rep] None by blast
    then have "k \<notin> fst ` set (fs_entries a2)"
      using fs_evict_keys [of a1] by (auto simp: a2_def a1_def map_of_eq_None_iff)
    from lfu_insert_rep [OF rep2 this, of v] obtain s' where "lfu_add_new_node s1 k v = Some (s', True)"
      and rep': "lfu_rep s' (a2\<lparr>fs_entries := fs_entries a2 @ [(k, v, 1)]\<rparr>)"
      unfolding lfu_add_new_node_def s2 by (simp add: Let_def)
    moreover have "fs_put a k v = (a2\<lparr>fs_entries := fs_entries a2 @ [(k, v, 1)]\<rparr>, True)"
      using cap lfu_rep_fields(1) [OF rep] none by (simp add: fs_put_def Let_def a2_def a1_def)
    ultimately show ?thesis using None cap by (simp add: lfu_put_def s1_def)
  qed
qed

lemma without_id: "k \<notin> fst ` set es \<Longrightarrow> without k es = es"
  unfolding without_def by (intro filter_True) force

text \<open>The removal of a resident key by \<^const>\<open>lfu_invalidate\<close>.\<close>

lemma lfu_invalidate_main:
  fixes s :: "('k, 'v) arc_lfu"
  assumes rep: "lfu_rep s a" and k: "map_of (lfu_main s) k = Some p"
  defines "f \<equiv> fcount s p"
  defines "s1 \<equiv> (case map_of (lfu_freq_map s) f of None \<Rightarrow> s
      | Some b \<Rightarrow> let b = removeAll p b; fm = omap_set f b (lfu_freq_map s)
                  in s\<lparr>lfu_freq_map := (if b = [] then AList.delete f fm else fm)\<rparr>)"
  defines "s2 \<equiv> s1\<lparr>lfu_main := AList.delete k (lfu_main s1)\<rparr>"
  shows "lfu_rep (s2\<lparr>lfu_min_freq := (if lfu_freq_map s2 = [] then 0 else fst (hd (lfu_freq_map s2)))\<rparr>)
    (a\<lparr>fs_entries := without k (fs_entries a)\<rparr>)"
proof -
  obtain xs gs where at: "lfu_at s xs gs" and a: "a = lfu_view s xs gs" using rep by (rule lfu_repE)
  have mat: "lfu_main_at s xs" using at by (simp add: lfu_at_def)
  then have fr: "freq_ok (lfu_freq_map s) (fcount s) xs" and idx: "index_ok (lfu_main s) (fmain_key s) xs"
    by (simp_all add: lfu_main_at_def)
  note p = lfu_lookup_at [OF at k]
  define b where "b = removeAll p (filter (\<lambda>q. fcount s q = f) xs)"
  define fm where "fm = (if b = [] then AList.delete f (omap_set f b (lfu_freq_map s)) else omap_set f b (lfu_freq_map s))"
  note drop = lfu_drop_main [OF mat p(1), folded f_def, folded b_def, folded fm_def, unfolded p(2)]
  have "map_of (lfu_freq_map s) f = Some (filter (\<lambda>q. fcount s q = f) xs)"
    using freq_ok_at [OF fr p(1)] by (simp add: f_def)
  then have s1: "s1 = s\<lparr>lfu_freq_map := fm\<rparr>"
    by (simp add: s1_def Let_def fm_def b_def)
  define t where "t = s2\<lparr>lfu_min_freq := (if lfu_freq_map s2 = [] then 0 else fst (hd (lfu_freq_map s2)))\<rparr>"
  have t: "t = s\<lparr>lfu_freq_map := fm, lfu_main := AList.delete k (lfu_main s),
      lfu_min_freq := (if fm = [] then 0 else fst (hd fm))\<rparr>"
    by (simp add: t_def s2_def s1)
  have "lfu_at t (remove1 p xs) gs"
    using at drop(1,2) freq_ok_first [OF drop(2)] freq_ok_empty [OF drop(2)]
    by (auto simp: t lfu_at_def lfu_main_at_def lfu_ghost_at_def dest: notin_set_remove1)
  moreover have "lfu_view t (remove1 p xs) gs = a\<lparr>fs_entries := without k (fs_entries a)\<rparr>"
    using map_content_without [of "fmain_key s" xs p "\<lambda>q. content (lfu_nodes s q)"] idx p(1,2)
    by (simp add: t lfu_view_def a index_ok_def)
  ultimately show ?thesis unfolding t_def [symmetric] by (rule lfu_repI)
qed

lemma lfu_invalidate_rep:
  assumes rep: "lfu_rep s a"
  shows "lfu_rep (fst (lfu_invalidate s k)) (fst (fs_invalidate a k))
    \<and> snd (lfu_invalidate s k) = snd (fs_invalidate a k)"
proof (cases "map_of (lfu_main s) k")
  case None
  then have "k \<notin> fst ` set (fs_entries a)" using lfu_rep_fields(6) [OF rep] by (simp add: map_of_eq_None_iff)
  then show ?thesis
    using None lfu_erase_ghost_rep [OF rep, of k]
    by (simp add: lfu_invalidate_def fs_invalidate_def without_id split_beta)
next
  case (Some p)
  then have "map_of (fs_entries a) k \<noteq> None" using lfu_rep_fields(6) [OF rep, of k] by simp
  then have kin: "k \<in> fst ` set (fs_entries a)" by (simp add: map_of_eq_None_iff)
  note er = lfu_erase_ghost_rep [OF lfu_invalidate_main [OF rep Some], of k]
  show ?thesis
    using er(1) kin unfolding lfu_invalidate_def Some option.case fs_invalidate_def
    by (simp add: split_beta Let_def)
qed

lemma lfu_shrink_rep:
  "lfu_rep s a \<Longrightarrow> fs_keys_ok a \<Longrightarrow> \<exists>s'. lfu_shrink s = Some s' \<and> lfu_rep s' (fs_shrink a)"
proof (induction a arbitrary: s rule: fs_shrink.induct)
  case (1 a)
  have len: "length (lfu_main s) > lfu_cap s \<longleftrightarrow> length (fs_entries a) > fs_cap a"
    using lfu_rep_fields(1,4) [OF 1(2)] by simp
  show ?case
  proof (cases "length (fs_entries a) > fs_cap a")
    case True
    obtain t where t: "lfu_evict_least_frequent s = Some t" "lfu_rep t (fs_evict a)"
      using lfu_evict_rep [OF 1(2,3)] by blast
    then have "\<exists>s'. lfu_shrink t = Some s' \<and> lfu_rep s' (fs_shrink (fs_evict a))"
      using 1(1) True fs_keys_ok_evict [OF 1(3)] by blast
    with True len t(1) show ?thesis by (simp add: lfu_shrink.simps [of s] fs_shrink.simps [of a])
  next
    case False
    with len 1(2) show ?thesis by (simp add: lfu_shrink.simps [of s] fs_shrink.simps [of a])
  qed
qed

lemma lfu_rep_cap: "lfu_rep s a \<Longrightarrow> lfu_rep (s\<lparr>lfu_cap := n\<rparr>) (a\<lparr>fs_cap := n\<rparr>)"
  by (auto elim!: lfu_repE simp: lfu_at_def lfu_main_at_def lfu_ghost_at_def lfu_view_def intro!: lfu_repI)

lemma lfu_decrease_rep:
  assumes "lfu_rep s a" and "fs_keys_ok a"
  shows "\<exists>s'. lfu_decrease_capacity s = Some (s', snd (fs_decrease a)) \<and> lfu_rep s' (fst (fs_decrease a))"
proof -
  have "lfu_rep (s\<lparr>lfu_cap := lfu_cap s - 1\<rparr>) (a\<lparr>fs_cap := fs_cap a - 1\<rparr>)"
    using lfu_rep_cap [OF assms(1), of "lfu_cap s - 1"] lfu_rep_fields(1) [OF assms(1)] by simp
  moreover have "fs_keys_ok (a\<lparr>fs_cap := fs_cap a - 1\<rparr>)" using assms(2) by (simp add: fs_keys_ok_def)
  ultimately have "\<exists>s'. lfu_shrink (s\<lparr>lfu_cap := lfu_cap s - 1\<rparr>) = Some s'
      \<and> lfu_rep s' (fs_shrink (a\<lparr>fs_cap := fs_cap a - 1\<rparr>))"
    by (rule lfu_shrink_rep)
  with assms(1) lfu_rep_fields(1) [OF assms(1)] show ?thesis
    by (auto simp: lfu_decrease_capacity_def fs_decrease_def)
qed

lemma new_arc_lfu_rep:
  "lfu_rep (new_arc_lfu dk dv c th g)
     \<lparr>fs_cap = c, fs_gcap = g, fs_trans = th, fs_entries = [], fs_ghosts = []\<rparr>"
proof (rule lfu_repI [of _ "[]" "[]"])
  show "lfu_at (new_arc_lfu dk dv c th g) [] []"
    by (simp add: lfu_at_def lfu_main_at_def lfu_ghost_at_def keyed_list_def new_arc_lfu_def dll_def sentinels_def
        set_next_def set_prev_def index_ok_def freq_ok_def slots_def fun_eq_iff)
qed (simp add: lfu_view_def new_arc_lfu_def)

section \<open>The partition contract\<close>

definition lfu_lookup :: "('k, 'v) arc_lfu \<Rightarrow> 'k \<Rightarrow> 'v option" where
  "lfu_lookup s k = map_option (\<lambda>p. nd_value (lfu_nodes s p)) (map_of (lfu_main s) k)"

definition lfu_ghost_keys :: "('k, 'v) arc_lfu \<Rightarrow> 'k set" where
  "lfu_ghost_keys s = fst ` set (lfu_ghost s)"

definition lfu_inv :: "('k, 'v) arc_lfu \<Rightarrow> bool" where
  "lfu_inv s \<longleftrightarrow> (\<exists>a. lfu_rep s a \<and> fs_inv a)"

lemma lfu_lookup_rep_eq:
  assumes "lfu_rep s a"
  shows "lfu_lookup s = entry_map (fs_entries a)"
proof
  fix k
  obtain xs gs where at: "lfu_at s xs gs" and a: "a = lfu_view s xs gs" using assms by (rule lfu_repE)
  show "lfu_lookup s k = entry_map (fs_entries a) k"
  proof (cases "map_of (lfu_main s) k")
    case None
    then show ?thesis using lfu_rep_fields(6) [OF assms, of k] by (simp add: lfu_lookup_def entry_map_def)
  next
    case (Some p)
    then show ?thesis using lfu_lookup_at(3) [OF at Some] by (simp add: lfu_lookup_def entry_map_def a)
  qed
qed

lemma lfu_ghost_keys_rep: "lfu_rep s a \<Longrightarrow> lfu_ghost_keys s = set (fs_ghosts a)"
  by (simp add: lfu_ghost_keys_def lfu_rep_fields)

lemma lfu_invE:
  assumes "lfu_inv s"
  obtains a where "lfu_rep s a" "fs_inv a" "fs_keys_ok a" "lfu_lookup s = entry_map (fs_entries a)"
    "lfu_ghost_keys s = set (fs_ghosts a)" "lfu_cap s = fs_cap a" "lfu_ghost_cap s = fs_gcap a"
    "lfu_trans s = fs_trans a"
proof -
  obtain a where a: "lfu_rep s a" "fs_inv a" using assms by (auto simp: lfu_inv_def)
  show ?thesis
    by (rule that [OF a _ lfu_lookup_rep_eq [OF a(1)] lfu_ghost_keys_rep [OF a(1)] lfu_rep_fields(1-3) [OF a(1)]])
      (use a(2) in \<open>simp add: fs_inv_def\<close>)
qed

lemma lfu_invI: "lfu_rep s a \<Longrightarrow> fs_inv a \<Longrightarrow> lfu_inv s"
  by (auto simp: lfu_inv_def)

lemma entry_map_append: "k \<notin> fst ` set es \<Longrightarrow> entry_map (es @ [(k, v, c)]) = (entry_map es)(k \<mapsto> v)"
proof -
  assume "k \<notin> fst ` set es"
  then have "map_of es k = None" by (simp add: map_of_eq_None_iff)
  then show ?thesis by (auto simp: entry_map_def fun_eq_iff map_add_def split: option.split)
qed

lemma entry_map_restrict: "entry_map (without k es) = entry_map es |` (- {k})"
  by (auto simp: entry_map_without restrict_map_def fun_eq_iff)

lemma fs_evict_ghosts:
  assumes "fs_entries a \<noteq> []"
  shows "set (fs_ghosts (fs_evict a)) \<subseteq> set (fs_ghosts a) \<union> {fst (fs_victim (fs_entries a))}"
    and "fs_gcap a = 0 \<or> fst (fs_victim (fs_entries a)) \<in> set (fs_ghosts (fs_evict a))"
  using assms set_tl_subset [of "fs_ghosts a"] by (auto simp: fs_evict_def Let_def)

lemma fs_inv_access:
  fixes a :: "('k, 'v) lfu_spec" and v :: 'v and c :: nat
  assumes inv: "fs_inv a" and kin: "k \<in> fst ` set (fs_entries a)"
  defines "b \<equiv> a\<lparr>fs_entries := without k (fs_entries a) @ [(k, v, c)]\<rparr>"
  shows "fs_inv b" "entry_map (fs_entries b) = (entry_map (fs_entries a))(k \<mapsto> v)"
proof -
  show "fs_inv b"
    using inv length_without_in [OF kin] kin
    by (auto simp: b_def fs_inv_def fs_keys_ok_def keys_without distinct_without)
  have "k \<notin> fst ` set (without k (fs_entries a))" by (simp add: keys_without)
  then show "entry_map (fs_entries b) = (entry_map (fs_entries a))(k \<mapsto> v)"
    by (simp add: b_def entry_map_append entry_map_without)
qed

lemma fs_put_resident:
  fixes a :: "('k, 'v) lfu_spec" and v :: 'v
  assumes inv: "fs_inv a" and cap: "fs_cap a \<noteq> 0" and k: "map_of (fs_entries a) k = Some (v0, c)"
  defines "b \<equiv> fst (fs_put a k v)"
  shows "snd (fs_put a k v)" "fs_inv b" "fs_cap b = fs_cap a" "fs_gcap b = fs_gcap a" "fs_trans b = fs_trans a"
    "entry_map (fs_entries b) = (entry_map (fs_entries a))(k \<mapsto> v)" "fs_ghosts b = fs_ghosts a"
proof -
  have b: "b = a\<lparr>fs_entries := without k (fs_entries a) @ [(k, v, c + 1)]\<rparr>" "snd (fs_put a k v)"
    using cap k by (simp_all add: b_def fs_put_def)
  have kin: "k \<in> fst ` set (fs_entries a)" using k by (force dest: map_of_SomeD)
  show "snd (fs_put a k v)" "fs_cap b = fs_cap a" "fs_gcap b = fs_gcap a" "fs_trans b = fs_trans a"
    "fs_ghosts b = fs_ghosts a" using b by simp_all
  show "fs_inv b" "entry_map (fs_entries b) = (entry_map (fs_entries a))(k \<mapsto> v)"
    using fs_inv_access [OF inv kin] by (simp_all add: b)
qed

lemma fs_put_new:
  fixes a :: "('k, 'v) lfu_spec" and v :: 'v
  assumes inv: "fs_inv a" and cap: "fs_cap a \<noteq> 0" and k: "map_of (fs_entries a) k = None"
  defines "b \<equiv> fst (fs_put a k v)"
  defines "ev \<equiv> (if length (fs_entries a) \<ge> fs_cap a then {fst (fs_victim (fs_entries a))} else {})"
  shows "snd (fs_put a k v)" "fs_inv b" "fs_cap b = fs_cap a" "fs_gcap b = fs_gcap a" "fs_trans b = fs_trans a"
    "ev \<subseteq> dom (entry_map (fs_entries a)) - {k}"
    "entry_map (fs_entries b) = (entry_map (fs_entries a) |` (- ev))(k \<mapsto> v)"
    "set (fs_ghosts b) \<subseteq> set (fs_ghosts a) - {k} \<union> ev" "fs_gcap a = 0 \<or> ev \<subseteq> set (fs_ghosts b)"
    "ev = {} \<or> card (dom (entry_map (fs_entries a))) = fs_cap a"
proof -
  define a1 where "a1 = a\<lparr>fs_ghosts := removeAll k (fs_ghosts a)\<rparr>"
  define full where "full = (length (fs_entries a) \<ge> fs_cap a)"
  define w where "w = fst (fs_victim (fs_entries a))"
  define a2 where "a2 = (if full then fs_evict a1 else a1)"
  have ok: "fs_keys_ok a" and len: "length (fs_entries a) \<le> fs_cap a" using inv by (simp_all add: fs_inv_def)
  have b: "b = a2\<lparr>fs_entries := fs_entries a2 @ [(k, v, 1)]\<rparr>" "snd (fs_put a k v)"
    using cap k by (simp_all add: b_def fs_put_def Let_def a2_def a1_def full_def)
  have ok1: "fs_keys_ok a1" unfolding a1_def by (rule fs_keys_ok_remove_ghost [OF ok])
  have ok2: "fs_keys_ok a2" using ok1 fs_keys_ok_evict [OF ok1] by (simp add: a2_def)
  have knot: "k \<notin> fst ` set (fs_entries a)" using k by (simp add: map_of_eq_None_iff)
  have ne: "fs_entries a \<noteq> []" if full using that cap by (auto simp: full_def)
  have es2: "fs_entries a2 = (if full then without w (fs_entries a) else fs_entries a)"
    using ne fs_evict_entries [of a1] by (simp add: a2_def a1_def w_def)
  have dist: "distinct (map fst (fs_entries a))" using ok by (simp add: fs_keys_ok_def)
  have win: "w \<in> fst ` set (fs_entries a)" if full using fs_victim_in(1) [OF ne [OF that]] by (simp add: w_def)
  have ev: "ev = (if full then {w} else {})" by (simp add: ev_def full_def w_def)
  have g2: "set (fs_ghosts a2) \<subseteq> set (fs_ghosts a) - {k} \<union> ev" "fs_gcap a = 0 \<or> ev \<subseteq> set (fs_ghosts a2)"
    using fs_evict_ghosts [of a1] ne by (auto simp: a2_def a1_def ev w_def)
  have knot2: "k \<notin> fst ` set (fs_entries a2)" using knot by (auto simp: es2 without_def)
  show "snd (fs_put a k v)" by (rule b(2))
  show "fs_cap b = fs_cap a" "fs_gcap b = fs_gcap a" "fs_trans b = fs_trans a" by (simp_all add: b a2_def a1_def)
  show evsub: "ev \<subseteq> dom (entry_map (fs_entries a)) - {k}" using win knot by (auto simp: ev dom_entry_map)
  have "entry_map (fs_entries a2) = entry_map (fs_entries a) |` (- ev)"
    by (cases full) (simp_all add: es2 ev entry_map_restrict restrict_map_def)
  then show "entry_map (fs_entries b) = (entry_map (fs_entries a) |` (- ev))(k \<mapsto> v)"
    using entry_map_append [OF knot2] by (simp add: b)
  show "set (fs_ghosts b) \<subseteq> set (fs_ghosts a) - {k} \<union> ev" "fs_gcap a = 0 \<or> ev \<subseteq> set (fs_ghosts b)"
    using g2 by (simp_all add: b)
  show "ev = {} \<or> card (dom (entry_map (fs_entries a))) = fs_cap a"
    using len card_keys [OF dist] by (auto simp: ev full_def dom_entry_map)
  have "k \<notin> set (fs_ghosts a2)" using g2(1) evsub by blast
  moreover have "fs_cap a2 = fs_cap a" by (simp add: a2_def a1_def)
  then have "length (fs_entries a2) < fs_cap a2"
    using len length_without_in [OF win] es2 by (cases full) (auto simp: full_def)
  ultimately show "fs_inv b"
    using ok2 knot2 by (simp add: b fs_inv_def fs_keys_ok_def)
qed

lemma fs_shrink_evicts:
  assumes ok: "fs_keys_ok a" and len: "length (fs_entries a) \<le> Suc (fs_cap a)"
  defines "b \<equiv> fs_shrink a"
  defines "ev \<equiv> (if length (fs_entries a) > fs_cap a then {fst (fs_victim (fs_entries a))} else {})"
  shows "fs_inv b" "fs_cap b = fs_cap a" "fs_gcap b = fs_gcap a" "fs_trans b = fs_trans a"
    "ev \<subseteq> dom (entry_map (fs_entries a))" "entry_map (fs_entries b) = entry_map (fs_entries a) |` (- ev)"
    "set (fs_ghosts b) \<subseteq> set (fs_ghosts a) \<union> ev" "fs_gcap a = 0 \<or> ev \<subseteq> set (fs_ghosts b)"
proof -
  define full where "full = (length (fs_entries a) > fs_cap a)"
  define w where "w = fst (fs_victim (fs_entries a))"
  have ev: "ev = (if full then {w} else {})" by (simp add: ev_def full_def w_def)
  have ne: "fs_entries a \<noteq> []" if full using that by (auto simp: full_def)
  have win: "w \<in> fst ` set (fs_entries a)" if full using fs_victim_in(1) [OF ne [OF that]] by (simp add: w_def)
  have es: "fs_entries (fs_evict a) = without w (fs_entries a)" if full
    using fs_evict_entries [OF ne [OF that]] by (simp add: w_def)
  have "length (fs_entries (fs_evict a)) \<le> fs_cap a" if full
    using length_without_in [OF win [OF that]] len es [OF that] by simp
  then have b: "b = (if full then fs_evict a else a)" and len': "length (fs_entries b) \<le> fs_cap a"
    by (auto simp: b_def full_def fs_shrink.simps [of a] fs_shrink.simps [of "fs_evict a"])
  show "fs_cap b = fs_cap a" "fs_gcap b = fs_gcap a" "fs_trans b = fs_trans a" by (simp_all add: b)
  show "fs_inv b" using ok fs_keys_ok_evict [OF ok] len' by (auto simp: b fs_inv_def)
  show "ev \<subseteq> dom (entry_map (fs_entries a))" using win by (auto simp: ev dom_entry_map)
  show "entry_map (fs_entries b) = entry_map (fs_entries a) |` (- ev)"
    using es by (auto simp: b ev entry_map_restrict)
  show "set (fs_ghosts b) \<subseteq> set (fs_ghosts a) \<union> ev" "fs_gcap a = 0 \<or> ev \<subseteq> set (fs_ghosts b)"
    using fs_evict_ghosts [OF ne] by (auto simp: b ev w_def)
qed

interpretation lfu: arc_partition lfu_inv lfu_lookup lfu_ghost_keys lfu_cap lfu_ghost_cap
  lfu_put lfu_contain lfu_check_ghost lfu_invalidate lfu_increase_capacity lfu_decrease_capacity
proof
  fix s :: "('k, 'v) arc_lfu" and k :: 'k and v :: 'v
  assume "lfu_inv s"
  then obtain a where rep: "lfu_rep s a" and inv: "fs_inv a" and ok: "fs_keys_ok a"
    and look: "lfu_lookup s = entry_map (fs_entries a)" and gh: "lfu_ghost_keys s = set (fs_ghosts a)"
    and cap: "lfu_cap s = fs_cap a" and gcap: "lfu_ghost_cap s = fs_gcap a"
    by (rule lfu_invE)
  have dist: "distinct (map fst (fs_entries a))" "distinct (fs_ghosts a)" using ok by (simp_all add: fs_keys_ok_def)
  note look' = lfu_lookup_rep_eq and gh' = lfu_ghost_keys_rep and fields = lfu_rep_fields(1,2)
  show "finite (dom (lfu_lookup s)) \<and> card (dom (lfu_lookup s)) \<le> lfu_cap s"
    using inv card_keys [OF dist(1)] by (simp add: look dom_entry_map cap fs_inv_def)
  show "finite (lfu_ghost_keys s) \<and> card (lfu_ghost_keys s) \<le> lfu_ghost_cap s"
    using ok dist by (simp add: gh gcap fs_keys_ok_def distinct_card)
  show "dom (lfu_lookup s) \<inter> lfu_ghost_keys s = {}"
    using ok by (simp add: look gh dom_entry_map fs_keys_ok_def)
  show "lfu_contain s k \<longleftrightarrow> lfu_lookup s k \<noteq> None"
    by (simp add: lfu_contain_def lfu_lookup_def)
  show "lfu_put s k v = Some (s, False)" if "lfu_cap s = 0" using that by (simp add: lfu_put_def)
  show "\<exists>s'. lfu_check_ghost s k = (s', k \<in> lfu_ghost_keys s) \<and> lfu_inv s' \<and> lfu_cap s' = lfu_cap s
      \<and> lfu_ghost_cap s' = lfu_ghost_cap s \<and> lfu_lookup s' = lfu_lookup s
      \<and> lfu_ghost_keys s' = lfu_ghost_keys s - {k}"
  proof (intro exI conjI)
    note er = lfu_erase_ghost_rep [OF rep, of k]
    let ?s = "fst (lfu_erase_ghost s k)"
    show "lfu_check_ghost s k = (?s, k \<in> lfu_ghost_keys s)"
      using er(2) by (simp add: lfu_check_ghost_def gh prod_eq_iff)
    show "lfu_inv ?s"
      using er(1) inv fs_keys_ok_remove_ghost [OF ok, of k] by (auto intro!: lfu_invI simp: fs_inv_def)
    show "lfu_lookup ?s = lfu_lookup s" "lfu_ghost_keys ?s = lfu_ghost_keys s - {k}"
      "lfu_cap ?s = lfu_cap s" "lfu_ghost_cap ?s = lfu_ghost_cap s"
      using look' [OF er(1)] gh' [OF er(1)] fields [OF er(1)] by (simp_all add: look gh cap gcap)
  qed
  show "\<exists>s'. lfu_invalidate s k = (s', lfu_lookup s k \<noteq> None \<or> k \<in> lfu_ghost_keys s) \<and> lfu_inv s'
      \<and> lfu_cap s' = lfu_cap s \<and> lfu_ghost_cap s' = lfu_ghost_cap s
      \<and> lfu_lookup s' = (lfu_lookup s)(k := None) \<and> lfu_ghost_keys s' = lfu_ghost_keys s - {k}"
  proof (intro exI conjI)
    note er = lfu_invalidate_rep [OF rep, of k, THEN conjunct1] lfu_invalidate_rep [OF rep, of k, THEN conjunct2]
    let ?s = "fst (lfu_invalidate s k)" and ?a = "fst (fs_invalidate a k)"
    have "k \<in> fst ` set (fs_entries a) \<longleftrightarrow> lfu_lookup s k \<noteq> None"
      using dom_entry_map [of "fs_entries a"] by (auto simp: look)
    then show "lfu_invalidate s k = (?s, lfu_lookup s k \<noteq> None \<or> k \<in> lfu_ghost_keys s)"
      using er(2) by (simp add: fs_invalidate_def gh prod_eq_iff)
    show "lfu_inv ?s"
    proof (rule lfu_invI [OF er(1)])
      have "length (removeAll k (fs_ghosts a)) \<le> fs_gcap a"
        using ok order_trans [OF length_removeAll_less_eq] by (auto simp: fs_keys_ok_def)
      with inv order_trans [OF length_without [of k "fs_entries a"]] show "fs_inv ?a"
        by (auto simp: fs_invalidate_def fs_inv_def fs_keys_ok_def keys_without distinct_without distinct_removeAll)
    qed
    show "lfu_lookup ?s = (lfu_lookup s)(k := None)" "lfu_ghost_keys ?s = lfu_ghost_keys s - {k}"
      "lfu_cap ?s = lfu_cap s" "lfu_ghost_cap ?s = lfu_ghost_cap s"
      using look' [OF er(1)] gh' [OF er(1)] fields [OF er(1)]
      by (simp_all add: look gh cap gcap fs_invalidate_def entry_map_without)
  qed
  show "lfu_inv (lfu_increase_capacity s) \<and> lfu_cap (lfu_increase_capacity s) = lfu_cap s + 1
      \<and> lfu_ghost_cap (lfu_increase_capacity s) = lfu_ghost_cap s
      \<and> lfu_lookup (lfu_increase_capacity s) = lfu_lookup s
      \<and> lfu_ghost_keys (lfu_increase_capacity s) = lfu_ghost_keys s"
  proof -
    have "lfu_rep (lfu_increase_capacity s) (a\<lparr>fs_cap := fs_cap a + 1\<rparr>)"
      using lfu_rep_cap [OF rep, of "fs_cap a + 1"] by (simp add: lfu_increase_capacity_def cap)
    moreover have "fs_inv (a\<lparr>fs_cap := fs_cap a + 1\<rparr>)" using inv by (simp add: fs_inv_def fs_keys_ok_def)
    ultimately have "lfu_inv (lfu_increase_capacity s)" by (rule lfu_invI)
    moreover have "lfu_lookup (lfu_increase_capacity s) k = lfu_lookup s k" for k
      by (simp add: lfu_lookup_def lfu_increase_capacity_def)
    ultimately show ?thesis by (auto simp: lfu_increase_capacity_def lfu_ghost_keys_def)
  qed
  show "lfu_decrease_capacity s = Some (s, False)" if "lfu_cap s = 0"
    using that by (simp add: lfu_decrease_capacity_def)
  show "\<exists>s' ev. lfu_decrease_capacity s = Some (s', True) \<and> lfu_inv s' \<and> lfu_cap s' = lfu_cap s - 1
      \<and> lfu_ghost_cap s' = lfu_ghost_cap s \<and> ev \<subseteq> dom (lfu_lookup s)
      \<and> lfu_lookup s' = lfu_lookup s |` (- ev) \<and> lfu_ghost_keys s' \<subseteq> lfu_ghost_keys s \<union> ev
      \<and> (ev = {} \<or> card (dom (lfu_lookup s)) = lfu_cap s) \<and> (lfu_ghost_cap s = 0 \<or> ev \<subseteq> lfu_ghost_keys s')"
    if c: "lfu_cap s \<noteq> 0"
  proof -
    define a1 where "a1 = a\<lparr>fs_cap := fs_cap a - 1\<rparr>"
    have ok1: "fs_keys_ok a1" and len1: "length (fs_entries a1) \<le> Suc (fs_cap a1)"
      using ok inv by (simp_all add: a1_def fs_keys_ok_def fs_inv_def)
    define ev where "ev = (if length (fs_entries a1) > fs_cap a1 then {fst (fs_victim (fs_entries a1))} else {})"
    note sh = fs_shrink_evicts [OF ok1 len1, folded ev_def]
    obtain s' where s': "lfu_decrease_capacity s = Some (s', True)" "lfu_rep s' (fs_shrink a1)"
      using lfu_decrease_rep [OF rep ok] c by (auto simp: fs_decrease_def cap a1_def)
    have "ev = {} \<or> card (dom (lfu_lookup s)) = lfu_cap s"
      using inv card_keys [OF dist(1)] by (auto simp: ev_def a1_def look dom_entry_map cap fs_inv_def)
    moreover have "lfu_inv s'" using s'(2) sh(1) by (rule lfu_invI)
    moreover have "lfu_cap s' = lfu_cap s - 1" "lfu_ghost_cap s' = lfu_ghost_cap s"
      using fields [OF s'(2)] sh(2,3) by (simp_all add: cap gcap a1_def)
    moreover have "ev \<subseteq> dom (lfu_lookup s)" "lfu_lookup s' = lfu_lookup s |` (- ev)"
      using look' [OF s'(2)] sh(5,6) by (simp_all add: look a1_def)
    moreover have "lfu_ghost_keys s' \<subseteq> lfu_ghost_keys s \<union> ev" "lfu_ghost_cap s = 0 \<or> ev \<subseteq> lfu_ghost_keys s'"
      using gh' [OF s'(2)] sh(7,8) by (simp_all add: gh gcap a1_def)
    ultimately show ?thesis using s'(1) by blast
  qed
  show "\<exists>s' ev. lfu_put s k v = Some (s', True) \<and> lfu_inv s' \<and> lfu_cap s' = lfu_cap s
      \<and> lfu_ghost_cap s' = lfu_ghost_cap s \<and> ev \<subseteq> dom (lfu_lookup s) - {k}
      \<and> lfu_lookup s' = (lfu_lookup s |` (- ev))(k \<mapsto> v) \<and> lfu_ghost_keys s' \<subseteq> lfu_ghost_keys s - {k} \<union> ev
      \<and> (ev = {} \<or> lfu_lookup s k = None \<and> card (dom (lfu_lookup s)) = lfu_cap s)
      \<and> (lfu_ghost_cap s = 0 \<or> ev \<subseteq> lfu_ghost_keys s')"
    if c: "lfu_cap s \<noteq> 0"
  proof -
    obtain s' where s': "lfu_put s k v = Some (s', snd (fs_put a k v))" "lfu_rep s' (fst (fs_put a k v))"
      using lfu_put_rep [OF rep ok] by blast
    have c': "fs_cap a \<noteq> 0" using c by (simp add: cap)
    note f = look' [OF s'(2)] gh' [OF s'(2)] fields [OF s'(2)]
    show ?thesis
    proof (cases "map_of (fs_entries a) k")
      case None
      define ev where "ev = (if length (fs_entries a) \<ge> fs_cap a then {fst (fs_victim (fs_entries a))} else {})"
      note p = fs_put_new [OF inv c' None, folded ev_def]
      have "lfu_lookup s k = None" using None by (simp add: look entry_map_def)
      with s' p f lfu_invI [OF s'(2) p(2)] show ?thesis
        by (intro exI [of _ s'] exI [of _ ev]) (simp add: look gh cap gcap)
    next
      case (Some vc)
      obtain v0 c0 where vc: "vc = (v0, c0)" by force
      note p = fs_put_resident [OF inv c' Some [unfolded vc]]
      have "k \<notin> set (fs_ghosts a)"
        using ok Some by (force simp: fs_keys_ok_def dest: map_of_SomeD)
      with s' p f lfu_invI [OF s'(2) p(2)] show ?thesis
        by (intro exI [of _ s'] exI [of _ "{}"]) (simp add: look gh cap gcap fun_eq_iff restrict_map_def)
    qed
  qed
qed

lemma lfu_get_law:
  fixes s :: "('k, 'v) arc_lfu" and k :: 'k
  assumes "lfu_inv s"
  defines "t \<equiv> fst (lfu_get s k)"
  shows "snd (lfu_get s k) = lfu_lookup s k" "lfu_inv t" "lfu_cap t = lfu_cap s" "lfu_ghost_cap t = lfu_ghost_cap s"
    "lfu_lookup t = lfu_lookup s" "lfu_ghost_keys t = lfu_ghost_keys s"
proof -
  obtain a where rep: "lfu_rep s a" and inv: "fs_inv a"
    and look: "lfu_lookup s = entry_map (fs_entries a)" and gh: "lfu_ghost_keys s = set (fs_ghosts a)"
    and cap: "lfu_cap s = fs_cap a" "lfu_ghost_cap s = fs_gcap a"
    using assms(1) by (rule lfu_invE)
  define b where "b = fst (fs_get a k)"
  have t: "lfu_rep t b" and r: "snd (lfu_get s k) = snd (fs_get a k)"
    using lfu_get_rep [OF rep] by (simp_all add: t_def b_def)
  have "fs_inv b \<and> entry_map (fs_entries b) = entry_map (fs_entries a) \<and> fs_cap b = fs_cap a
      \<and> fs_gcap b = fs_gcap a \<and> fs_ghosts b = fs_ghosts a \<and> snd (fs_get a k) = entry_map (fs_entries a) k"
  proof (cases "map_of (fs_entries a) k")
    case None
    with inv show ?thesis by (simp add: b_def fs_get_def entry_map_def)
  next
    case (Some vc)
    obtain v c where vc: "vc = (v, c)" by force
    have kin: "k \<in> fst ` set (fs_entries a)" using Some by (force dest: map_of_SomeD)
    have e: "entry_map (fs_entries a) k = Some v" by (simp add: entry_map_def Some vc)
    then have "(entry_map (fs_entries a))(k \<mapsto> v) = entry_map (fs_entries a)" by auto
    with fs_inv_access [OF inv kin, of v "c + 1"] e show ?thesis by (simp add: b_def fs_get_def Some vc)
  qed
  with r t show "snd (lfu_get s k) = lfu_lookup s k" "lfu_inv t" "lfu_cap t = lfu_cap s"
    "lfu_ghost_cap t = lfu_ghost_cap s" "lfu_lookup t = lfu_lookup s" "lfu_ghost_keys t = lfu_ghost_keys s"
    using lfu_lookup_rep_eq [OF t] lfu_ghost_keys_rep [OF t] lfu_rep_fields(1,2) [OF t]
    by (simp_all add: look gh cap lfu_invI [OF t])
qed

lemma lfu_inv_new: "lfu_inv (new_arc_lfu dk dv c th g)"
  by (rule lfu_invI [OF new_arc_lfu_rep]) (simp add: fs_inv_def fs_keys_ok_def)

lemma lfu_increase_rep:
  assumes "lfu_rep s a"
  shows "lfu_rep (lfu_increase_capacity s) (a\<lparr>fs_cap := fs_cap a + 1\<rparr>)"
  using lfu_rep_cap [OF assms, of "fs_cap a + 1"] lfu_rep_fields(1) [OF assms] by (simp add: lfu_increase_capacity_def)

lemma lfu_contain_rep: "lfu_rep s a \<Longrightarrow> lfu_contain s k \<longleftrightarrow> k \<in> fst ` set (fs_entries a)"
  using lfu_rep_fields(6) [of s a k] by (simp add: lfu_contain_def map_of_eq_None_iff)

section \<open>Properties\<close>

text \<open>
  C10. The LFU partition with its buckets implements the list specification. On every
  state that represents a well-formed specification state, each of its operations (storing,
  reading, asking for a key, invalidating, taking a ghost, growing and shrinking) returns, gives
  the answer of the specification, and ends in a state that represents its result; in particular
  the buckets, the least count and the index agree after every operation.
\<close>

theorem lfu_refines_spec:
  assumes "lfu_rep s a" and "fs_inv a"
  shows "(\<exists>s'. lfu_put s k v = Some (s', snd (fs_put a k v)) \<and> lfu_rep s' (fst (fs_put a k v)))
    \<and> lfu_rep (fst (lfu_get s k)) (fst (fs_get a k)) \<and> snd (lfu_get s k) = snd (fs_get a k)
    \<and> (\<exists>s'. lfu_decrease_capacity s = Some (s', snd (fs_decrease a)) \<and> lfu_rep s' (fst (fs_decrease a)))
    \<and> lfu_rep (fst (lfu_check_ghost s k)) (fst (fs_check_ghost a k))
    \<and> snd (lfu_check_ghost s k) = snd (fs_check_ghost a k)
    \<and> lfu_rep (fst (lfu_invalidate s k)) (fst (fs_invalidate a k))
    \<and> snd (lfu_invalidate s k) = snd (fs_invalidate a k)
    \<and> lfu_rep (lfu_increase_capacity s) (a\<lparr>fs_cap := fs_cap a + 1\<rparr>)
    \<and> lfu_contain s k = (k \<in> fst ` set (fs_entries a))"
  using lfu_put_rep [OF assms(1)] lfu_get_rep [OF assms(1)] lfu_decrease_rep [OF assms(1)]
    lfu_erase_ghost_rep [OF assms(1)] lfu_invalidate_rep [OF assms(1)] lfu_increase_rep [OF assms(1)]
    lfu_contain_rep [OF assms(1)] assms(2)
  by (simp add: fs_inv_def lfu_check_ghost_def fs_check_ghost_def)

theorem lfu_refines_spec_witness:
  "\<exists>s'. lfu_put (new_arc_lfu (0 :: nat) (0 :: nat) 1 2 1) 5 7 = Some (s', True)
     \<and> lfu_rep s' \<lparr>fs_cap = 1, fs_gcap = 1, fs_trans = 2, fs_entries = [(5, 7, 1)], fs_ghosts = []\<rparr>"
  using lfu_refines_spec [OF new_arc_lfu_rep [of "0 :: nat" "0 :: nat" 1 2 1], of 5 7]
  by (simp add: fs_inv_def fs_keys_ok_def fs_put_def)

text \<open>
  C20. Storing a new key into a full LFU partition evicts one entry, whose access count is
  the least of all and which was accessed before every other entry of that count; its key
  becomes the newest ghost and every other entry stays.
\<close>

theorem lfu_evicts_least_frequent:
  assumes "lfu_rep s a" and "fs_inv a" and "length (fs_entries a) = fs_cap a" and "fs_cap a \<noteq> 0"
    and "k \<notin> fst ` set (fs_entries a)" and "fs_gcap a \<noteq> 0"
  shows "\<exists>s' gs es e es'. lfu_put s k v = Some (s', True) \<and> fs_entries a = es @ e # es'
    \<and> lfu_rep s' (a\<lparr>fs_entries := es @ es' @ [(k, v, 1)], fs_ghosts := gs @ [fst e]\<rparr>)
    \<and> (\<forall>x \<in> set es. freq e < freq x) \<and> (\<forall>x \<in> set es'. freq e \<le> freq x)
    \<and> lfu_contain s' k \<and> \<not> lfu_contain s' (fst e)"
proof -
  let ?es = "fs_entries a"
  obtain s' where s': "lfu_put s k v = Some (s', snd (fs_put a k v))" "lfu_rep s' (fst (fs_put a k v))"
    using lfu_put_rep [OF assms(1)] assms(2) by (auto simp: fs_inv_def)
  have new: "map_of ?es k = None" using assms(5) by (simp add: map_of_eq_None_iff)
  have ne: "?es \<noteq> []" using assms(3,4) by auto
  have le: "least_freq ?es \<le> freq x" if "x \<in> set ?es" for x using that by (simp add: least_freq_def)
  have "\<exists>x \<in> set ?es. freq x = least_freq ?es" using fs_victim_in [OF ne] by blast
  then obtain es e es' where split: "?es = es @ e # es'" and e: "freq e = least_freq ?es"
    and before: "\<forall>x \<in> set es. freq x \<noteq> least_freq ?es"
    using split_list_first_prop [of ?es "\<lambda>x. freq x = least_freq ?es"] by blast
  define m where "m = least_freq ?es"
  have "fs_victim ?es = hd (filter (\<lambda>x. freq x = m) ?es)" by (simp add: fs_victim_def m_def)
  also have "filter (\<lambda>x. freq x = m) es = []" using before by (simp add: filter_empty_conv m_def)
  then have "hd (filter (\<lambda>x. freq x = m) ?es) = e" using e [folded m_def] unfolding split by simp
  finally have vic: "fs_victim ?es = e" .
  have dist: "distinct (map fst ?es)" using assms(2) by (simp add: fs_inv_def fs_keys_ok_def)
  have rest: "without (fst e) ?es = es @ es'"
  proof -
    have "fst e \<notin> fst ` set es" "fst e \<notin> fst ` set es'" using dist unfolding split by auto
    then show ?thesis unfolding split using without_id [of "fst e" es] without_id [of "fst e" es'] by (simp add: without_def)
  qed
  define gs where "gs = (let g = removeAll k (fs_ghosts a) in if length g \<ge> fs_gcap a then tl g else g)"
  have put: "fs_put a k v = (a\<lparr>fs_entries := es @ es' @ [(k, v, 1)], fs_ghosts := gs @ [fst e]\<rparr>, True)"
    unfolding fs_put_def new option.case Let_def
    using assms(3,4,6) ne by (simp add: Let_def fs_evict_def gs_def vic rest)
  have "freq e < freq x" if "x \<in> set es" for x
    using le [of x] before that e split by (metis Un_iff le_neq_implies_less set_append)
  moreover have "freq e \<le> freq x" if "x \<in> set es'" for x using le [of x] that e split by simp
  moreover have "fst e \<notin> fst ` set (es @ es' @ [(k, v, 1)])" using dist assms(5) unfolding split by auto
  then have "lfu_contain s' k \<and> \<not> lfu_contain s' (fst e)"
    using lfu_rep_fields(6) [OF s'(2), of k] lfu_rep_fields(6) [OF s'(2), of "fst e"]
    unfolding put fst_conv by (simp add: lfu_contain_def map_of_eq_None_iff image_Un)
  moreover have "lfu_put s k v = Some (s', True)"
    "lfu_rep s' (a\<lparr>fs_entries := es @ es' @ [(k, v, 1)], fs_ghosts := gs @ [fst e]\<rparr>)"
    using s' unfolding put by simp_all
  ultimately show ?thesis using split by blast
qed

theorem lfu_evicts_least_frequent_witness:
  "\<exists>t s'. lfu_put (new_arc_lfu (0 :: nat) (0 :: nat) 1 2 3) 5 7 = Some (t, True)
     \<and> lfu_put t 6 8 = Some (s', True) \<and> lfu_contain s' 6 \<and> \<not> lfu_contain s' 5"
proof -
  let ?a = "\<lparr>fs_cap = 1, fs_gcap = 3, fs_trans = 2, fs_entries = [(5, 7, 1)], fs_ghosts = []\<rparr> :: (nat, nat) lfu_spec"
  obtain t where t: "lfu_put (new_arc_lfu (0 :: nat) (0 :: nat) 1 2 3) 5 7 = Some (t, True)" "lfu_rep t ?a"
    using lfu_put_rep [OF new_arc_lfu_rep [of "0 :: nat" "0 :: nat" 1 2 3], of 5 7] by (auto simp: fs_keys_ok_def fs_put_def)
  show ?thesis
    using lfu_evicts_least_frequent [OF t(2), of 6 8] t(1)
    by (auto simp: fs_inv_def fs_keys_ok_def Cons_eq_append_conv)
qed

end
