(* ===== verification/Arc_Cache.thy ===== *)
theory Arc_Cache
  imports Arc_Lfu
begin

text \<open>
  The adaptive cache of \<^verbatim>\<open>inc/common/cache/arc_cache.h\<close>. \<^verbatim>\<open>ArcCache\<close> joins the two
  partitions: new keys enter the LRU side, keys read often enough move to the LFU side,
  and a store of a key that was evicted from one side moves one slot of capacity to that
  side. \<^verbatim>\<open>HashArcCache\<close> spreads keys over several such caches. The proofs rest on the
  contract of the partitions only; both caches fulfil the contract of a lossy map.
  \<^term>\<open>None\<close> is undefined behaviour or a loop that does not end, as in the partitions.
\<close>

section \<open>The cache\<close>

record ('k, 'v) arc_cache =
  ac_cap :: nat
  ac_trans :: nat
  ac_lru_cap :: nat
  ac_lru :: "('k, 'v) arc_lru"
  ac_lfu :: "('k, 'v) arc_lfu"

definition new_arc_cache :: "'k \<Rightarrow> 'v \<Rightarrow> nat \<Rightarrow> nat \<Rightarrow> ('k, 'v) arc_cache" where
  "new_arc_cache dk dv cap threshold =
     \<lparr>ac_cap = cap, ac_trans = threshold, ac_lru_cap = cap - cap div 2,
      ac_lru = new_arc_lru dk dv (cap - cap div 2) threshold cap,
      ac_lfu = new_arc_lfu dk dv (cap div 2) threshold cap\<rparr>"

datatype ghost_hit = Hit_None | Hit_Lru | Hit_Lfu

definition check_ghost_caches :: "('k, 'v) arc_cache \<Rightarrow> 'k \<Rightarrow> (('k, 'v) arc_cache \<times> ghost_hit) option" where
  "check_ghost_caches s key =
     (let (lru, hit) = lru_check_ghost (ac_lru s) key; s = s\<lparr>ac_lru := lru\<rparr>
      in if hit
         then do {
           (lfu, decreased) \<leftarrow> lfu_decrease_capacity (ac_lfu s);
           let s = s\<lparr>ac_lfu := lfu\<rparr>;
               s = (if decreased
                    then s\<lparr>ac_lru := lru_increase_capacity (ac_lru s), ac_lru_cap := ac_lru_cap s + 1\<rparr>
                    else s)
           in Some (s, Hit_Lru) }
         else
           let (lfu, hit) = lfu_check_ghost (ac_lfu s) key; s = s\<lparr>ac_lfu := lfu\<rparr>
           in if hit
              then if ac_lru_cap s > 1
                   then do {
                     (lru, decreased) \<leftarrow> lru_decrease_capacity (ac_lru s);
                     let s = s\<lparr>ac_lru := lru\<rparr>;
                         s = (if decreased
                              then s\<lparr>ac_lfu := lfu_increase_capacity (ac_lfu s), ac_lru_cap := ac_lru_cap s - 1\<rparr>
                              else s)
                     in Some (s, Hit_Lfu) }
                   else Some (s, Hit_Lfu)
              else Some (s, Hit_None))"

definition arc_put :: "('k, 'v) arc_cache \<Rightarrow> 'k \<Rightarrow> 'v \<Rightarrow> ('k, 'v) arc_cache option" where
  "arc_put s key v =
     (if ac_cap s = 0 then Some s
      else if lru_contain (ac_lru s) key
      then do { (lru, _) \<leftarrow> lru_put (ac_lru s) key v; Some (s\<lparr>ac_lru := lru\<rparr>) }
      else if lfu_contain (ac_lfu s) key
      then do { (lfu, _) \<leftarrow> lfu_put (ac_lfu s) key v; Some (s\<lparr>ac_lfu := lfu\<rparr>) }
      else do {
        (s, hit) \<leftarrow> check_ghost_caches s key;
        (s, done) \<leftarrow> (if hit = Hit_Lfu
                      then do { (lfu, stored) \<leftarrow> lfu_put (ac_lfu s) key v; Some (s\<lparr>ac_lfu := lfu\<rparr>, stored) }
                      else Some (s, False));
        if done then Some s
        else do { (lru, _) \<leftarrow> lru_put (ac_lru s) key v; Some (s\<lparr>ac_lru := lru\<rparr>) } })"

definition arc_get :: "('k, 'v) arc_cache \<Rightarrow> 'k \<Rightarrow> (('k, 'v) arc_cache \<times> 'v option) option" where
  "arc_get s key = do {
     (lru, r) \<leftarrow> lru_get (ac_lru s) key;
     let s = s\<lparr>ac_lru := lru\<rparr>
     in case r of
          Some (v, should_transform) \<Rightarrow>
            if should_transform
            then do {
              (lfu, stored) \<leftarrow> lfu_put (ac_lfu s) key v;
              let s = s\<lparr>ac_lfu := lfu\<rparr>
              in Some (if stored then s\<lparr>ac_lru := fst (lru_erase (ac_lru s) key)\<rparr> else s, Some v) }
            else Some (s, Some v)
        | None \<Rightarrow> let (lfu, r) = lfu_get (ac_lfu s) key in Some (s\<lparr>ac_lfu := lfu\<rparr>, r) }"

definition arc_get_or :: "'v \<Rightarrow> ('k, 'v) arc_cache \<Rightarrow> 'k \<Rightarrow> (('k, 'v) arc_cache \<times> 'v) option" where
  "arc_get_or dv s key = do { (s, r) \<leftarrow> arc_get s key; Some (s, case r of Some v \<Rightarrow> v | None \<Rightarrow> dv) }"

definition arc_erase :: "('k, 'v) arc_cache \<Rightarrow> 'k \<Rightarrow> ('k, 'v) arc_cache \<times> bool" where
  "arc_erase s key =
     (let (lru, lru_removed) = lru_invalidate (ac_lru s) key;
          (lfu, lfu_removed) = lfu_invalidate (ac_lfu s) key
      in (s\<lparr>ac_lru := lru, ac_lfu := lfu\<rparr>, lru_removed \<or> lfu_removed))"

section \<open>Invariant\<close>

definition lru_known :: "('k, 'v) arc_cache \<Rightarrow> 'k set" where
  "lru_known s = dom (lru_lookup (ac_lru s)) \<union> lru_ghost_keys (ac_lru s)"

definition lfu_known :: "('k, 'v) arc_cache \<Rightarrow> 'k set" where
  "lfu_known s = dom (lfu_lookup (ac_lfu s)) \<union> lfu_ghost_keys (ac_lfu s)"

definition arc_lookup :: "('k, 'v) arc_cache \<Rightarrow> 'k \<Rightarrow> 'v option" where
  "arc_lookup s = lfu_lookup (ac_lfu s) ++ lru_lookup (ac_lru s)"

definition arc_inv :: "('k, 'v) arc_cache \<Rightarrow> bool" where
  "arc_inv s \<longleftrightarrow> lru_inv (ac_lru s) \<and> lfu_inv (ac_lfu s)
     \<and> lru_cap (ac_lru s) + lfu_cap (ac_lfu s) = ac_cap s \<and> ac_lru_cap s = lru_cap (ac_lru s)
     \<and> lru_ghost_cap (ac_lru s) = ac_cap s \<and> lfu_ghost_cap (ac_lfu s) = ac_cap s
     \<and> (ac_cap s \<noteq> 0 \<longrightarrow> lru_cap (ac_lru s) \<noteq> 0) \<and> lru_known s \<inter> lfu_known s = {}"

lemmas arc_defs = arc_inv_def lru_known_def lfu_known_def

lemma arc_inv_new: "arc_inv (new_arc_cache dk dv c th)"
  using lru_inv_new [of dk dv "c - c div 2" th c] lfu_inv_new [of dk dv "c div 2" th c]
  by (auto simp: arc_inv_def new_arc_cache_def)
    (auto simp: lru_known_def lfu_known_def lru_lookup_def lru_ghost_keys_def lfu_lookup_def lfu_ghost_keys_def
      new_arc_lru_def new_arc_lfu_def dom_def)

lemma arc_lookup_new: "arc_lookup (new_arc_cache dk dv c th) = Map.empty"
  by (simp add: arc_lookup_def new_arc_cache_def lru_lookup_def lfu_lookup_def new_arc_lru_def new_arc_lfu_def
      fun_eq_iff map_add_def)

lemma arc_size:
  assumes "arc_inv s"
  shows "finite (dom (arc_lookup s))" "card (dom (arc_lookup s)) \<le> ac_cap s"
proof -
  have inv: "lru_inv (ac_lru s)" "lfu_inv (ac_lfu s)" "lru_cap (ac_lru s) + lfu_cap (ac_lfu s) = ac_cap s"
    using assms by (simp_all add: arc_inv_def)
  note a = lru.inv_size [OF inv(1)] and b = lfu.inv_size [OF inv(2)]
  have "card (dom (arc_lookup s)) \<le> card (dom (lru_lookup (ac_lru s))) + card (dom (lfu_lookup (ac_lfu s)))"
    unfolding arc_lookup_def dom_map_add by (rule card_Un_le)
  with a b inv(3) show "card (dom (arc_lookup s)) \<le> ac_cap s" by linarith
  show "finite (dom (arc_lookup s))" using a b by (simp add: arc_lookup_def)
qed

text \<open>Replacing one side by a state that knows no key of the other side.\<close>

lemma arc_inv_lru:
  assumes "arc_inv s" and "lru_inv l" and "lru_cap l = lru_cap (ac_lru s)"
    and "lru_ghost_cap l = lru_ghost_cap (ac_lru s)"
    and "(dom (lru_lookup l) \<union> lru_ghost_keys l) \<inter> lfu_known s = {}"
  shows "arc_inv (s\<lparr>ac_lru := l\<rparr>)"
  using assms by (simp add: arc_defs)

lemma arc_inv_lfu:
  assumes "arc_inv s" and "lfu_inv l" and "lfu_cap l = lfu_cap (ac_lfu s)"
    and "lfu_ghost_cap l = lfu_ghost_cap (ac_lfu s)"
    and "lru_known s \<inter> (dom (lfu_lookup l) \<union> lfu_ghost_keys l) = {}"
  shows "arc_inv (s\<lparr>ac_lfu := l\<rparr>)"
  using assms by (simp add: arc_defs)

lemma map_add_le:
  assumes "m' \<subseteq>\<^sub>m m" and "n' \<subseteq>\<^sub>m n" and "dom m \<inter> dom n = {}"
  shows "n' ++ m' \<subseteq>\<^sub>m n ++ m"
  unfolding map_le_def
proof
  fix x
  assume "x \<in> dom (n' ++ m')"
  show "(n' ++ m') x = (n ++ m) x"
  proof (cases "m' x")
    case None
    with \<open>x \<in> _\<close> have "x \<in> dom n'" by auto
    then have "n' x = n x" "x \<in> dom n" using assms(2) by (auto simp: map_le_def dom_def)
    then have "m x = None" using assms(3) by blast
    with None \<open>n' x = n x\<close> show ?thesis by (simp add: map_add_def)
  next
    case (Some v)
    with assms(1) have "m x = Some v" by (force simp: map_le_def)
    with Some show ?thesis by simp
  qed
qed

section \<open>Operations keep the invariant\<close>

lemma arc_invD:
  assumes "arc_inv s"
  shows "lru_inv (ac_lru s)" "lfu_inv (ac_lfu s)" "dom (lru_lookup (ac_lru s)) \<inter> dom (lfu_lookup (ac_lfu s)) = {}"
    "ac_cap s \<noteq> 0 \<Longrightarrow> lru_cap (ac_lru s) \<noteq> 0" "lru_known s \<inter> lfu_known s = {}"
  using assms by (auto simp: arc_defs)

text \<open>A store into one side of a key the other side does not know.\<close>

lemma arc_lru_store:
  assumes inv: "arc_inv s" and "ac_cap s \<noteq> 0" and k: "k \<notin> lfu_known s"
  shows "\<exists>l. lru_put (ac_lru s) k v = Some (l, True) \<and> arc_inv (s\<lparr>ac_lru := l\<rparr>)
    \<and> arc_lookup (s\<lparr>ac_lru := l\<rparr>) \<subseteq>\<^sub>m (arc_lookup s)(k \<mapsto> v) \<and> arc_lookup (s\<lparr>ac_lru := l\<rparr>) k = Some v
    \<and> lru_lookup l k = Some v \<and> lru_cap l = lru_cap (ac_lru s)"
proof -
  have cap: "lru_cap (ac_lru s) \<noteq> 0" using arc_invD(4) [OF inv assms(2)] .
  obtain l where l: "lru_put (ac_lru s) k v = Some (l, True)" "lru_inv l" "lru_cap l = lru_cap (ac_lru s)"
    "lru_ghost_cap l = lru_ghost_cap (ac_lru s)" "lru_lookup l k = Some v" "lru_lookup l \<subseteq>\<^sub>m (lru_lookup (ac_lru s))(k \<mapsto> v)"
    "dom (lru_lookup l) \<union> lru_ghost_keys l \<subseteq> insert k (dom (lru_lookup (ac_lru s)) \<union> lru_ghost_keys (ac_lru s))"
    by (rule lru.put_cases [OF arc_invD(1) [OF inv], of k v]) (use cap in auto)
  have "(dom (lru_lookup l) \<union> lru_ghost_keys l) \<inter> lfu_known s = {}"
    using l(7) k arc_invD(5) [OF inv] unfolding lru_known_def by blast
  then have "arc_inv (s\<lparr>ac_lru := l\<rparr>)" by (rule arc_inv_lru [OF inv l(2-4)])
  moreover have "arc_lookup (s\<lparr>ac_lru := l\<rparr>) \<subseteq>\<^sub>m (arc_lookup s)(k \<mapsto> v)"
  proof -
    have "dom ((lru_lookup (ac_lru s))(k \<mapsto> v)) \<inter> dom (lfu_lookup (ac_lfu s)) = {}"
      using k arc_invD(3) [OF inv] by (auto simp: lfu_known_def)
    then show ?thesis using map_add_le [OF l(6) map_le_refl] by (simp add: arc_lookup_def)
  qed
  ultimately show ?thesis using l(1,3,5) by (simp add: arc_lookup_def)
qed

lemma arc_lfu_store:
  assumes inv: "arc_inv s" and k: "k \<notin> lru_known s"
  shows "\<exists>l b. lfu_put (ac_lfu s) k v = Some (l, b) \<and> arc_inv (s\<lparr>ac_lfu := l\<rparr>)
    \<and> (if b then arc_lookup (s\<lparr>ac_lfu := l\<rparr>) \<subseteq>\<^sub>m (arc_lookup s)(k \<mapsto> v) \<and> arc_lookup (s\<lparr>ac_lfu := l\<rparr>) k = Some v
         \<and> lfu_lookup l k = Some v
       else l = ac_lfu s \<and> lfu_cap l = 0) \<and> lfu_cap l = lfu_cap (ac_lfu s)"
proof (rule lfu.put_cases [OF arc_invD(2) [OF inv], of k v])
  assume "lfu_cap (ac_lfu s) = 0" "lfu_put (ac_lfu s) k v = Some (ac_lfu s, False)"
  with inv show ?thesis by auto
next
  fix l
  assume l: "lfu_put (ac_lfu s) k v = Some (l, True)" "lfu_inv l" "lfu_cap l = lfu_cap (ac_lfu s)"
    "lfu_ghost_cap l = lfu_ghost_cap (ac_lfu s)" "lfu_lookup l k = Some v" "lfu_lookup l \<subseteq>\<^sub>m (lfu_lookup (ac_lfu s))(k \<mapsto> v)"
    "dom (lfu_lookup l) \<union> lfu_ghost_keys l \<subseteq> insert k (dom (lfu_lookup (ac_lfu s)) \<union> lfu_ghost_keys (ac_lfu s))"
  have "lru_known s \<inter> (dom (lfu_lookup l) \<union> lfu_ghost_keys l) = {}"
    using l(7) k arc_invD(5) [OF inv] unfolding lfu_known_def by blast
  then have "arc_inv (s\<lparr>ac_lfu := l\<rparr>)" by (rule arc_inv_lfu [OF inv l(2-4)])
  moreover have kn: "k \<notin> dom (lru_lookup (ac_lru s))" using k by (simp add: lru_known_def)
  moreover have "arc_lookup (s\<lparr>ac_lfu := l\<rparr>) \<subseteq>\<^sub>m (arc_lookup s)(k \<mapsto> v)"
  proof -
    have "dom (lru_lookup (ac_lru s)) \<inter> dom ((lfu_lookup (ac_lfu s))(k \<mapsto> v)) = {}"
      using kn arc_invD(3) [OF inv] by auto
    from map_add_le [OF map_le_refl l(6) this] show ?thesis
      using kn by (simp add: arc_lookup_def map_add_upd_left)
  qed
  ultimately show ?thesis using l(1,3,5) by (auto simp: arc_lookup_def map_add_def split: option.split)
qed

text \<open>The adaptation of the two capacities.\<close>

lemma check_ghost_caches_inv:
  assumes inv: "arc_inv s" and k: "arc_lookup s k = None"
  shows "\<exists>t h. check_ghost_caches s k = Some (t, h) \<and> arc_inv t \<and> ac_cap t = ac_cap s
    \<and> arc_lookup t \<subseteq>\<^sub>m arc_lookup s \<and> k \<notin> lru_known t \<and> k \<notin> lfu_known t"
proof -
  note lruI = arc_invD(1) [OF inv] and lfuI = arc_invD(2) [OF inv]
  have kn: "k \<notin> dom (lru_lookup (ac_lru s))" "k \<notin> dom (lfu_lookup (ac_lfu s))"
    using k by (auto simp: arc_lookup_def map_add_def split: option.split_asm)
  obtain l where l: "lru_check_ghost (ac_lru s) k = (l, k \<in> lru_ghost_keys (ac_lru s))" "lru_inv l"
    "lru_cap l = lru_cap (ac_lru s)" "lru_ghost_cap l = lru_ghost_cap (ac_lru s)" "lru_lookup l = lru_lookup (ac_lru s)"
    "lru_ghost_keys l = lru_ghost_keys (ac_lru s) - {k}"
    using lru.check_ghost [OF lruI] by blast
  have inv1: "arc_inv (s\<lparr>ac_lru := l\<rparr>)"
    using arc_invD(5) [OF inv] l(5,6) by (intro arc_inv_lru [OF inv l(2-4)]) (auto simp: lru_known_def)
  show ?thesis
  proof (cases "k \<in> lru_ghost_keys (ac_lru s)")
    case True
    then have notf: "k \<notin> lfu_known s" using arc_invD(5) [OF inv] by (auto simp: lru_known_def)
    show ?thesis
    proof (rule lfu.decrease_cases [OF lfuI])
      assume d: "lfu_decrease_capacity (ac_lfu s) = Some (ac_lfu s, False)"
      with True l(1) have "check_ghost_caches s k = Some (s\<lparr>ac_lru := l\<rparr>, Hit_Lru)" by (simp add: check_ghost_caches_def)
      moreover have "arc_lookup (s\<lparr>ac_lru := l\<rparr>) = arc_lookup s" by (simp add: arc_lookup_def l(5))
      moreover have "k \<notin> lru_known (s\<lparr>ac_lru := l\<rparr>)" "k \<notin> lfu_known (s\<lparr>ac_lru := l\<rparr>)"
        using kn notf by (simp_all add: lru_known_def lfu_known_def l(5,6))
      ultimately show ?thesis using inv1 by simp
    next
      fix m
      assume m: "lfu_cap (ac_lfu s) \<noteq> 0" "lfu_decrease_capacity (ac_lfu s) = Some (m, True)" "lfu_inv m"
        "lfu_cap m = lfu_cap (ac_lfu s) - 1" "lfu_ghost_cap m = lfu_ghost_cap (ac_lfu s)"
        "lfu_lookup m \<subseteq>\<^sub>m lfu_lookup (ac_lfu s)"
        "dom (lfu_lookup m) \<union> lfu_ghost_keys m \<subseteq> dom (lfu_lookup (ac_lfu s)) \<union> lfu_ghost_keys (ac_lfu s)"
      define t where "t = s\<lparr>ac_lru := lru_increase_capacity l, ac_lru_cap := ac_lru_cap s + 1, ac_lfu := m\<rparr>"
      have "check_ghost_caches s k = Some (t, Hit_Lru)"
        using True l(1) m(2) by (simp add: check_ghost_caches_def t_def)
      moreover have "lfu_known t \<subseteq> lfu_known s" using m(7) by (simp add: lfu_known_def t_def)
      moreover have "lru_known t = lru_known s - {k}"
        using lru.increase [OF l(2)] l(5,6) kn by (auto simp: lru_known_def t_def)
      moreover have "arc_inv t"
        using inv lru.increase [OF l(2)] m l(3,4) \<open>lfu_known t \<subseteq> _\<close> \<open>lru_known t = _\<close>
        by (auto simp: arc_inv_def t_def)
      moreover have "arc_lookup t \<subseteq>\<^sub>m arc_lookup s"
        using lru.increase [OF l(2)] l(5) map_add_le [OF map_le_refl m(6) arc_invD(3) [OF inv]]
        by (simp add: arc_lookup_def t_def)
      ultimately show ?thesis using notf by (auto simp: t_def)
    qed
  next
    case False
    define s1 where "s1 = s\<lparr>ac_lru := l\<rparr>"
    have notr: "k \<notin> lru_known s1" using False kn by (simp add: lru_known_def s1_def l(5,6))
    have look1: "arc_lookup s1 = arc_lookup s" by (simp add: arc_lookup_def l(5) s1_def)
    obtain m where m: "lfu_check_ghost (ac_lfu s) k = (m, k \<in> lfu_ghost_keys (ac_lfu s))" "lfu_inv m"
      "lfu_cap m = lfu_cap (ac_lfu s)" "lfu_ghost_cap m = lfu_ghost_cap (ac_lfu s)" "lfu_lookup m = lfu_lookup (ac_lfu s)"
      "lfu_ghost_keys m = lfu_ghost_keys (ac_lfu s) - {k}"
      using lfu.check_ghost [OF lfuI] by blast
    define s2 where "s2 = s1\<lparr>ac_lfu := m\<rparr>"
    have inv2: "arc_inv s2"
      unfolding s2_def using arc_invD(5) [OF inv1] m(2-6)
      by (intro arc_inv_lfu [OF inv1 [folded s1_def]]) (auto simp: lfu_known_def s1_def)
    have look2: "arc_lookup s2 = arc_lookup s" by (simp add: arc_lookup_def l(5) m(5) s2_def s1_def)
    have not2: "k \<notin> lru_known s2" "k \<notin> lfu_known s2"
      using notr kn by (simp_all add: s2_def s1_def lru_known_def lfu_known_def m(5,6))
    show ?thesis
    proof (cases "k \<in> lfu_ghost_keys (ac_lfu s) \<and> ac_lru_cap s > 1")
      case no: False
      then have "\<exists>h. check_ghost_caches s k = Some (s2, h)"
        using False l(1) m(1) by (auto simp: check_ghost_caches_def Let_def s2_def s1_def)
      with inv2 look2 not2 show ?thesis by (auto simp: s2_def s1_def)
    next
      case hit: True
      have big: "lru_cap l > 1" using hit inv l(3) by (simp add: arc_inv_def)
      show ?thesis
      proof (rule lru.decrease_cases [OF l(2)])
        assume "lru_cap l = 0"
        with big show ?thesis by simp
      next
        fix n
        assume n: "lru_decrease_capacity l = Some (n, True)" "lru_inv n" "lru_cap n = lru_cap l - 1"
          "lru_ghost_cap n = lru_ghost_cap l" "lru_lookup n \<subseteq>\<^sub>m lru_lookup l"
          "dom (lru_lookup n) \<union> lru_ghost_keys n \<subseteq> dom (lru_lookup l) \<union> lru_ghost_keys l"
        define t where "t = s2\<lparr>ac_lru := n, ac_lfu := lfu_increase_capacity m, ac_lru_cap := ac_lru_cap s - 1\<rparr>"
        note inc = lfu.increase [OF m(2)]
        have "check_ghost_caches s k = Some (t, Hit_Lfu)"
          using False hit l(1) m(1) n(1) by (simp add: check_ghost_caches_def t_def s2_def s1_def)
        moreover have "lru_known t \<subseteq> lru_known s2" using n(6) by (simp add: lru_known_def t_def s2_def s1_def)
        moreover have "lfu_known t = lfu_known s2" using inc by (simp add: lfu_known_def t_def s2_def)
        moreover have "arc_inv t"
          using inv2 inc n(2-4) big m(3,4) l(3,4) \<open>lru_known t \<subseteq> _\<close> \<open>lfu_known t = _\<close>
          by (auto simp: arc_inv_def t_def s2_def s1_def)
        moreover have "arc_lookup t \<subseteq>\<^sub>m arc_lookup s"
          using inc m(5) l(5) map_add_le [OF n(5) map_le_refl, of "lfu_lookup (ac_lfu s)"] arc_invD(3) [OF inv]
          by (simp add: arc_lookup_def t_def)
        ultimately show ?thesis using not2 by (auto simp: t_def s2_def s1_def)
      qed
    qed
  qed
qed

lemma arc_put_law:
  assumes inv: "arc_inv s"
  shows "\<exists>t. arc_put s k v = Some t \<and> arc_inv t \<and> ac_cap t = ac_cap s
    \<and> arc_lookup t \<subseteq>\<^sub>m (arc_lookup s)(k \<mapsto> v) \<and> (ac_cap s = 0 \<or> arc_lookup t k = Some v)"
proof (cases "ac_cap s = 0")
  case True
  then have "arc_lookup s = Map.empty" using arc_size [OF inv] by simp
  with True inv show ?thesis by (simp add: arc_put_def)
next
  case cap: False
  have contain: "lru_contain (ac_lru s) k \<longleftrightarrow> k \<in> dom (lru_lookup (ac_lru s))"
    "lfu_contain (ac_lfu s) k \<longleftrightarrow> k \<in> dom (lfu_lookup (ac_lfu s))"
    using lru.contain [OF arc_invD(1) [OF inv]] lfu.contain [OF arc_invD(2) [OF inv]] by auto
  consider (lru) "k \<in> dom (lru_lookup (ac_lru s))"
    | (lfu) "k \<notin> dom (lru_lookup (ac_lru s))" "k \<in> dom (lfu_lookup (ac_lfu s))"
    | (new) "k \<notin> dom (lru_lookup (ac_lru s))" "k \<notin> dom (lfu_lookup (ac_lfu s))" by blast
  then show ?thesis
  proof cases
    case lru
    then have "k \<notin> lfu_known s" using arc_invD(5) [OF inv] by (auto simp: lru_known_def)
    from arc_lru_store [OF inv cap this, of v] lru cap contain show ?thesis by (fastforce simp: arc_put_def)
  next
    case lfu
    then have "k \<notin> lru_known s" using arc_invD(5) [OF inv] by (auto simp: lfu_known_def)
    then obtain l b where l: "lfu_put (ac_lfu s) k v = Some (l, b)" "arc_inv (s\<lparr>ac_lfu := l\<rparr>)"
      "if b then arc_lookup (s\<lparr>ac_lfu := l\<rparr>) \<subseteq>\<^sub>m (arc_lookup s)(k \<mapsto> v) \<and> arc_lookup (s\<lparr>ac_lfu := l\<rparr>) k = Some v
         \<and> lfu_lookup l k = Some v
       else l = ac_lfu s \<and> lfu_cap l = 0"
      using arc_lfu_store [OF inv, of k v] by blast
    have b
    proof (rule ccontr)
      assume "\<not> b"
      with l(3) have "lfu_cap (ac_lfu s) = 0" by auto
      with lfu.inv_size [OF arc_invD(2) [OF inv]] lfu(2) show False by auto
    qed
    with l lfu cap contain show ?thesis by (simp add: arc_put_def)
  next
    case new
    then have "arc_lookup s k = None" by (auto simp: arc_lookup_def map_add_def split: option.split)
    then obtain t h where t: "check_ghost_caches s k = Some (t, h)" "arc_inv t" "ac_cap t = ac_cap s"
      "arc_lookup t \<subseteq>\<^sub>m arc_lookup s" "k \<notin> lru_known t" "k \<notin> lfu_known t"
      using check_ghost_caches_inv [OF inv] by blast
    have le: "(arc_lookup t)(k \<mapsto> v) \<subseteq>\<^sub>m (arc_lookup s)(k \<mapsto> v)" using t(4) by (rule map_le_upd)
    obtain l where l: "lru_put (ac_lru t) k v = Some (l, True)" "arc_inv (t\<lparr>ac_lru := l\<rparr>)"
      "arc_lookup (t\<lparr>ac_lru := l\<rparr>) \<subseteq>\<^sub>m (arc_lookup t)(k \<mapsto> v)" "arc_lookup (t\<lparr>ac_lru := l\<rparr>) k = Some v"
      using arc_lru_store [OF t(2) _ t(6), of v] cap t(3) by auto
    obtain m b where m: "lfu_put (ac_lfu t) k v = Some (m, b)" "arc_inv (t\<lparr>ac_lfu := m\<rparr>)"
      "if b then arc_lookup (t\<lparr>ac_lfu := m\<rparr>) \<subseteq>\<^sub>m (arc_lookup t)(k \<mapsto> v) \<and> arc_lookup (t\<lparr>ac_lfu := m\<rparr>) k = Some v
         \<and> lfu_lookup m k = Some v
       else m = ac_lfu t \<and> lfu_cap m = 0"
      using arc_lfu_store [OF t(2,5), of v] by blast
    have "arc_put s k v = Some (if h = Hit_Lfu \<and> b then t\<lparr>ac_lfu := m\<rparr> else t\<lparr>ac_lru := l\<rparr>)"
      using new cap contain t(1) l(1) m(1,3) by (cases b) (simp_all add: arc_put_def)
    with t(3) l m(2,3) le show ?thesis by (auto intro: map_le_trans)
  qed
qed

lemma arc_get_law:
  assumes inv: "arc_inv s"
  shows "\<exists>t. arc_get s k = Some (t, arc_lookup s k) \<and> arc_inv t \<and> ac_cap t = ac_cap s
    \<and> arc_lookup t \<subseteq>\<^sub>m arc_lookup s \<and> arc_lookup t k = arc_lookup s k"
proof -
  obtain l b where l: "lru_get (ac_lru s) k = Some (l, map_option (\<lambda>v. (v, b)) (lru_lookup (ac_lru s) k))" "lru_inv l"
    "lru_cap l = lru_cap (ac_lru s)" "lru_ghost_cap l = lru_ghost_cap (ac_lru s)" "lru_lookup l = lru_lookup (ac_lru s)"
    "lru_ghost_keys l = lru_ghost_keys (ac_lru s)"
    using lru_get_law [OF arc_invD(1) [OF inv]] by blast
  define s1 where "s1 = s\<lparr>ac_lru := l\<rparr>"
  have inv1: "arc_inv s1" and look1: "arc_lookup s1 = arc_lookup s"
    using inv l by (simp_all add: arc_defs arc_lookup_def s1_def)
  show ?thesis
  proof (cases "lru_lookup (ac_lru s) k")
    case None
    note g = lfu_get_law [OF arc_invD(2) [OF inv], of k]
    let ?t = "s1\<lparr>ac_lfu := fst (lfu_get (ac_lfu s) k)\<rparr>"
    have "arc_get s k = Some (?t, arc_lookup s k)"
      using l(1) g(1) None by (simp add: arc_get_def Let_def split_beta s1_def arc_lookup_def map_add_def)
    moreover have "arc_inv ?t" using inv1 g by (simp add: arc_defs s1_def)
    moreover have "arc_lookup ?t = arc_lookup s" using g(5) look1 by (simp add: arc_lookup_def s1_def)
    ultimately show ?thesis by (simp add: s1_def)
  next
    case (Some v)
    have v: "arc_lookup s k = Some v" using Some by (simp add: arc_lookup_def)
    show ?thesis
    proof (rule lfu.put_cases [OF arc_invD(2) [OF inv], of k v])
      assume "lfu_put (ac_lfu s) k v = Some (ac_lfu s, False)"
      then have "arc_get s k = Some (s1, Some v)"
        using l(1) Some by (simp add: arc_get_def Let_def s1_def)
      with inv1 look1 v show ?thesis by (simp add: s1_def)
    next
      fix m
      assume m: "lfu_put (ac_lfu s) k v = Some (m, True)" "lfu_inv m" "lfu_cap m = lfu_cap (ac_lfu s)"
        "lfu_ghost_cap m = lfu_ghost_cap (ac_lfu s)" "lfu_lookup m k = Some v" "lfu_lookup m \<subseteq>\<^sub>m (lfu_lookup (ac_lfu s))(k \<mapsto> v)"
        "dom (lfu_lookup m) \<union> lfu_ghost_keys m \<subseteq> insert k (dom (lfu_lookup (ac_lfu s)) \<union> lfu_ghost_keys (ac_lfu s))"
      note er = lru_erase_law [OF l(2), of k]
      define t where "t = (if b then s1\<lparr>ac_lru := fst (lru_erase l k), ac_lfu := m\<rparr> else s1)"
      have "arc_get s k = Some (t, Some v)"
        using l(1) Some m(1) by (simp add: arc_get_def Let_def s1_def t_def)
      moreover have "arc_inv t \<and> arc_lookup t \<subseteq>\<^sub>m arc_lookup s \<and> arc_lookup t k = Some v"
      proof (cases b)
        case True
        have kg: "k \<notin> lru_ghost_keys (ac_lru s)"
          using lru.inv_disjoint [OF arc_invD(1) [OF inv]] Some by blast
        have "lru_known t = lru_known s - {k}" "lfu_known t \<subseteq> insert k (lfu_known s)"
          using er(4,5) l(5,6) kg m(7) True by (auto simp: lru_known_def lfu_known_def t_def s1_def)
        then have "arc_inv t"
          using inv1 er m(2-4) l(3,4) True arc_invD(5) [OF inv] by (auto simp: arc_inv_def t_def s1_def)
        moreover have "arc_lookup t \<subseteq>\<^sub>m arc_lookup s"
        proof -
          let ?r = "(lru_lookup (ac_lru s))(k := None)" and ?f = "(lfu_lookup (ac_lfu s))(k \<mapsto> v)"
          have "dom ?r \<inter> dom ?f = {}" using arc_invD(3) [OF inv] by auto
          from map_add_le [OF map_le_refl m(6) this] have "arc_lookup t \<subseteq>\<^sub>m ?f ++ ?r"
            using er(4) l(5) True by (simp add: arc_lookup_def t_def s1_def)
          also have "?f ++ ?r = arc_lookup s"
            using Some by (auto simp: arc_lookup_def map_add_def fun_eq_iff split: option.split)
          finally show ?thesis .
        qed
        moreover have "arc_lookup t k = Some v"
          using m(5) er(4) True by (simp add: arc_lookup_def t_def map_add_def)
        ultimately show ?thesis by blast
      next
        case False
        with inv1 look1 v show ?thesis by (simp add: t_def)
      qed
      ultimately show ?thesis using v by (simp add: t_def s1_def)
    qed
  qed
qed

lemma arc_erase_law:
  fixes s :: "('k, 'v) arc_cache" and k :: 'k
  assumes inv: "arc_inv s"
  defines "t \<equiv> fst (arc_erase s k)"
  shows "arc_inv t" "ac_cap t = ac_cap s" "arc_lookup t = (arc_lookup s)(k := None)"
    "snd (arc_erase s k) \<longleftrightarrow> k \<in> lru_known s \<union> lfu_known s" "k \<notin> lru_known t \<union> lfu_known t"
proof -
  obtain l where l: "lru_invalidate (ac_lru s) k = (l, lru_lookup (ac_lru s) k \<noteq> None \<or> k \<in> lru_ghost_keys (ac_lru s))"
    "lru_inv l" "lru_cap l = lru_cap (ac_lru s)" "lru_ghost_cap l = lru_ghost_cap (ac_lru s)"
    "lru_lookup l = (lru_lookup (ac_lru s))(k := None)" "lru_ghost_keys l = lru_ghost_keys (ac_lru s) - {k}"
    using lru.invalidate [OF arc_invD(1) [OF inv]] by blast
  obtain m where m: "lfu_invalidate (ac_lfu s) k = (m, lfu_lookup (ac_lfu s) k \<noteq> None \<or> k \<in> lfu_ghost_keys (ac_lfu s))"
    "lfu_inv m" "lfu_cap m = lfu_cap (ac_lfu s)" "lfu_ghost_cap m = lfu_ghost_cap (ac_lfu s)"
    "lfu_lookup m = (lfu_lookup (ac_lfu s))(k := None)" "lfu_ghost_keys m = lfu_ghost_keys (ac_lfu s) - {k}"
    using lfu.invalidate [OF arc_invD(2) [OF inv]] by blast
  have t: "t = s\<lparr>ac_lru := l, ac_lfu := m\<rparr>" using l(1) m(1) by (simp add: t_def arc_erase_def)
  have known: "lru_known t = lru_known s - {k}" "lfu_known t = lfu_known s - {k}"
    by (auto simp: lru_known_def lfu_known_def t l(5,6) m(5,6))
  show "k \<notin> lru_known t \<union> lfu_known t" by (simp add: known)
  show "arc_inv t" using inv l(2-4) m(2-4) known by (auto simp: arc_inv_def t)
  show "ac_cap t = ac_cap s" by (simp add: t)
  show "arc_lookup t = (arc_lookup s)(k := None)"
    by (auto simp: arc_lookup_def t l(5) m(5) map_add_def fun_eq_iff split: option.split)
  show "snd (arc_erase s k) \<longleftrightarrow> k \<in> lru_known s \<union> lfu_known s"
    using l(1) m(1) by (auto simp: arc_erase_def lru_known_def lfu_known_def)
qed

interpretation arc: lossy_cache arc_inv arc_lookup ac_cap arc_put arc_get "\<lambda>s k. Some (arc_erase s k)"
proof
  fix s :: "('k, 'v) arc_cache" and k v
  assume inv: "arc_inv s"
  show "finite (dom (arc_lookup s)) \<and> card (dom (arc_lookup s)) \<le> ac_cap s" using arc_size [OF inv] by blast
  show "\<exists>t r. Some (arc_erase s k) = Some (t, r) \<and> arc_inv t \<and> ac_cap t = ac_cap s
      \<and> arc_lookup t = (arc_lookup s)(k := None)"
    using arc_erase_law [OF inv, of k] by (cases "arc_erase s k") auto
qed (simp_all add: arc_put_law arc_get_law)

section \<open>The cache in slices\<close>

text \<open>
  \<open>hash\<close> is \<^verbatim>\<open>std::hash\<close> of the key type and \<open>hw\<close> the value of
  \<^verbatim>\<open>std::thread::hardware_concurrency()\<close>. An index outside the vector is \<^term>\<open>None\<close>.
\<close>

record ('k, 'v) hash_arc =
  ha_cap :: nat
  ha_slice_num :: nat
  ha_slices :: "('k, 'v) arc_cache list"

definition new_hash_arc :: "nat \<Rightarrow> 'k \<Rightarrow> 'v \<Rightarrow> nat \<Rightarrow> nat \<Rightarrow> ('k, 'v) hash_arc" where
  "new_hash_arc hw dk dv cap slice_num =
     (let n = (if slice_num > 0 then slice_num else max 1 hw)
      in if cap = 0 then \<lparr>ha_cap = cap, ha_slice_num = 0, ha_slices = []\<rparr>
         else
           let n = min n cap; base_size = cap div n; remainder = cap mod n
           in \<lparr>ha_cap = cap, ha_slice_num = n,
               ha_slices = map (\<lambda>i. new_arc_cache dk dv (base_size + of_bool (i < remainder)) 2) [0..<n]\<rparr>)"

definition hash_put ::
    "('k \<Rightarrow> nat) \<Rightarrow> ('k, 'v) hash_arc \<Rightarrow> 'k \<Rightarrow> 'v \<Rightarrow> ('k, 'v) hash_arc option" where
  "hash_put hash s key v =
     (if ha_slice_num s = 0 then Some s
      else
        let i = hash key mod ha_slice_num s
        in if i < length (ha_slices s)
           then do { c \<leftarrow> arc_put (ha_slices s ! i) key v; Some (s\<lparr>ha_slices := (ha_slices s)[i := c]\<rparr>) }
           else None)"

definition hash_get ::
    "('k \<Rightarrow> nat) \<Rightarrow> ('k, 'v) hash_arc \<Rightarrow> 'k \<Rightarrow> (('k, 'v) hash_arc \<times> 'v option) option" where
  "hash_get hash s key =
     (if ha_slice_num s = 0 then Some (s, None)
      else
        let i = hash key mod ha_slice_num s
        in if i < length (ha_slices s)
           then do { (c, r) \<leftarrow> arc_get (ha_slices s ! i) key; Some (s\<lparr>ha_slices := (ha_slices s)[i := c]\<rparr>, r) }
           else None)"

definition hash_erase ::
    "('k \<Rightarrow> nat) \<Rightarrow> ('k, 'v) hash_arc \<Rightarrow> 'k \<Rightarrow> (('k, 'v) hash_arc \<times> bool) option" where
  "hash_erase hash s key =
     (if ha_slice_num s = 0 then Some (s, False)
      else
        let i = hash key mod ha_slice_num s
        in if i < length (ha_slices s)
           then let (c, r) = arc_erase (ha_slices s ! i) key in Some (s\<lparr>ha_slices := (ha_slices s)[i := c]\<rparr>, r)
           else None)"

definition hash_get_or ::
    "('k \<Rightarrow> nat) \<Rightarrow> 'v \<Rightarrow> ('k, 'v) hash_arc \<Rightarrow> 'k \<Rightarrow> (('k, 'v) hash_arc \<times> 'v) option" where
  "hash_get_or hash dv s key = do { (s, r) \<leftarrow> hash_get hash s key; Some (s, case r of Some v \<Rightarrow> v | None \<Rightarrow> dv) }"

definition hash_lookup :: "('k \<Rightarrow> nat) \<Rightarrow> ('k, 'v) hash_arc \<Rightarrow> 'k \<Rightarrow> 'v option" where
  "hash_lookup hash s k =
     (if ha_slice_num s = 0 then None else arc_lookup (ha_slices s ! (hash k mod ha_slice_num s)) k)"

definition hash_inv :: "('k, 'v) hash_arc \<Rightarrow> bool" where
  "hash_inv s \<longleftrightarrow> ha_slice_num s = length (ha_slices s) \<and> sum_list (map ac_cap (ha_slices s)) = ha_cap s
     \<and> (\<forall>c \<in> set (ha_slices s). arc_inv c \<and> 0 < ac_cap c)"

text \<open>The capacities of the slices add up.\<close>

lemma sum_list_share: "r \<le> n \<Longrightarrow> sum_list (map (\<lambda>i. b + of_bool (i < r)) [0..<n]) = n * b + (r :: nat)"
proof (induction n arbitrary: r)
  case (Suc n)
  show ?case
  proof (cases "r \<le> n")
    case True
    with Suc.IH [OF True] show ?thesis by simp
  next
    case False
    with Suc.prems have r: "r = Suc n" by simp
    have eq: "map (\<lambda>i. b + of_bool (i < Suc n)) [0..<n] = map (\<lambda>i. b + of_bool (i < n)) [0..<n]"
      by (intro map_cong) auto
    show ?thesis unfolding r using Suc.IH [of n] by (simp add: eq)
  qed
qed simp

lemma hash_inv_new: "hash_inv (new_hash_arc hw dk dv cap n)" "ha_cap (new_hash_arc hw dk dv cap n) = cap"
proof -
  show "hash_inv (new_hash_arc hw dk dv cap n)"
  proof (cases "cap = 0")
    case True
    then show ?thesis by (simp add: hash_inv_def new_hash_arc_def)
  next
    case False
    define m where "m = min (if n > 0 then n else max 1 hw) cap"
    let ?cs = "map (\<lambda>i. new_arc_cache dk dv (cap div m + of_bool (i < cap mod m)) 2) [0..<m]"
    have m: "0 < m" "m \<le> cap" using False by (auto simp: m_def)
    then have "0 < cap div m" by (simp add: div_greater_zero_iff)
    then have "\<forall>c \<in> set ?cs. arc_inv c \<and> 0 < ac_cap c" by (auto simp: arc_inv_new) (simp_all add: new_arc_cache_def)
    moreover have "sum_list (map ac_cap ?cs) = cap"
      using sum_list_share [of "cap mod m" m "cap div m"] m(1) by (simp add: comp_def new_arc_cache_def)
    moreover have "new_hash_arc hw dk dv cap n = \<lparr>ha_cap = cap, ha_slice_num = m, ha_slices = ?cs\<rparr>"
      using False by (simp add: new_hash_arc_def Let_def m_def)
    ultimately show ?thesis by (simp add: hash_inv_def)
  qed
qed (simp add: new_hash_arc_def Let_def)

lemma hash_lookup_new: "hash_lookup hash (new_hash_arc hw dk dv cap n) = Map.empty"
proof -
  have "arc_lookup c k = None" if "c \<in> set (ha_slices (new_hash_arc hw dk dv cap n))" for c k
    using that by (auto simp: new_hash_arc_def Let_def arc_lookup_new split: if_split_asm)
  moreover have "ha_slice_num (new_hash_arc hw dk dv cap n) = length (ha_slices (new_hash_arc hw dk dv cap n))"
    using hash_inv_new(1) [of hw dk dv cap n] by (simp add: hash_inv_def)
  ultimately show ?thesis by (auto simp: hash_lookup_def fun_eq_iff)
qed

text \<open>Changing one slice, from its law to the law of the whole.\<close>

lemma hash_slice:
  fixes hash :: "'k \<Rightarrow> nat" and k :: 'k
  assumes inv: "hash_inv s" and n: "ha_slice_num s \<noteq> 0"
  defines "i \<equiv> hash k mod ha_slice_num s"
  shows "i < length (ha_slices s)" "arc_inv (ha_slices s ! i)" "0 < ac_cap (ha_slices s ! i)"
    "hash_lookup hash s k = arc_lookup (ha_slices s ! i) k"
proof -
  show i: "i < length (ha_slices s)" using inv n by (simp add: hash_inv_def i_def)
  then show "arc_inv (ha_slices s ! i)" "0 < ac_cap (ha_slices s ! i)" using inv by (simp_all add: hash_inv_def)
  show "hash_lookup hash s k = arc_lookup (ha_slices s ! i) k" using n by (simp add: hash_lookup_def i_def)
qed

lemma hash_update_inv:
  assumes inv: "hash_inv s" and i: "i < length (ha_slices s)" and c: "arc_inv c" "ac_cap c = ac_cap (ha_slices s ! i)"
  shows "hash_inv (s\<lparr>ha_slices := (ha_slices s)[i := c]\<rparr>)"
proof -
  have "map ac_cap ((ha_slices s)[i := c]) = map ac_cap (ha_slices s)"
    using i c(2) by (simp add: map_update list_update_same_conv)
  moreover have "0 < ac_cap c" using inv i c(2) by (simp add: hash_inv_def)
  ultimately show ?thesis
    using inv c(1) by (auto simp: hash_inv_def dest!: set_update_subset_insert [THEN subsetD])
qed

lemma hash_update_lookup:
  assumes inv: "hash_inv s" and i: "i < length (ha_slices s)"
  shows "hash_lookup hash (s\<lparr>ha_slices := (ha_slices s)[i := c]\<rparr>) x
    = (if hash x mod ha_slice_num s = i then arc_lookup c x else hash_lookup hash s x)"
  using assms by (auto simp: hash_lookup_def hash_inv_def)

lemma hash_update_le:
  assumes inv: "hash_inv s" and n: "ha_slice_num s \<noteq> 0" and i: "i = hash k mod ha_slice_num s"
    and c: "arc_lookup c \<subseteq>\<^sub>m (arc_lookup (ha_slices s ! i))(k := v)"
  shows "hash_lookup hash (s\<lparr>ha_slices := (ha_slices s)[i := c]\<rparr>) \<subseteq>\<^sub>m (hash_lookup hash s)(k := v)"
  unfolding map_le_def
proof
  fix x
  have ilt: "i < length (ha_slices s)" using hash_slice(1) [OF inv n] by (simp add: i)
  note up = hash_update_lookup [OF inv ilt, of hash c x]
  assume x: "x \<in> dom (hash_lookup hash (s\<lparr>ha_slices := (ha_slices s)[i := c]\<rparr>))"
  show "hash_lookup hash (s\<lparr>ha_slices := (ha_slices s)[i := c]\<rparr>) x = ((hash_lookup hash s)(k := v)) x"
  proof (cases "hash x mod ha_slice_num s = i")
    case True
    with x up have "x \<in> dom (arc_lookup c)" unfolding dom_def by simp
    with c have "arc_lookup c x = ((arc_lookup (ha_slices s ! i))(k := v)) x" by (auto simp: map_le_def)
    with True n up show ?thesis by (simp add: hash_lookup_def)
  next
    case False
    then have "x \<noteq> k" using i by auto
    with False up show ?thesis by simp
  qed
qed

lemma hash_size:
  assumes inv: "hash_inv s"
  shows "finite (dom (hash_lookup hash s)) \<and> card (dom (hash_lookup hash s)) \<le> ha_cap s"
proof -
  let ?U = "\<Union>i<length (ha_slices s). dom (arc_lookup (ha_slices s ! i))"
  have sub: "dom (hash_lookup hash s) \<subseteq> ?U"
  proof
    fix x
    assume x: "x \<in> dom (hash_lookup hash s)"
    then have n: "ha_slice_num s \<noteq> 0" by (auto simp: hash_lookup_def split: if_split_asm)
    from hash_slice(1,4) [OF inv n, of hash x] x show "x \<in> ?U" unfolding dom_def by auto
  qed
  have each: "finite (dom (arc_lookup (ha_slices s ! i)))"
    "card (dom (arc_lookup (ha_slices s ! i))) \<le> ac_cap (ha_slices s ! i)" if "i < length (ha_slices s)" for i
  proof -
    have "arc_inv (ha_slices s ! i)" using inv that by (simp add: hash_inv_def)
    then show "finite (dom (arc_lookup (ha_slices s ! i)))"
      "card (dom (arc_lookup (ha_slices s ! i))) \<le> ac_cap (ha_slices s ! i)" by (rule arc_size)+
  qed
  have "card ?U \<le> (\<Sum>i<length (ha_slices s). card (dom (arc_lookup (ha_slices s ! i))))"
    by (rule card_UN_le) simp
  also have "\<dots> \<le> (\<Sum>i<length (ha_slices s). ac_cap (ha_slices s ! i))" by (rule sum_mono) (simp add: each)
  also have "\<dots> = ha_cap s" using inv by (simp add: hash_inv_def sum_list_sum_nth atLeast0LessThan)
  finally have "card ?U \<le> ha_cap s" .
  moreover have "finite ?U" using each(1) by simp
  ultimately show ?thesis using sub by (meson card_mono finite_subset order_trans)
qed

interpretation hash_arc: lossy_cache hash_inv "hash_lookup hash" ha_cap "hash_put hash" "hash_get hash" "hash_erase hash"
  for hash :: "'k \<Rightarrow> nat"
proof
  fix s :: "('k, 'v) hash_arc" and k :: 'k and v :: 'v
  assume inv: "hash_inv s"
  show "finite (dom (hash_lookup hash s)) \<and> card (dom (hash_lookup hash s)) \<le> ha_cap s" by (rule hash_size [OF inv])
  define i where "i = hash k mod ha_slice_num s"
  have none: "ha_cap s = 0" "hash_lookup hash s = Map.empty" if "ha_slice_num s = 0"
    using inv that by (auto simp: hash_inv_def hash_lookup_def)
  note sl = hash_slice [OF inv, of hash k, folded i_def]
  note up = hash_update_inv [OF inv sl(1)] and le = hash_update_le [OF inv, of i hash k, OF _ i_def]
    and look = hash_update_lookup [OF inv sl(1), of hash]
  show "\<exists>s'. hash_put hash s k v = Some s' \<and> hash_inv s' \<and> ha_cap s' = ha_cap s
      \<and> hash_lookup hash s' \<subseteq>\<^sub>m (hash_lookup hash s)(k \<mapsto> v) \<and> (ha_cap s = 0 \<or> hash_lookup hash s' k = Some v)"
  proof (cases "ha_slice_num s = 0")
    case True
    with inv none show ?thesis by (simp add: hash_put_def)
  next
    case n: False
    obtain c where c: "arc_put (ha_slices s ! i) k v = Some c" "arc_inv c" "ac_cap c = ac_cap (ha_slices s ! i)"
      "arc_lookup c \<subseteq>\<^sub>m (arc_lookup (ha_slices s ! i))(k \<mapsto> v)" "arc_lookup c k = Some v"
      using arc_put_law [OF sl(2) [OF n], of k v] sl(3) [OF n] by auto
    with n sl(1) up [OF n c(2,3)] le [OF n c(4)] look [OF n, of c k] show ?thesis
      by (simp add: hash_put_def Let_def flip: i_def)
  qed
  show "\<exists>s'. hash_get hash s k = Some (s', hash_lookup hash s k) \<and> hash_inv s' \<and> ha_cap s' = ha_cap s
      \<and> hash_lookup hash s' \<subseteq>\<^sub>m hash_lookup hash s \<and> hash_lookup hash s' k = hash_lookup hash s k"
  proof (cases "ha_slice_num s = 0")
    case True
    with inv none show ?thesis by (simp add: hash_get_def)
  next
    case n: False
    let ?c = "ha_slices s ! i"
    obtain c where c: "arc_get ?c k = Some (c, arc_lookup ?c k)" "arc_inv c" "ac_cap c = ac_cap ?c"
      "arc_lookup c \<subseteq>\<^sub>m arc_lookup ?c" "arc_lookup c k = arc_lookup ?c k"
      using arc_get_law [OF sl(2) [OF n], of k] by blast
    have "arc_lookup c \<subseteq>\<^sub>m (arc_lookup ?c)(k := arc_lookup ?c k)" using c(4) by simp
    from le [OF n this] have "hash_lookup hash (s\<lparr>ha_slices := (ha_slices s)[i := c]\<rparr>) \<subseteq>\<^sub>m hash_lookup hash s"
      unfolding sl(4) [OF n, symmetric] by simp
    with n sl(1,4) up [OF n c(2,3)] look [OF n, of c k] c(1,5) show ?thesis
      by (simp add: hash_get_def Let_def flip: i_def)
  qed
  show "\<exists>s' r. hash_erase hash s k = Some (s', r) \<and> hash_inv s' \<and> ha_cap s' = ha_cap s
      \<and> hash_lookup hash s' = (hash_lookup hash s)(k := None)"
  proof (cases "ha_slice_num s = 0")
    case True
    with inv none show ?thesis by (auto simp: hash_erase_def)
  next
    case n: False
    let ?c = "ha_slices s ! i" and ?r = "arc_erase (ha_slices s ! i) k"
    note er = arc_erase_law [OF sl(2) [OF n], of k]
    have "hash_erase hash s k = Some (s\<lparr>ha_slices := (ha_slices s)[i := fst ?r]\<rparr>, snd ?r)"
      using n sl(1) by (simp add: hash_erase_def Let_def split_beta flip: i_def)
    moreover have "hash_lookup hash (s\<lparr>ha_slices := (ha_slices s)[i := fst ?r]\<rparr>) = (hash_lookup hash s)(k := None)"
    proof
      fix x
      show "hash_lookup hash (s\<lparr>ha_slices := (ha_slices s)[i := fst ?r]\<rparr>) x = ((hash_lookup hash s)(k := None)) x"
        using look [OF n, of "fst ?r" x] er(3) n by (auto simp: i_def hash_lookup_def)
    qed
    ultimately show ?thesis using up [OF n er(1,2)] by simp
  qed
qed

section \<open>Adaptation\<close>

lemma check_ghost_lru_hit:
  assumes inv: "arc_inv s" and k: "k \<in> lru_ghost_keys (ac_lru s)" and c: "lfu_cap (ac_lfu s) \<noteq> 0"
  shows "\<exists>t. check_ghost_caches s k = Some (t, Hit_Lru) \<and> lru_cap (ac_lru t) = lru_cap (ac_lru s) + 1
    \<and> lfu_cap (ac_lfu t) = lfu_cap (ac_lfu s) - 1"
proof -
  obtain l where l: "lru_check_ghost (ac_lru s) k = (l, True)" "lru_inv l" "lru_cap l = lru_cap (ac_lru s)"
    using lru.check_ghost [OF arc_invD(1) [OF inv], of k] k by auto
  obtain m ev where m: "lfu_decrease_capacity (ac_lfu s) = Some (m, True)" "lfu_cap m = lfu_cap (ac_lfu s) - 1"
    using lfu.decrease_pos [OF arc_invD(2) [OF inv] c] by blast
  show ?thesis using l m lru.increase [OF l(2)] by (simp add: check_ghost_caches_def)
qed

lemma check_ghost_lfu_hit:
  assumes inv: "arc_inv s" and k: "k \<in> lfu_ghost_keys (ac_lfu s)" and c: "lru_cap (ac_lru s) > 1"
  shows "\<exists>t. check_ghost_caches s k = Some (t, Hit_Lfu) \<and> lru_cap (ac_lru t) = lru_cap (ac_lru s) - 1
    \<and> lfu_cap (ac_lfu t) = lfu_cap (ac_lfu s) + 1"
proof -
  have "k \<notin> lru_ghost_keys (ac_lru s)" using arc_invD(5) [OF inv] k by (auto simp: lru_known_def lfu_known_def)
  then obtain l where l: "lru_check_ghost (ac_lru s) k = (l, False)" "lru_inv l" "lru_cap l = lru_cap (ac_lru s)"
    using lru.check_ghost [OF arc_invD(1) [OF inv], of k] by auto
  obtain m where m: "lfu_check_ghost (ac_lfu s) k = (m, True)" "lfu_inv m" "lfu_cap m = lfu_cap (ac_lfu s)"
    using lfu.check_ghost [OF arc_invD(2) [OF inv], of k] k by auto
  obtain n where n: "lru_decrease_capacity l = Some (n, True)" "lru_cap n = lru_cap l - 1"
    using lru.decrease_pos [OF l(2)] l(3) c by auto
  have "ac_lru_cap s > 1" using inv c by (simp add: arc_inv_def)
  with l m n lfu.increase [OF m(2)] show ?thesis by (simp add: check_ghost_caches_def)
qed

lemma arc_put_new:
  assumes "arc_inv s" "ac_cap s \<noteq> 0" "arc_lookup s k = None"
  shows "\<not> lru_contain (ac_lru s) k" "\<not> lfu_contain (ac_lfu s) k"
  using assms lru.contain [OF arc_invD(1) [OF assms(1)]] lfu.contain [OF arc_invD(2) [OF assms(1)]]
  by (auto simp: arc_lookup_def map_add_def split: option.split_asm)

section \<open>Properties\<close>

text \<open>
  C4. The adaptive cache never returns a stale or foreign value. Every sequence of stores,
  reads and erasures on a fresh cache runs to the end (no null dereference, no endless
  eviction), a read after it gives either nothing or the value last stored under that key
  and not erased since, and at most \<open>cap\<close> values are resident.
\<close>

theorem arc_cache_coherent:
  "\<exists>s t r. run_ops arc_put arc_get (\<lambda>s k. Some (arc_erase s k)) ops (new_arc_cache dk dv cap th) = Some s
     \<and> arc_get s k = Some (t, r) \<and> (r = None \<or> r = foldl stored Map.empty ops k)
     \<and> card (dom (arc_lookup t)) \<le> cap"
proof -
  have "ac_cap (new_arc_cache dk dv cap th) = cap" by (simp add: new_arc_cache_def)
  then show ?thesis
    using arc.get_coherent [OF arc_inv_new, of dk dv cap th Map.empty ops k] by (auto simp: arc_lookup_new)
qed

text \<open>
  C11. In every state reached from a fresh cache the quotas of the two partitions add up to
  the capacity, the LRU side keeps at least one slot unless the capacity is 0, both
  partitions respect their quota and both histories the capacity, and no key is known to
  both sides: neither resident nor as a ghost.
\<close>

theorem arc_cache_invariant:
  "\<exists>s. run_ops arc_put arc_get (\<lambda>s k. Some (arc_erase s k)) ops (new_arc_cache dk dv cap th) = Some s
     \<and> lru_cap (ac_lru s) + lfu_cap (ac_lfu s) = cap \<and> ac_lru_cap s = lru_cap (ac_lru s)
     \<and> (cap = 0 \<or> 1 \<le> lru_cap (ac_lru s))
     \<and> card (dom (lru_lookup (ac_lru s))) \<le> lru_cap (ac_lru s) \<and> card (dom (lfu_lookup (ac_lfu s))) \<le> lfu_cap (ac_lfu s)
     \<and> card (lru_ghost_keys (ac_lru s)) \<le> cap \<and> card (lfu_ghost_keys (ac_lfu s)) \<le> cap
     \<and> (dom (lru_lookup (ac_lru s)) \<union> lru_ghost_keys (ac_lru s))
        \<inter> (dom (lfu_lookup (ac_lfu s)) \<union> lfu_ghost_keys (ac_lfu s)) = {}"
proof -
  have "ac_cap (new_arc_cache dk dv cap th) = cap" by (simp add: new_arc_cache_def)
  then obtain s where s: "run_ops arc_put arc_get (\<lambda>s k. Some (arc_erase s k)) ops (new_arc_cache dk dv cap th) = Some s"
    "arc_inv s" "ac_cap s = cap"
    using arc.run_coherent [OF arc_inv_new, of dk dv cap th Map.empty ops] by (auto simp: arc_lookup_new)
  note inv = s(2) [unfolded arc_inv_def s(3)]
  have a: "lru_inv (ac_lru s)" and b: "lfu_inv (ac_lfu s)" using inv by simp_all
  show ?thesis
    using s(1) inv lru.inv_size [OF a] lfu.inv_size [OF b] lru.inv_ghosts [OF a] lfu.inv_ghosts [OF b]
    by (auto simp: lru_known_def lfu_known_def)
qed

text \<open>
  C18. A stored value is there to be read: with a positive capacity, a read of the key right
  after a store gives the stored value, and after an erasure gives nothing, while the
  erasure answers whether either partition knew the key.
\<close>

theorem arc_put_get_erase:
  assumes "arc_inv s" and "ac_cap s \<noteq> 0"
  shows "(\<exists>s' s''. arc_put s k v = Some s' \<and> arc_get s' k = Some (s'', Some v) \<and> arc_inv s'')
    \<and> (\<exists>s''. arc_get (fst (arc_erase s k)) k = Some (s'', None))
    \<and> (snd (arc_erase s k) \<longleftrightarrow> k \<in> dom (arc_lookup s) \<or> k \<in> lru_ghost_keys (ac_lru s) \<union> lfu_ghost_keys (ac_lfu s))"
proof -
  have "dom (arc_lookup s) = dom (lru_lookup (ac_lru s)) \<union> dom (lfu_lookup (ac_lfu s))"
    by (simp add: arc_lookup_def)
  then have "snd (arc_erase s k) \<longleftrightarrow> k \<in> dom (arc_lookup s) \<or> k \<in> lru_ghost_keys (ac_lru s) \<union> lfu_ghost_keys (ac_lfu s)"
    unfolding arc_erase_law(4) [OF assms(1)] lru_known_def lfu_known_def by blast
  then show ?thesis using arc.put_get [OF assms, of k v] arc.erase_get [OF assms(1), of k] by auto
qed

theorem arc_put_get_erase_witness:
  "\<exists>s' s''. arc_put (new_arc_cache (0 :: nat) (0 :: nat) 2 2) 5 7 = Some s' \<and> arc_get s' 5 = Some (s'', Some 7)"
  using arc_put_get_erase [OF arc_inv_new [of "0 :: nat" "0 :: nat" 2 2], of 5 7] by (auto simp: new_arc_cache_def)

text \<open>
  C19. The cache adapts: storing a key that was evicted from the LRU side moves one slot from
  the LFU side, if it has one, to the LRU side and stores the key there; storing a key that was
  evicted from the LFU side moves one slot the other way, if the LRU side has more than one, and
  stores the key on the LFU side.
\<close>

theorem arc_ghost_hit_adapts:
  assumes "arc_inv s"
  shows "(k \<in> lru_ghost_keys (ac_lru s) \<and> lfu_cap (ac_lfu s) \<noteq> 0 \<longrightarrow>
      (\<exists>t. arc_put s k v = Some t \<and> lru_lookup (ac_lru t) k = Some v
        \<and> lru_cap (ac_lru t) = lru_cap (ac_lru s) + 1 \<and> lfu_cap (ac_lfu t) = lfu_cap (ac_lfu s) - 1))
    \<and> (k \<in> lfu_ghost_keys (ac_lfu s) \<and> lru_cap (ac_lru s) > 1 \<longrightarrow>
      (\<exists>t. arc_put s k v = Some t \<and> lfu_lookup (ac_lfu t) k = Some v
        \<and> lru_cap (ac_lru t) = lru_cap (ac_lru s) - 1 \<and> lfu_cap (ac_lfu t) = lfu_cap (ac_lfu s) + 1))"
proof -
  note dis = lru.inv_disjoint [OF arc_invD(1) [OF assms]] lfu.inv_disjoint [OF arc_invD(2) [OF assms]] arc_invD(5) [OF assms]
  have new: "arc_lookup s k = None" if "k \<in> lru_ghost_keys (ac_lru s) \<or> k \<in> lfu_ghost_keys (ac_lfu s)"
    using that dis by (auto simp: arc_lookup_def map_add_def lru_known_def lfu_known_def split: option.split)
  have caps: "lru_cap (ac_lru s) + lfu_cap (ac_lfu s) = ac_cap s" using assms by (simp add: arc_inv_def)
  show ?thesis
  proof (intro conjI impI; elim conjE)
    assume k: "k \<in> lru_ghost_keys (ac_lru s)" and c: "lfu_cap (ac_lfu s) \<noteq> 0"
    obtain t where t: "check_ghost_caches s k = Some (t, Hit_Lru)" "lru_cap (ac_lru t) = lru_cap (ac_lru s) + 1"
      "lfu_cap (ac_lfu t) = lfu_cap (ac_lfu s) - 1" using check_ghost_lru_hit [OF assms k c] by blast
    have inv: "arc_inv t" "ac_cap t = ac_cap s" "k \<notin> lfu_known t"
      using check_ghost_caches_inv [OF assms new] k t(1) by auto
    have cap: "ac_cap s \<noteq> 0" using c caps by simp
    then obtain l where "lru_put (ac_lru t) k v = Some (l, True)" "lru_lookup l k = Some v" "lru_cap l = lru_cap (ac_lru t)"
      using arc_lru_store [OF inv(1) _ inv(3), of v] inv(2) by auto
    with t cap arc_put_new [OF assms cap new] k show "\<exists>t. arc_put s k v = Some t \<and> lru_lookup (ac_lru t) k = Some v
        \<and> lru_cap (ac_lru t) = lru_cap (ac_lru s) + 1 \<and> lfu_cap (ac_lfu t) = lfu_cap (ac_lfu s) - 1"
      by (simp add: arc_put_def)
  next
    assume k: "k \<in> lfu_ghost_keys (ac_lfu s)" and c: "lru_cap (ac_lru s) > 1"
    obtain t where t: "check_ghost_caches s k = Some (t, Hit_Lfu)" "lru_cap (ac_lru t) = lru_cap (ac_lru s) - 1"
      "lfu_cap (ac_lfu t) = lfu_cap (ac_lfu s) + 1" using check_ghost_lfu_hit [OF assms k c] by blast
    have inv: "arc_inv t" "k \<notin> lru_known t" using check_ghost_caches_inv [OF assms new] k t(1) by auto
    obtain l b where l: "lfu_put (ac_lfu t) k v = Some (l, b)" "lfu_cap l = lfu_cap (ac_lfu t)"
      "if b then lfu_lookup l k = Some v else lfu_cap l = 0"
      using arc_lfu_store [OF inv, of v] by (auto split: if_split_asm)
    have b using l(2,3) t(3) by (auto split: if_split_asm)
    have cap: "ac_cap s \<noteq> 0" using c caps by simp
    with l \<open>b\<close> t arc_put_new [OF assms cap new] k show "\<exists>t. arc_put s k v = Some t \<and> lfu_lookup (ac_lfu t) k = Some v
        \<and> lru_cap (ac_lru t) = lru_cap (ac_lru s) - 1 \<and> lfu_cap (ac_lfu t) = lfu_cap (ac_lfu s) + 1"
      by (simp add: arc_put_def)
  qed
qed

text \<open>A cache of two slots after two stores: the first key is a ghost of the LRU side.\<close>

definition small_cache :: "(nat, nat) cache_op list \<Rightarrow> (nat, nat) arc_cache" where
  "small_cache ops = the (run_ops arc_put arc_get (\<lambda>s k. Some (arc_erase s k)) ops (new_arc_cache 0 0 2 2))"

lemma small_cache_inv: "arc_inv (small_cache ops)"
  using arc.run_coherent [OF arc_inv_new, of "0 :: nat" "0 :: nat" 2 2 Map.empty ops]
  by (auto simp: arc_lookup_new small_cache_def)

theorem arc_ghost_hit_adapts_witness:
  "\<exists>t. arc_put (small_cache [Put 1 10, Put 2 20]) 1 11 = Some t \<and> lru_lookup (ac_lru t) 1 = Some 11
     \<and> lru_cap (ac_lru t) = 2 \<and> lfu_cap (ac_lfu t) = 0"
proof -
  have "1 \<in> lru_ghost_keys (ac_lru (small_cache [Put 1 10, Put 2 20]))"
    "lfu_cap (ac_lfu (small_cache [Put 1 10, Put 2 20])) = 1" "lru_cap (ac_lru (small_cache [Put 1 10, Put 2 20])) = 1"
    by code_simp+
  with arc_ghost_hit_adapts [OF small_cache_inv, of 1 "[Put 1 10, Put 2 20]" 11] show ?thesis by (simp add: numeral_2_eq_2)
qed

text \<open>
  C22. A read promotes a key exactly when this access reaches the threshold. For a key resident
  on the LRU side, and an LFU side that has a slot, the value is returned; when the access count
  of its node, this read included, is at least the threshold, the LFU side holds the value
  afterwards and the LRU side keeps no trace of the key, not even as a ghost; below the threshold
  the LFU side is unchanged and the LRU side keeps the value.
\<close>

theorem arc_get_promotes:
  fixes s :: "('k, 'v) arc_cache"
  assumes "arc_inv s" and "map_of (lru_main (ac_lru s)) k = Some p" and "lfu_cap (ac_lfu s) \<noteq> 0"
  defines "v \<equiv> nd_value (lru_nodes (ac_lru s) p)"
  shows "\<exists>t. arc_get s k = Some (t, Some v) \<and>
    (if nd_access_count (lru_nodes (ac_lru s) p) + 1 \<ge> lru_trans (ac_lru s)
     then lfu_lookup (ac_lfu t) k = Some v \<and> lru_lookup (ac_lru t) k = None \<and> k \<notin> lru_ghost_keys (ac_lru t)
     else ac_lfu t = ac_lfu s \<and> lru_lookup (ac_lru t) k = Some v)"
proof -
  note inv = arc_invD(1) [OF assms(1)]
  let ?b = "lru_trans (ac_lru s) \<le> nd_access_count (lru_nodes (ac_lru s) p) + 1"
  obtain l where get: "lru_get (ac_lru s) k = Some (l, Some (v, ?b))"
    using lru_get_resident [OF inv assms(2)] unfolding v_def by blast
  have l: "lru_inv l" "lru_lookup l = lru_lookup (ac_lru s)" "lru_ghost_keys l = lru_ghost_keys (ac_lru s)"
    "lru_lookup (ac_lru s) k = Some v"
    using lru_get_law [OF inv, of k] get by (cases "lru_lookup (ac_lru s) k"; auto)+
  obtain m where m: "lfu_put (ac_lfu s) k v = Some (m, True)" "lfu_lookup m k = Some v"
    by (rule lfu.put_cases [OF arc_invD(2) [OF assms(1)], of k v]) (use assms(3) in auto)
  have "k \<notin> lru_ghost_keys (ac_lru s)" using lru.inv_disjoint [OF inv] l(4) by blast
  with m l lru_erase_law(4,5) [OF l(1), of k] show ?thesis
    by (cases ?b) (simp_all add: arc_get_def get Let_def)
qed

theorem arc_get_promotes_witness:
  "\<exists>t. arc_get (small_cache [Put 1 10]) 1 = Some (t, Some 10) \<and> lfu_lookup (ac_lfu t) 1 = Some 10
     \<and> lru_lookup (ac_lru t) 1 = None"
proof -
  let ?s = "small_cache [Put 1 10]"
  have "\<exists>p. map_of (lru_main (ac_lru ?s)) 1 = Some p"
    by (simp add: not_None_eq [symmetric] del: not_None_eq) code_simp
  then obtain p where p: "map_of (lru_main (ac_lru ?s)) 1 = Some p" by blast
  have "map_option (\<lambda>p. (nd_value (lru_nodes (ac_lru ?s) p), nd_access_count (lru_nodes (ac_lru ?s) p)))
      (map_of (lru_main (ac_lru ?s)) 1) = Some (10, 1)"
    "lfu_cap (ac_lfu ?s) = 1" "lru_trans (ac_lru ?s) = 2"
    by code_simp+
  with arc_get_promotes [OF small_cache_inv p] p show ?thesis by auto
qed

text \<open>
  C17. The sliced cache with any hash function: the capacities of its slices add up to the
  requested capacity, every sequence of operations on it runs to the end, and a read gives
  nothing or the value last stored; at most \<open>cap\<close> values are resident over all slices.
\<close>

theorem hash_arc_coherent:
  "sum_list (map ac_cap (ha_slices (new_hash_arc hw dk dv cap n))) = cap
   \<and> (\<exists>s t r. run_ops (hash_put hash) (hash_get hash) (hash_erase hash) ops (new_hash_arc hw dk dv cap n) = Some s
     \<and> hash_get hash s k = Some (t, r) \<and> (r = None \<or> r = foldl stored Map.empty ops k)
     \<and> card (dom (hash_lookup hash t)) \<le> cap)"
  using hash_arc.get_coherent [OF hash_inv_new(1), of hash hw dk dv cap n Map.empty ops k]
    hash_inv_new [of hw dk dv cap n]
  by (auto simp: hash_lookup_new hash_inv_def)

end
