(* ===== verification/Monitor_Policy.thy ===== *)
theory Monitor_Policy
  imports TLSS_Prelude
begin

text \<open>
  The sampling policies of \<^verbatim>\<open>src/monitor/monitor_policy.cpp\<close>, which turn raw samples into
  alarms or averages: a value above a threshold for some time (\<^verbatim>\<open>ContForPolicy\<close>), so many
  events within a period (\<^verbatim>\<open>TimesPerPeriodPolicy\<close>), and a trimmed moving average
  (\<^verbatim>\<open>SmoothTrimPolicy\<close>). \<^verbatim>\<open>PolicyTime\<close> is a count of milliseconds in a signed 64-bit integer,
  an \<^typ>\<open>int\<close> here; \<^term>\<open>None\<close> is undefined behaviour: a signed overflow, a division by zero
  or an access outside a vector. Each policy is compared with a specification over the whole
  history of samples, and all three fulfil the contract of the abstract class.
\<close>

section \<open>Results and the interface\<close>

record policy_feed_result =
  pf_noteworthy :: bool
  pf_value :: u32

type_synonym sample = "u32 \<times> int"

text \<open>
  The contract of \<^verbatim>\<open>MonitorPolicy\<close>: on well-formed states and admissible samples feeding is
  defined, keeps the state well formed, and the current value is the one last returned.
\<close>

primrec feed_all :: "('p \<Rightarrow> u32 \<Rightarrow> int \<Rightarrow> ('p \<times> policy_feed_result) option) \<Rightarrow> sample list
    \<Rightarrow> 'p \<Rightarrow> ('p \<times> policy_feed_result list) option" where
  "feed_all fd [] p = Some (p, [])"
| "feed_all fd (x # xs) p = do {
     (p, r) \<leftarrow> fd p (fst x) (snd x);
     (p, rs) \<leftarrow> feed_all fd xs p;
     Some (p, r # rs) }"

locale monitor_policy =
  fixes inv :: "'p \<Rightarrow> bool" and fd :: "'p \<Rightarrow> u32 \<Rightarrow> int \<Rightarrow> ('p \<times> policy_feed_result) option"
    and val :: "'p \<Rightarrow> u32"
  assumes feed: "inv p \<Longrightarrow> 0 \<le> t \<Longrightarrow> is_int64 t \<Longrightarrow>
    \<exists>p' r. fd p v t = Some (p', r) \<and> inv p' \<and> val p' = pf_value r"
begin

lemma feed_all_defined:
  assumes "inv p" and "\<forall>x \<in> set xs. 0 \<le> snd x \<and> is_int64 (snd x)"
  shows "\<exists>p' rs. feed_all fd xs p = Some (p', rs) \<and> inv p' \<and> length rs = length xs
    \<and> (xs = [] \<or> val p' = pf_value (last rs))"
  using assms
proof (induction xs arbitrary: p)
  case (Cons x xs)
  obtain p1 r where p1: "fd p (fst x) (snd x) = Some (p1, r)" "inv p1" "val p1 = pf_value r"
    using feed [OF Cons.prems(1)] Cons.prems(2) by force
  obtain p2 rs where p2: "feed_all fd xs p1 = Some (p2, rs)" "inv p2" "length rs = length xs"
    "xs = [] \<or> val p2 = pf_value (last rs)"
    using Cons.IH [OF p1(2)] Cons.prems(2) by auto
  have "feed_all fd (x # xs) p = Some (p2, r # rs)" using p1(1) p2(1) by simp
  moreover have "val p2 = pf_value (last (r # rs))" using p1(3) p2 by (cases xs) auto
  ultimately show ?case using p2(2,3) by auto
qed simp

end

section \<open>Above a threshold for some time\<close>

datatype cont_for_state = IDLE | PENDING | ACTIVE

record cont_for_policy =
  cf_threshold :: u32
  cf_duration :: int
  cf_state :: cont_for_state
  cf_crossed_at :: int

definition cont_for_feed :: "cont_for_policy \<Rightarrow> u32 \<Rightarrow> int \<Rightarrow> (cont_for_policy \<times> policy_feed_result) option" where
  "cont_for_feed p v now =
     (if v \<le> cf_threshold p
      then Some (p\<lparr>cf_state := IDLE, cf_crossed_at := 0\<rparr>, \<lparr>pf_noteworthy = False, pf_value = 0\<rparr>)
      else
        case cf_state p of
          IDLE \<Rightarrow> Some (p\<lparr>cf_state := PENDING, cf_crossed_at := now\<rparr>, \<lparr>pf_noteworthy = False, pf_value = 0\<rparr>)
        | PENDING \<Rightarrow>
            if now < cf_crossed_at p then Some (p, \<lparr>pf_noteworthy = False, pf_value = 0\<rparr>)
            else do {
              elapsed \<leftarrow> i64_sub now (cf_crossed_at p);
              if elapsed \<ge> cf_duration p
              then Some (p\<lparr>cf_state := ACTIVE\<rparr>, \<lparr>pf_noteworthy = True, pf_value = 1\<rparr>)
              else Some (p, \<lparr>pf_noteworthy = False, pf_value = 0\<rparr>) }
        | ACTIVE \<Rightarrow> Some (p, \<lparr>pf_noteworthy = False, pf_value = 1\<rparr>))"

definition cont_for_value :: "cont_for_policy \<Rightarrow> u32" where
  "cont_for_value p = (if cf_state p = ACTIVE then 1 else 0)"

definition make_cont_for_policy :: "u32 \<Rightarrow> int \<Rightarrow> cont_for_policy option" where
  "make_cont_for_policy threshold duration =
     (if duration < 0 then None
      else Some \<lparr>cf_threshold = threshold, cf_duration = duration, cf_state = IDLE, cf_crossed_at = 0\<rparr>)"

section \<open>So many events within a period\<close>

record times_per_period_policy =
  tp_threshold :: u32
  tp_period :: int
  tp_events :: "int list"
  tp_event_count :: nat
  tp_head :: nat
  tp_alerting :: bool

definition tp_current_value :: "times_per_period_policy \<Rightarrow> u32" where
  "tp_current_value p = (if tp_alerting p then 1 else 0)"

definition tp_value :: "times_per_period_policy \<Rightarrow> u32" where
  "tp_value p = tp_current_value p"

definition tp_feed ::
    "times_per_period_policy \<Rightarrow> u32 \<Rightarrow> int \<Rightarrow> (times_per_period_policy \<times> policy_feed_result) option" where
  "tp_feed p v now =
     (if v \<le> tp_threshold p
      then Some (p, \<lparr>pf_noteworthy = False, pf_value = tp_current_value p\<rparr>)
      else if \<not> tp_head p < length (tp_events p) then None
      else
        let p = p\<lparr>tp_events := (tp_events p)[tp_head p := now]\<rparr>;
            p = p\<lparr>tp_head := (tp_head p + 1) mod length (tp_events p)\<rparr>;
            p = (if tp_event_count p < length (tp_events p) then p\<lparr>tp_event_count := tp_event_count p + 1\<rparr> else p)
        in do {
          condition_met \<leftarrow>
            (if tp_event_count p = length (tp_events p)
             then if tp_head p < length (tp_events p)
                  then let oldest = tp_events p ! tp_head p
                       in if now \<ge> oldest
                          then map_option (\<lambda>d. d \<le> tp_period p) (i64_sub now oldest)
                          else Some False
                  else None
             else Some False);
          let fired = condition_met \<and> \<not> tp_alerting p;
              p = p\<lparr>tp_alerting := condition_met\<rparr>
          in Some (p, \<lparr>pf_noteworthy = fired, pf_value = tp_current_value p\<rparr>) })"

definition make_times_per_period_policy :: "u32 \<Rightarrow> nat \<Rightarrow> int \<Rightarrow> times_per_period_policy option" where
  "make_times_per_period_policy threshold count period =
     (if count = 0 \<or> period < 0 then None
      else Some \<lparr>tp_threshold = threshold, tp_period = period, tp_events = replicate count 0,
                 tp_event_count = 0, tp_head = 0, tp_alerting = False\<rparr>)"

section \<open>Trimmed moving average\<close>

record smooth_trim_policy =
  st_trim_threshold :: u32
  st_samples :: "u32 list"
  st_sample_count :: nat
  st_head :: nat
  st_sum :: u64
  st_average :: u32

definition st_value :: "smooth_trim_policy \<Rightarrow> u32" where
  "st_value p = st_average p"

definition st_feed :: "smooth_trim_policy \<Rightarrow> u32 \<Rightarrow> int \<Rightarrow> (smooth_trim_policy \<times> policy_feed_result) option" where
  "st_feed p v now =
     (if st_sample_count p > 0
         \<and> (if v \<ge> st_average p then v - st_average p else st_average p - v) > st_trim_threshold p
      then Some (p, \<lparr>pf_noteworthy = False, pf_value = st_average p\<rparr>)
      else if \<not> st_head p < length (st_samples p) then None
      else
        let p = (if st_sample_count p < length (st_samples p)
                 then p\<lparr>st_samples := (st_samples p)[st_head p := v], st_sum := st_sum p + ucast v,
                        st_sample_count := st_sample_count p + 1\<rparr>
                 else
                   let p = p\<lparr>st_sum := st_sum p - ucast (st_samples p ! st_head p)\<rparr>;
                       p = p\<lparr>st_samples := (st_samples p)[st_head p := v]\<rparr>
                   in p\<lparr>st_sum := st_sum p + ucast v\<rparr>);
            p = p\<lparr>st_head := (st_head p + 1) mod length (st_samples p)\<rparr>
        in if (word_of_nat (st_sample_count p) :: u64) = 0 then None
           else
             let new_average = ucast (st_sum p div word_of_nat (st_sample_count p)) :: u32;
                 changed = (new_average \<noteq> st_average p);
                 p = p\<lparr>st_average := new_average\<rparr>
             in Some (p, \<lparr>pf_noteworthy = changed, pf_value = st_average p\<rparr>))"

definition make_smooth_trim_policy :: "nat \<Rightarrow> u32 \<Rightarrow> smooth_trim_policy option" where
  "make_smooth_trim_policy window trim_threshold =
     (if window = 0 then None
      else Some \<lparr>st_trim_threshold = trim_threshold, st_samples = replicate window 0, st_sample_count = 0,
                 st_head = 0, st_sum = 0, st_average = 0\<rparr>)"

section \<open>Histories\<close>

lemma feed_all_snoc:
  "feed_all fd (xs @ [x]) p = do {
     (p, rs) \<leftarrow> feed_all fd xs p;
     (p, r) \<leftarrow> fd p (fst x) (snd x);
     Some (p, rs @ [r]) }"
proof (induction xs arbitrary: p)
  case Nil
  show ?case by (cases "fd p (fst x) (snd x)") auto
next
  case (Cons y xs)
  show ?case by (cases "fd p (fst y) (snd y)") (auto simp: Cons.IH split_beta Option.bind_assoc)
qed

definition times_ok :: "sample list \<Rightarrow> bool" where
  "times_ok xs \<longleftrightarrow> (\<forall>x \<in> set xs. 0 \<le> snd x \<and> is_int64 (snd x))"

text \<open>Relating the state of a policy to its history: it is enough that one sample keeps the relation.\<close>

lemma feed_all_history:
  assumes init: "R p []"
    and step: "\<And>q xs x. R q xs \<Longrightarrow> times_ok (xs @ [x]) \<Longrightarrow>
      \<exists>q' r. fd q (fst x) (snd x) = Some (q', r) \<and> R q' (xs @ [x]) \<and> Q r xs x"
  shows "times_ok xs \<Longrightarrow> \<exists>q rs. feed_all fd xs p = Some (q, rs) \<and> R q xs \<and> length rs = length xs"
    and "times_ok (xs @ [x]) \<Longrightarrow> \<exists>q rs r. feed_all fd (xs @ [x]) p = Some (q, rs @ [r]) \<and> R q (xs @ [x]) \<and> Q r xs x"
proof -
  have all: "times_ok xs \<Longrightarrow> \<exists>q rs. feed_all fd xs p = Some (q, rs) \<and> R q xs \<and> length rs = length xs" for xs
  proof (induction xs rule: rev_induct)
    case (snoc x xs)
    then obtain q rs where q: "feed_all fd xs p = Some (q, rs)" "R q xs" "length rs = length xs"
      by (auto simp: times_ok_def)
    with step [OF q(2) snoc.prems] show ?case by (auto simp: feed_all_snoc)
  qed (simp add: init)
  then show "times_ok xs \<Longrightarrow> \<exists>q rs. feed_all fd xs p = Some (q, rs) \<and> R q xs \<and> length rs = length xs" .
  assume ok: "times_ok (xs @ [x])"
  then obtain q rs where q: "feed_all fd xs p = Some (q, rs)" "R q xs" using all [of xs] by (auto simp: times_ok_def)
  with step [OF q(2) ok] show "\<exists>q rs r. feed_all fd (xs @ [x]) p = Some (q, rs @ [r]) \<and> R q (xs @ [x]) \<and> Q r xs x"
    by (auto simp: feed_all_snoc)
qed

section \<open>The threshold policy\<close>

text \<open>The samples above the threshold at the end of a history, and whether the first is old enough.\<close>

definition over_run :: "u32 \<Rightarrow> sample list \<Rightarrow> sample list" where
  "over_run th xs = rev (takeWhile (\<lambda>x. th < fst x) (rev xs))"

definition cont_for_alarm :: "u32 \<Rightarrow> int \<Rightarrow> sample list \<Rightarrow> bool" where
  "cont_for_alarm th d xs =
     (case over_run th xs of [] \<Rightarrow> False | x0 # rest \<Rightarrow> (\<exists>x \<in> set rest. snd x0 + d \<le> snd x))"

lemma over_run_snoc: "over_run th (xs @ [x]) = (if th < fst x then over_run th xs @ [x] else [])"
  by (simp add: over_run_def)

lemma over_run_subset: "set (over_run th xs) \<subseteq> set xs"
  by (auto simp: over_run_def dest: set_takeWhileD)

definition cf_rel :: "u32 \<Rightarrow> int \<Rightarrow> cont_for_policy \<Rightarrow> sample list \<Rightarrow> bool" where
  "cf_rel th d p xs \<longleftrightarrow> cf_threshold p = th \<and> cf_duration p = d \<and>
     (case over_run th xs of
        [] \<Rightarrow> cf_state p = IDLE
      | x0 # rest \<Rightarrow> (if cont_for_alarm th d xs then cf_state p = ACTIVE
                      else cf_state p = PENDING \<and> cf_crossed_at p = snd x0))"

lemma cf_rel_step:
  assumes rel: "cf_rel th d p xs" and d: "0 \<le> d" and ok: "times_ok (xs @ [x])"
  shows "\<exists>p' r. cont_for_feed p (fst x) (snd x) = Some (p', r) \<and> cf_rel th d p' (xs @ [x])
    \<and> (pf_noteworthy r \<longleftrightarrow> cont_for_alarm th d (xs @ [x]) \<and> \<not> cont_for_alarm th d xs)
    \<and> cont_for_value p' = pf_value r"
proof (cases "th < fst x")
  case False
  then show ?thesis
    using rel by (auto simp: cont_for_feed_def cf_rel_def cont_for_alarm_def cont_for_value_def over_run_snoc)
next
  case above: True
  show ?thesis
  proof (cases "over_run th xs")
    case Nil
    then show ?thesis
      using rel above by (auto simp: cont_for_feed_def cf_rel_def cont_for_alarm_def cont_for_value_def over_run_snoc)
  next
    case (Cons x0 rest)
    have "x0 \<in> set xs" using over_run_subset [of th xs] Cons by auto
    then have t: "0 \<le> snd x0" "is_int64 (snd x)" using ok by (auto simp: times_ok_def)
    have now: "cont_for_alarm th d (xs @ [x]) \<longleftrightarrow> cont_for_alarm th d xs \<or> snd x0 + d \<le> snd x"
      using above Cons by (auto simp: cont_for_alarm_def over_run_snoc)
    have run: "over_run th (xs @ [x]) = x0 # rest @ [x]" using above Cons by (simp add: over_run_snoc)
    show ?thesis
    proof (cases "cont_for_alarm th d xs")
      case True
      then show ?thesis
        using rel above Cons now run by (auto simp: cont_for_feed_def cf_rel_def cont_for_value_def)
    next
      case False
      then have p: "cf_state p = PENDING" "cf_crossed_at p = snd x0" "cf_threshold p = th" "cf_duration p = d"
        using rel Cons by (simp_all add: cf_rel_def)
      show ?thesis
      proof (cases "snd x < snd x0")
        case True
        then show ?thesis using p above False now run d by (auto simp: cont_for_feed_def cf_rel_def cont_for_value_def)
      next
        case ge: False
        then have "i64_sub (snd x) (snd x0) = Some (snd x - snd x0)" using t by (intro i64_sub_nonneg) auto
        then show ?thesis
          using p above False now run ge by (auto simp: cont_for_feed_def cf_rel_def cont_for_value_def)
      qed
    qed
  qed
qed

section \<open>Ring buffers\<close>

text \<open>The buffer holds the latest elements of a history, each at its index modulo the size.\<close>

definition ring :: "'a list \<Rightarrow> 'a list \<Rightarrow> bool" where
  "ring buf xs \<longleftrightarrow> (\<forall>i < length xs. length xs - length buf \<le> i \<longrightarrow> buf ! (i mod length buf) = xs ! i)"

lemma ring_Nil: "ring buf []"
  by (simp add: ring_def)

lemma ring_push:
  assumes "ring buf xs" and n: "buf \<noteq> []"
  shows "ring (buf[length xs mod length buf := x]) (xs @ [x])"
  unfolding ring_def
proof (intro allI impI)
  fix i
  let ?n = "length buf" and ?l = "length xs"
  assume i: "i < length (xs @ [x])" "length (xs @ [x]) - length (buf[?l mod ?n := x]) \<le> i"
  have lt: "?l mod ?n < ?n" using n by simp
  show "buf[?l mod ?n := x] ! (i mod length (buf[?l mod ?n := x])) = (xs @ [x]) ! i"
  proof (cases "i = ?l")
    case True
    with lt show ?thesis by simp
  next
    case False
    then have il: "i < ?l" "?l - ?n \<le> i" "?l < i + ?n" using i by auto
    have "i mod ?n \<noteq> ?l mod ?n"
    proof
      assume "i mod ?n = ?l mod ?n"
      then have "?n dvd ?l - i" using il(1) by (metis mod_eq_dvd_iff_nat less_imp_le)
      with il(1,3) show False by (auto dest: dvd_imp_le)
    qed
    with assms(1) il show ?thesis by (simp add: ring_def nth_append)
  qed
qed

lemma ring_oldest:
  assumes "ring buf xs" and "buf \<noteq> []" and "length buf \<le> length xs"
  shows "buf ! (length xs mod length buf) = xs ! (length xs - length buf)"
proof -
  have "(length xs - length buf) mod length buf = length xs mod length buf"
    using assms(3) by (metis le_add_diff_inverse2 mod_add_self2)
  moreover have "length xs - length buf < length xs" using assms(2,3) by (cases buf) auto
  ultimately show ?thesis using assms(1) by (metis le_refl ring_def)
qed

lemma ring_head: "(l mod n + 1) mod n = (l + 1) mod (n :: nat)"
  by (simp add: mod_simps)

section \<open>The frequency policy\<close>

definition event_times :: "u32 \<Rightarrow> sample list \<Rightarrow> int list" where
  "event_times th xs = map snd (filter (\<lambda>x. th < fst x) xs)"

text \<open>The last \<open>n\<close> events happened within the period.\<close>

definition frequent :: "u32 \<Rightarrow> nat \<Rightarrow> int \<Rightarrow> sample list \<Rightarrow> bool" where
  "frequent th n period xs \<longleftrightarrow>
     (let ts = event_times th xs; oldest = ts ! (length ts - n)
      in n \<le> length ts \<and> oldest \<le> last ts \<and> last ts - oldest \<le> period)"

definition tp_rel :: "u32 \<Rightarrow> nat \<Rightarrow> int \<Rightarrow> times_per_period_policy \<Rightarrow> sample list \<Rightarrow> bool" where
  "tp_rel th n period p xs \<longleftrightarrow> (let ts = event_times th xs in
     tp_threshold p = th \<and> tp_period p = period \<and> length (tp_events p) = n \<and> ring (tp_events p) ts
     \<and> tp_head p = length ts mod n \<and> tp_event_count p = min (length ts) n \<and> tp_alerting p = frequent th n period xs)"

lemma tp_rel_step:
  assumes rel: "tp_rel th n period p xs" and n: "0 < n" and ok: "times_ok (xs @ [x])"
  shows "\<exists>p' r. tp_feed p (fst x) (snd x) = Some (p', r) \<and> tp_rel th n period p' (xs @ [x])
    \<and> (pf_noteworthy r \<longleftrightarrow> frequent th n period (xs @ [x]) \<and> \<not> frequent th n period xs)
    \<and> tp_value p' = pf_value r"
proof (cases "th < fst x")
  case False
  then have "event_times th (xs @ [x]) = event_times th xs" by (simp add: event_times_def)
  moreover from this have "frequent th n period (xs @ [x]) = frequent th n period xs" by (simp add: frequent_def)
  moreover have "tp_threshold p = th" using rel by (simp add: tp_rel_def Let_def)
  then have "tp_feed p (fst x) (snd x) = Some (p, \<lparr>pf_noteworthy = False, pf_value = tp_current_value p\<rparr>)"
    using False by (simp add: tp_feed_def not_less)
  ultimately show ?thesis using rel by (simp add: tp_rel_def tp_value_def)
next
  case True
  define ts where "ts = event_times th xs"
  define buf where "buf = (tp_events p)[length ts mod n := snd x]"
  have p: "tp_threshold p = th" "tp_period p = period" "length (tp_events p) = n" "ring (tp_events p) ts"
    "tp_head p = length ts mod n" "tp_event_count p = min (length ts) n" "tp_alerting p = frequent th n period xs"
    using rel by (simp_all add: tp_rel_def ts_def Let_def)
  have ts': "event_times th (xs @ [x]) = ts @ [snd x]" using True by (simp add: event_times_def ts_def)
  have buf: "length buf = n" "ring buf (ts @ [snd x])" "buf \<noteq> []"
    using ring_push [OF p(4), of "snd x"] p(3) n by (auto simp: buf_def)
  define met where "met = frequent th n period (xs @ [x])"
  have met: "met \<longleftrightarrow> n \<le> length ts + 1 \<and> buf ! ((length ts + 1) mod n) \<le> snd x
      \<and> snd x - buf ! ((length ts + 1) mod n) \<le> period"
    using ring_oldest [OF buf(2,3)] buf(1) by (auto simp: met_def frequent_def ts' Let_def)
  have sub: "i64_sub (snd x) (buf ! ((length ts + 1) mod n)) = Some (snd x - buf ! ((length ts + 1) mod n))"
    if "n \<le> length ts + 1" "buf ! ((length ts + 1) mod n) \<le> snd x"
  proof (rule i64_sub_nonneg)
    have "buf ! ((length ts + 1) mod n) = (ts @ [snd x]) ! (length ts + 1 - n)"
      using ring_oldest [OF buf(2,3)] buf(1) that(1) by simp
    moreover have "(ts @ [snd x]) ! (length ts + 1 - n) \<in> set (ts @ [snd x])" using n by (intro nth_mem) simp
    moreover have "set (ts @ [snd x]) \<subseteq> snd ` set (xs @ [x])" by (auto simp: ts_def event_times_def)
    ultimately show "0 \<le> buf ! ((length ts + 1) mod n)" using ok unfolding times_ok_def by fastforce
  qed (use that ok in \<open>auto simp: times_ok_def\<close>)
  define p' where "p' = p\<lparr>tp_events := buf, tp_head := (length ts + 1) mod n,
      tp_event_count := min (length ts + 1) n, tp_alerting := met\<rparr>"
  have "tp_feed p (fst x) (snd x) = Some (p', \<lparr>pf_noteworthy = met \<and> \<not> frequent th n period xs, pf_value = tp_current_value p'\<rparr>)"
  proof -
    define p1 where "p1 = p\<lparr>tp_events := buf, tp_head := (length ts + 1) mod n\<rparr>"
    define p2 where "p2 = p1\<lparr>tp_event_count := min (length ts + 1) n\<rparr>"
    have p2: "(if tp_event_count p1 < length (tp_events p1) then p1\<lparr>tp_event_count := tp_event_count p1 + 1\<rparr> else p1) = p2"
      using p(6) buf(1) by (cases "length ts < n") (simp_all add: p2_def p1_def)
    have "tp_feed p (fst x) (snd x) = do {
        condition_met \<leftarrow>
          (if tp_event_count p2 = length (tp_events p2)
           then if tp_head p2 < length (tp_events p2)
                then let oldest = tp_events p2 ! tp_head p2
                     in if snd x \<ge> oldest then map_option (\<lambda>d. d \<le> tp_period p2) (i64_sub (snd x) oldest) else Some False
                else None
           else Some False);
        let fired = condition_met \<and> \<not> tp_alerting p2; p = p2\<lparr>tp_alerting := condition_met\<rparr>
        in Some (p, \<lparr>pf_noteworthy = fired, pf_value = tp_current_value p\<rparr>) }"
      unfolding p2 [symmetric] p1_def
      using not_le [THEN iffD2, OF True] p(1,3,5) n by (simp add: tp_feed_def Let_def buf_def mod_Suc_eq)
    also have "\<dots> = Some (p', \<lparr>pf_noteworthy = met \<and> \<not> frequent th n period xs, pf_value = tp_current_value p'\<rparr>)"
      using n buf(1) p(2,7) met sub
      by (cases "n \<le> length ts + 1"; cases "buf ! ((length ts + 1) mod n) \<le> snd x")
        (simp_all add: p2_def p1_def p'_def Let_def min_def)
    finally show ?thesis .
  qed
  moreover have "tp_rel th n period p' (xs @ [x])"
    using p buf by (simp add: tp_rel_def p'_def ts' Let_def met_def)
  ultimately show ?thesis by (auto simp: tp_value_def met_def)
qed

section \<open>The averaging policy\<close>

definition latest :: "nat \<Rightarrow> 'a list \<Rightarrow> 'a list" where
  "latest n xs = drop (length xs - n) xs"

definition window_sum :: "nat \<Rightarrow> u32 list \<Rightarrow> nat" where
  "window_sum n acc = sum_list (map unat (latest n acc))"

definition window_mean :: "nat \<Rightarrow> u32 list \<Rightarrow> nat" where
  "window_mean n acc = window_sum n acc div length (latest n acc)"

text \<open>The samples that enter the window: the first, and those close enough to the mean before them.\<close>

definition distance :: "nat \<Rightarrow> nat \<Rightarrow> nat" where
  "distance a b = (if b \<le> a then a - b else b - a)"

definition trims :: "u32 \<Rightarrow> nat \<Rightarrow> u32 list \<Rightarrow> u32 \<Rightarrow> bool" where
  "trims trim n acc v \<longleftrightarrow> acc \<noteq> [] \<and> distance (unat v) (window_mean n acc) > unat trim"

definition accepted :: "u32 \<Rightarrow> nat \<Rightarrow> sample list \<Rightarrow> u32 list" where
  "accepted trim n xs = foldl (\<lambda>acc x. if trims trim n acc (fst x) then acc else acc @ [fst x]) [] xs"

lemma accepted_snoc:
  "accepted trim n (xs @ [x]) =
     (if trims trim n (accepted trim n xs) (fst x) then accepted trim n xs else accepted trim n xs @ [fst x])"
  by (simp add: accepted_def)

lemma length_latest: "length (latest n xs) = min (length xs) n"
  by (simp add: latest_def)

lemma latest_snoc:
  assumes "0 < n"
  shows "latest n (xs @ [x]) = (if length xs < n then latest n xs else tl (latest n xs)) @ [x]"
proof (cases "length xs < n")
  case True
  then show ?thesis by (simp add: latest_def)
next
  case False
  then have "Suc (length xs - n) = length xs + 1 - n" by simp
  then show ?thesis using False assms by (simp add: latest_def drop_Suc tl_drop Suc_diff_le)
qed

lemma window_sum_snoc:
  assumes "0 < n"
  shows "length acc < n \<Longrightarrow> window_sum n (acc @ [v]) = window_sum n acc + unat v"
    and "n \<le> length acc \<Longrightarrow> window_sum n (acc @ [v]) + unat (acc ! (length acc - n)) = window_sum n acc + unat v"
proof -
  show "length acc < n \<Longrightarrow> window_sum n (acc @ [v]) = window_sum n acc + unat v"
    using assms by (simp add: window_sum_def latest_snoc)
  assume n: "n \<le> length acc"
  then have "latest n acc = acc ! (length acc - n) # tl (latest n acc)"
    using assms by (simp add: latest_def tl_drop flip: drop_Suc) (metis Cons_nth_drop_Suc diff_less le_trans not_less0 not_less)
  then have "window_sum n acc = unat (acc ! (length acc - n)) + sum_list (map unat (tl (latest n acc)))"
    unfolding window_sum_def by (metis list.simps(9) sum_list.Cons)
  then show "window_sum n (acc @ [v]) + unat (acc ! (length acc - n)) = window_sum n acc + unat v"
    using n assms by (simp add: window_sum_def latest_snoc)
qed

lemma window_sum_bound: "window_sum n acc \<le> n * (2 ^ 32 - 1)"
proof -
  have each: "unat v \<le> 2 ^ 32 - 1" for v :: u32
  proof -
    have "unat v < 2 ^ 32" using unsigned_less [of v] by simp
    then show ?thesis by simp
  qed
  have "sum_list (map unat vs) \<le> length vs * (2 ^ 32 - 1)" for vs :: "u32 list"
  proof (induction vs)
    case (Cons v vs)
    with each [of v] show ?case by simp
  qed simp
  then have "window_sum n acc \<le> length (latest n acc) * (2 ^ 32 - 1)" by (simp add: window_sum_def)
  also have "\<dots> \<le> n * (2 ^ 32 - 1)" by (simp add: length_latest)
  finally show ?thesis .
qed

lemma window_mean_bound: "window_mean n acc < 2 ^ 32"
proof -
  have "window_sum (length (latest n acc)) (latest n acc) = window_sum n acc"
    by (simp add: window_sum_def latest_def)
  then have "window_sum n acc \<le> length (latest n acc) * (2 ^ 32 - 1)"
    using window_sum_bound [of "length (latest n acc)" "latest n acc"] by simp
  then have "window_mean n acc \<le> length (latest n acc) * (2 ^ 32 - 1) div length (latest n acc)"
    unfolding window_mean_def by (rule div_le_mono)
  also have "\<dots> \<le> 2 ^ 32 - 1" by (cases "latest n acc = []") simp_all
  finally show ?thesis by simp
qed

definition st_rel :: "u32 \<Rightarrow> nat \<Rightarrow> smooth_trim_policy \<Rightarrow> sample list \<Rightarrow> bool" where
  "st_rel trim n p xs \<longleftrightarrow> (let acc = accepted trim n xs in
     st_trim_threshold p = trim \<and> length (st_samples p) = n \<and> ring (st_samples p) acc
     \<and> st_head p = length acc mod n \<and> st_sample_count p = min (length acc) n
     \<and> st_sum p = word_of_nat (window_sum n acc) \<and> unat (st_average p) = window_mean n acc)"

text \<open>The distance of two unsigned values, computed without a sign.\<close>

lemma unat_distance:
  fixes v a :: u32
  shows "unat (if v \<ge> a then v - a else a - v) = distance (unat v) (unat a)"
  by (simp add: distance_def unat_sub word_le_nat_alt)

lemma st_rel_step:
  assumes rel: "st_rel trim n p xs" and n: "0 < n" "n \<le> 2 ^ 32"
  shows "\<exists>p' r. st_feed p (fst x) (snd x) = Some (p', r) \<and> st_rel trim n p' (xs @ [x])
    \<and> (pf_noteworthy r \<longleftrightarrow> window_mean n (accepted trim n (xs @ [x])) \<noteq> window_mean n (accepted trim n xs))
    \<and> st_value p' = pf_value r"
proof -
  define acc where "acc = accepted trim n xs"
  define v where "v = fst x"
  have p: "st_trim_threshold p = trim" "length (st_samples p) = n" "ring (st_samples p) acc"
    "st_head p = length acc mod n" "st_sample_count p = min (length acc) n"
    "st_sum p = word_of_nat (window_sum n acc)" "unat (st_average p) = window_mean n acc"
    using rel by (simp_all add: st_rel_def acc_def Let_def)
  have trims: "trims trim n acc v \<longleftrightarrow> st_sample_count p > 0
      \<and> (if v \<ge> st_average p then v - st_average p else st_average p - v) > st_trim_threshold p"
    unfolding trims_def word_less_nat_alt unat_distance p(1,5,7) using n by auto
  show ?thesis
  proof (cases "trims trim n acc v")
    case True
    then have "st_feed p v (snd x) = Some (p, \<lparr>pf_noteworthy = False, pf_value = st_average p\<rparr>)"
      using trims by (simp add: st_feed_def)
    moreover have "accepted trim n (xs @ [x]) = accepted trim n xs" using True by (simp add: accepted_snoc acc_def v_def)
    ultimately show ?thesis using rel by (simp add: st_rel_def st_value_def v_def)
  next
    case False
    define acc' where "acc' = acc @ [v]"
    have acc': "accepted trim n (xs @ [x]) = acc'" using False by (simp add: accepted_snoc acc_def v_def acc'_def)
    define buf where "buf = (st_samples p)[length acc mod n := v]"
    have buf: "length buf = n" "ring buf acc'"
      using ring_push [OF p(3), of v] p(2) n by (auto simp: buf_def acc'_def)
    define c where "c = min (length acc') n"
    have c: "0 < c" "c \<le> n" using n by (auto simp: c_def acc'_def)
    have cw: "unat (word_of_nat c :: u64) = c" using c n by (intro unat_of_nat_less) simp
    have small: "window_sum n ys < 2 ^ 64" for ys
    proof -
      have "window_sum n ys \<le> 2 ^ 32 * (2 ^ 32 - 1)"
        using window_sum_bound [of n ys] mult_le_mono1 [OF n(2), of "2 ^ 32 - 1"] by linarith
      then show ?thesis by simp
    qed
    have sum: "word_of_nat (window_sum n acc') = (if length acc < n then st_sum p + ucast v
        else st_sum p - ucast (st_samples p ! (length acc mod n)) + ucast v :: u64)"
    proof (cases "length acc < n")
      case True
      then show ?thesis using window_sum_snoc(1) [OF n(1) True, of v] by (simp add: acc'_def p(6))
    next
      case full: False
      then have "st_samples p ! (length acc mod n) = acc ! (length acc - n)"
        using ring_oldest [OF p(3)] p(2) n by auto
      moreover have "word_of_nat (window_sum n acc' + unat (acc ! (length acc - n)))
          = (word_of_nat (window_sum n acc + unat v) :: u64)"
        using window_sum_snoc(2) [OF n(1), of acc v] full by (simp add: acc'_def)
      ultimately show ?thesis using full by (simp add: p(6) algebra_simps)
    qed
    define avg where "avg = (ucast (word_of_nat (window_sum n acc') div word_of_nat c :: u64) :: u32)"
    have avg: "unat avg = window_mean n acc'"
    proof -
      have "unat (word_of_nat (window_sum n acc') div word_of_nat c :: u64) = window_sum n acc' div c"
        unfolding unat_div_distrib cw using small by (simp add: unat_of_nat_less)
      also have "\<dots> = window_mean n acc'" by (simp add: window_mean_def length_latest c_def)
      finally show ?thesis
        unfolding avg_def unsigned_ucast_eq using window_mean_bound [of n acc'] by (simp add: take_bit_eq_mod)
    qed
    define p' where "p' = p\<lparr>st_samples := buf, st_sample_count := c, st_head := (length acc + 1) mod n,
        st_sum := word_of_nat (window_sum n acc'), st_average := avg\<rparr>"
    have "st_feed p v (snd x) = Some (p', \<lparr>pf_noteworthy = avg \<noteq> st_average p, pf_value = avg\<rparr>)"
    proof -
      have nz: "word_of_nat c \<noteq> (0 :: u64)" using c(1) cw by (metis less_irrefl unsigned_0)
      have head: "st_head p < length (st_samples p)" using p(2,4) n(1) by simp
      show ?thesis
      proof (cases "length acc < n")
        case True
        then have "st_sum p + ucast v = word_of_nat (window_sum n acc')" "c = length acc + 1"
          using sum by (simp_all add: c_def acc'_def)
        with True nz head p(2,4,5) buf_def show ?thesis
          unfolding st_feed_def if_not_P [OF False [unfolded trims]]
          by (simp add: Let_def p'_def avg_def mod_Suc_eq)
      next
        case full: False
        then have "st_sum p - ucast (st_samples p ! (length acc mod n)) + ucast v = word_of_nat (window_sum n acc')" "c = n"
          using sum by (simp_all add: c_def acc'_def)
        with full nz head p(2,4,5) buf_def show ?thesis
          unfolding st_feed_def if_not_P [OF False [unfolded trims]]
          by (simp add: Let_def p'_def avg_def mod_Suc_eq)
      qed
    qed
    moreover have "st_rel trim n p' (xs @ [x])"
      using p(1) buf avg acc' by (simp add: st_rel_def p'_def Let_def c_def acc'_def)
    moreover have "avg \<noteq> st_average p \<longleftrightarrow> window_mean n acc' \<noteq> window_mean n acc"
      using avg p(7) by (metis unsigned_word_eqI)
    ultimately show ?thesis using acc' by (simp add: v_def st_value_def p'_def acc_def)
  qed
qed

section \<open>The contract holds for the three policies\<close>

definition cf_inv :: "cont_for_policy \<Rightarrow> bool" where
  "cf_inv p \<longleftrightarrow> (\<exists>th d xs. 0 \<le> d \<and> times_ok xs \<and> cf_rel th d p xs)"

definition tp_inv :: "times_per_period_policy \<Rightarrow> bool" where
  "tp_inv p \<longleftrightarrow> (\<exists>th n period xs. 0 < n \<and> times_ok xs \<and> tp_rel th n period p xs)"

definition st_inv :: "smooth_trim_policy \<Rightarrow> bool" where
  "st_inv p \<longleftrightarrow> (\<exists>trim n xs. 0 < n \<and> n \<le> 2 ^ 32 \<and> st_rel trim n p xs)"

lemma cf_rel_new: "make_cont_for_policy th d = Some p \<Longrightarrow> 0 \<le> d \<and> cf_rel th d p []"
  by (auto simp: make_cont_for_policy_def cf_rel_def over_run_def split: if_split_asm)

lemma tp_rel_new: "make_times_per_period_policy th n period = Some p \<Longrightarrow> 0 < n \<and> tp_rel th n period p []"
  by (auto simp: make_times_per_period_policy_def tp_rel_def event_times_def frequent_def ring_Nil Let_def split: if_split_asm)

lemma st_rel_new: "make_smooth_trim_policy n trim = Some p \<Longrightarrow> 0 < n \<and> st_rel trim n p []"
  by (auto simp: make_smooth_trim_policy_def st_rel_def accepted_def window_mean_def window_sum_def latest_def ring_Nil
      split: if_split_asm)

lemma times_ok_snoc: "times_ok xs \<Longrightarrow> 0 \<le> t \<Longrightarrow> is_int64 t \<Longrightarrow> times_ok (xs @ [(v, t)])"
  by (simp add: times_ok_def)

interpretation cont_for: monitor_policy cf_inv cont_for_feed cont_for_value
proof
  fix p v t
  assume "cf_inv p" and t: "0 \<le> t" "is_int64 t"
  then obtain th d xs where p: "0 \<le> d" "times_ok xs" "cf_rel th d p xs" by (auto simp: cf_inv_def)
  have ok: "times_ok (xs @ [(v, t)])" by (rule times_ok_snoc [OF p(2) t])
  from cf_rel_step [OF p(3,1) ok, unfolded fst_conv snd_conv] p(1) ok
  show "\<exists>p' r. cont_for_feed p v t = Some (p', r) \<and> cf_inv p' \<and> cont_for_value p' = pf_value r"
    unfolding cf_inv_def by blast
qed

interpretation times_per_period: monitor_policy tp_inv tp_feed tp_value
proof
  fix p v t
  assume "tp_inv p" and t: "0 \<le> t" "is_int64 t"
  then obtain th n period xs where p: "0 < n" "times_ok xs" "tp_rel th n period p xs" by (auto simp: tp_inv_def)
  have ok: "times_ok (xs @ [(v, t)])" by (rule times_ok_snoc [OF p(2) t])
  from tp_rel_step [OF p(3,1) ok, unfolded fst_conv snd_conv] p(1) ok
  show "\<exists>p' r. tp_feed p v t = Some (p', r) \<and> tp_inv p' \<and> tp_value p' = pf_value r"
    unfolding tp_inv_def by blast
qed

interpretation smooth_trim: monitor_policy st_inv st_feed st_value
proof
  fix p v t
  assume "st_inv p" and t: "0 \<le> t" "is_int64 t"
  then obtain trim n xs where p: "0 < n" "n \<le> 2 ^ 32" "st_rel trim n p xs" by (auto simp: st_inv_def)
  from st_rel_step [OF p(3,1,2), of "(v, t)", unfolded fst_conv snd_conv] p(1,2)
  show "\<exists>p' r. st_feed p v t = Some (p', r) \<and> st_inv p' \<and> st_value p' = pf_value r"
    unfolding st_inv_def by blast
qed

section \<open>Properties\<close>

text \<open>
  C29. The threshold policy raises its alarm exactly when it should. After any history of
  samples its value is 1 if the samples at the end that lie above the threshold include one at
  least the duration later than the first of them, and 0 otherwise; the last sample was
  noteworthy exactly when it made the alarm rise. Time may stand still or go back.
\<close>

theorem cont_for_exact:
  assumes "make_cont_for_policy th d = Some p" and "times_ok (xs @ [x])"
  shows "\<exists>q rs r. feed_all cont_for_feed (xs @ [x]) p = Some (q, rs @ [r])
    \<and> cont_for_value q = (if cont_for_alarm th d (xs @ [x]) then 1 else 0) \<and> cont_for_value q = pf_value r
    \<and> (pf_noteworthy r \<longleftrightarrow> cont_for_alarm th d (xs @ [x]) \<and> \<not> cont_for_alarm th d xs)"
proof -
  have d: "0 \<le> d" and init: "cf_rel th d p []" using cf_rel_new [OF assms(1)] by auto
  let ?Q = "\<lambda>r xs x. (pf_noteworthy r \<longleftrightarrow> cont_for_alarm th d (xs @ [x]) \<and> \<not> cont_for_alarm th d xs)"
  let ?R = "\<lambda>q ys. cf_rel th d q ys"
  have cur: "cont_for_value q = (if cont_for_alarm th d ys then 1 else 0)" if "cf_rel th d q ys" for q ys
    using that by (auto simp: cf_rel_def cont_for_value_def cont_for_alarm_def split: list.split_asm if_split_asm)
  obtain q rs r where "feed_all cont_for_feed (xs @ [x]) p = Some (q, rs @ [r])" "cf_rel th d q (xs @ [x])" "?Q r xs x"
    using feed_all_history(2) [of ?R p cont_for_feed ?Q, OF init _ assms(2)] cf_rel_step [OF _ d] by blast
  moreover have "cont_for_value q = pf_value r"
  proof -
    have "times_ok []" by (simp add: times_ok_def)
    with init d have "cf_inv p" unfolding cf_inv_def by blast
    from cont_for.feed_all_defined [OF this, of "xs @ [x]"] assms(2) calculation(1) show ?thesis
      by (auto simp: times_ok_def)
  qed
  ultimately show ?thesis using cur by blast
qed

theorem cont_for_exact_witness:
  "\<exists>q rs r. feed_all cont_for_feed ([(9, 100), (9, 130)] @ [(9, 150)])
       \<lparr>cf_threshold = 5, cf_duration = 50, cf_state = IDLE, cf_crossed_at = 0\<rparr> = Some (q, rs @ [r])
     \<and> cont_for_value q = 1 \<and> pf_noteworthy r"
proof -
  have "make_cont_for_policy 5 50 = Some \<lparr>cf_threshold = 5, cf_duration = 50, cf_state = IDLE, cf_crossed_at = 0\<rparr>"
    by (simp add: make_cont_for_policy_def)
  from cont_for_exact [OF this, of "[(9, 100), (9, 130)]" "(9, 150)"] show ?thesis
    by (fastforce simp: times_ok_def is_int64_def cont_for_alarm_def over_run_def)
qed

text \<open>
  C30. The frequency policy with its ring buffer alerts exactly when the last \<open>n\<close> samples above
  the threshold lie within the period: its value says so after every history, and a sample is
  noteworthy exactly when it makes the alert rise. Samples not above the threshold change nothing.
\<close>

theorem times_per_period_exact:
  assumes "make_times_per_period_policy th n period = Some p" and "times_ok (xs @ [x])"
  shows "\<exists>q rs r. feed_all tp_feed (xs @ [x]) p = Some (q, rs @ [r])
    \<and> tp_value q = (if frequent th n period (xs @ [x]) then 1 else 0)
    \<and> (pf_noteworthy r \<longleftrightarrow> frequent th n period (xs @ [x]) \<and> \<not> frequent th n period xs)"
proof -
  have n: "0 < n" and init: "tp_rel th n period p []" using tp_rel_new [OF assms(1)] by auto
  let ?Q = "\<lambda>r xs x. (pf_noteworthy r \<longleftrightarrow> frequent th n period (xs @ [x]) \<and> \<not> frequent th n period xs)"
  let ?R = "\<lambda>q ys. tp_rel th n period q ys"
  obtain q rs r where "feed_all tp_feed (xs @ [x]) p = Some (q, rs @ [r])" "tp_rel th n period q (xs @ [x])" "?Q r xs x"
    using feed_all_history(2) [of ?R p tp_feed ?Q, OF init _ assms(2)] tp_rel_step [OF _ n] by blast
  moreover from this(2) have "tp_value q = (if frequent th n period (xs @ [x]) then 1 else 0)"
    by (simp add: tp_rel_def tp_value_def tp_current_value_def Let_def)
  ultimately show ?thesis by blast
qed

theorem times_per_period_exact_witness:
  "\<exists>q rs r. feed_all tp_feed ([(9, 100), (1, 120)] @ [(9, 150)])
       \<lparr>tp_threshold = 5, tp_period = 50, tp_events = [0, 0], tp_event_count = 0, tp_head = 0, tp_alerting = False\<rparr>
       = Some (q, rs @ [r]) \<and> tp_value q = 1 \<and> pf_noteworthy r"
proof -
  have "make_times_per_period_policy 5 2 50 = Some \<lparr>tp_threshold = 5, tp_period = 50, tp_events = [0, 0],
      tp_event_count = 0, tp_head = 0, tp_alerting = False\<rparr>"
    by (simp add: make_times_per_period_policy_def numeral_2_eq_2)
  from times_per_period_exact [OF this, of "[(9, 100), (1, 120)]" "(9, 150)"] show ?thesis
    by (fastforce simp: times_ok_def is_int64_def frequent_def event_times_def)
qed

text \<open>
  C31. The averaging policy computes the mean of its window exactly. For a window of at most
  \<open>2 ^ 32\<close> samples the 64-bit sum never wraps: after any history the value is the rounded-down
  mean of the last \<open>n\<close> accepted samples, a sample being rejected only when it lies further from
  the mean so far than the trim threshold; it is noteworthy exactly when the mean changes.
\<close>

theorem smooth_trim_exact:
  assumes "make_smooth_trim_policy n trim = Some p" and "n \<le> 2 ^ 32" and "times_ok (xs @ [x])"
  shows "\<exists>q rs r. feed_all st_feed (xs @ [x]) p = Some (q, rs @ [r])
    \<and> unat (st_value q) = window_mean n (accepted trim n (xs @ [x]))
    \<and> unat (st_sum q) = window_sum n (accepted trim n (xs @ [x]))
    \<and> (pf_noteworthy r \<longleftrightarrow> window_mean n (accepted trim n (xs @ [x])) \<noteq> window_mean n (accepted trim n xs))"
proof -
  have n: "0 < n" and init: "st_rel trim n p []" using st_rel_new [OF assms(1)] by auto
  let ?Q = "\<lambda>r xs x. (pf_noteworthy r \<longleftrightarrow>
    window_mean n (accepted trim n (xs @ [x])) \<noteq> window_mean n (accepted trim n xs))"
  let ?R = "\<lambda>q ys. st_rel trim n q ys"
  obtain q rs r where q: "feed_all st_feed (xs @ [x]) p = Some (q, rs @ [r])" "st_rel trim n q (xs @ [x])" "?Q r xs x"
    using feed_all_history(2) [of ?R p st_feed ?Q, OF init _ assms(3)] st_rel_step [OF _ n assms(2)] by blast
  have "window_sum n (accepted trim n (xs @ [x])) \<le> 2 ^ 32 * (2 ^ 32 - 1)"
    using window_sum_bound [of n "accepted trim n (xs @ [x])"] mult_le_mono1 [OF assms(2), of "2 ^ 32 - 1"] by linarith
  then have "window_sum n (accepted trim n (xs @ [x])) < 2 ^ 64" by simp
  with q show ?thesis by (auto simp: st_rel_def st_value_def Let_def unat_of_nat_less)
qed

theorem smooth_trim_exact_witness:
  "\<exists>q rs r. feed_all st_feed ([(10, 0), (99, 1)] @ [(20, 2)])
       \<lparr>st_trim_threshold = 30, st_samples = [0, 0], st_sample_count = 0, st_head = 0, st_sum = 0, st_average = 0\<rparr>
       = Some (q, rs @ [r]) \<and> unat (st_value q) = 15"
proof -
  have p: "make_smooth_trim_policy 2 30 = Some \<lparr>st_trim_threshold = 30, st_samples = [0, 0], st_sample_count = 0,
      st_head = 0, st_sum = 0, st_average = 0\<rparr>"
    by (simp add: make_smooth_trim_policy_def numeral_2_eq_2)
  have "window_mean 2 (accepted 30 2 ([(10, 0), (99, 1)] @ [(20, 2)])) = 15" by code_simp
  with smooth_trim_exact [OF p, of "[(10, 0), (99, 1)]" "(20, 2)"] show ?thesis
    by (auto simp: times_ok_def is_int64_def)
qed

end
