(* ===== verification/Wake_Pipe.thy ===== *)
theory Wake_Pipe
  imports TLSS_Prelude
begin

text \<open>
  The wake-up pipe of \<^verbatim>\<open>src/monitor/wake_pipe.cpp\<close>. The system calls are the kernel's: they are
  given by a record of arbitrary functions on a kernel state \<open>'k\<close>, of which nothing is assumed. The
  retry loops may run for ever when every call is interrupted; then they have no result.
\<close>

section \<open>System calls\<close>

datatype errno = EINTR | EAGAIN | EWOULDBLOCK | OTHER_ERRNO int

datatype io_result = IO_DONE nat | IO_ERROR errno

datatype fcntl_command = F_GETFL | F_SETFL int | F_GETFD | F_SETFD int

record 'k pipe_sys =
  sys_pipe :: "'k \<Rightarrow> (int \<times> int) option \<times> 'k"
  sys_fcntl :: "int \<Rightarrow> fcntl_command \<Rightarrow> 'k \<Rightarrow> int \<times> 'k"
  sys_write :: "int \<Rightarrow> bytes \<Rightarrow> 'k \<Rightarrow> io_result \<times> 'k"
  sys_read :: "int \<Rightarrow> nat \<Rightarrow> 'k \<Rightarrow> io_result \<times> 'k"
  sys_close :: "int \<Rightarrow> 'k \<Rightarrow> 'k"

definition O_NONBLOCK :: int where "O_NONBLOCK = 2048"

definition FD_CLOEXEC :: int where "FD_CLOEXEC = 1"

section \<open>The pipe\<close>

datatype pipe_status =
  PIPE_OPENFAILED | PIPE_WAKEUPFAILED | PIPE_READFAILED | PIPE_PIPECLOSED | PIPE_SETNONBLOCKFAILED
  | PIPE_SETCLOSEONEXECFAILED | PIPE_ALREADYINITIALIZED | PIPE_SUCCESSFUL

datatype pipe_state = PIPE_UNINITIALIZED | PIPE_INITIALIZING | PIPE_READY | PIPE_CLOSED

record wake_pipe =
  wp_read_fd :: int
  wp_write_fd :: int
  wp_state :: pipe_state

definition new_wake_pipe :: wake_pipe where
  "new_wake_pipe = \<lparr>wp_read_fd = -1, wp_write_fd = -1, wp_state = PIPE_UNINITIALIZED\<rparr>"

definition set_non_blocking :: "'k pipe_sys \<Rightarrow> int \<Rightarrow> 'k \<Rightarrow> pipe_status \<times> 'k" where
  "set_non_blocking sys fd k =
     (let (flags, k) = sys_fcntl sys fd F_GETFL k
      in if flags = -1 then (PIPE_SETNONBLOCKFAILED, k)
         else let (r, k) = sys_fcntl sys fd (F_SETFL (flags OR O_NONBLOCK)) k
              in (if r = -1 then PIPE_SETNONBLOCKFAILED else PIPE_SUCCESSFUL, k))"

definition set_close_on_exec :: "'k pipe_sys \<Rightarrow> int \<Rightarrow> 'k \<Rightarrow> pipe_status \<times> 'k" where
  "set_close_on_exec sys fd k =
     (let (flags, k) = sys_fcntl sys fd F_GETFD k
      in if flags = -1 then (PIPE_SETCLOSEONEXECFAILED, k)
         else let (r, k) = sys_fcntl sys fd (F_SETFD (flags OR FD_CLOEXEC)) k
              in (if r = -1 then PIPE_SETCLOSEONEXECFAILED else PIPE_SUCCESSFUL, k))"

text \<open>One step of the configuration: skipped once a step before it has failed.\<close>

definition if_successful :: "pipe_status \<times> 'k \<Rightarrow> ('k \<Rightarrow> pipe_status \<times> 'k) \<Rightarrow> pipe_status \<times> 'k" where
  "if_successful r f = (if fst r = PIPE_SUCCESSFUL then f (snd r) else r)"

definition pipe_init :: "'k pipe_sys \<Rightarrow> wake_pipe \<Rightarrow> 'k \<Rightarrow> wake_pipe \<times> 'k \<times> pipe_status" where
  "pipe_init sys p k =
     (if wp_state p \<noteq> PIPE_UNINITIALIZED then (p, k, PIPE_ALREADYINITIALIZED)
      else case sys_pipe sys k of
        (None, k) \<Rightarrow> (p\<lparr>wp_state := PIPE_UNINITIALIZED\<rparr>, k, PIPE_OPENFAILED)
      | (Some (rfd, wfd), k) \<Rightarrow>
          let r = set_non_blocking sys rfd k;
              r = if_successful r (set_non_blocking sys wfd);
              r = if_successful r (set_close_on_exec sys rfd);
              r = if_successful r (set_close_on_exec sys wfd)
          in if fst r \<noteq> PIPE_SUCCESSFUL
             then (p\<lparr>wp_state := PIPE_UNINITIALIZED\<rparr>, sys_close sys wfd (sys_close sys rfd (snd r)), fst r)
             else (\<lparr>wp_read_fd = rfd, wp_write_fd = wfd, wp_state = PIPE_READY\<rparr>, snd r, PIPE_SUCCESSFUL))"

definition pipe_read_fd :: "wake_pipe \<Rightarrow> int" where
  "pipe_read_fd p = (if wp_state p \<noteq> PIPE_READY then -1 else wp_read_fd p)"

partial_function (option) wakeup_loop :: "'k pipe_sys \<Rightarrow> int \<Rightarrow> 'k \<Rightarrow> (pipe_status \<times> 'k) option" where
  "wakeup_loop sys fd k =
     (case sys_write sys fd [byte_of_char (CHR ''*'')] k of
        (r, k) \<Rightarrow>
          (if r = IO_DONE 1 then Some (PIPE_SUCCESSFUL, k)
           else if r = IO_ERROR EINTR then wakeup_loop sys fd k
           else if r = IO_ERROR EAGAIN \<or> r = IO_ERROR EWOULDBLOCK then Some (PIPE_SUCCESSFUL, k)
           else Some (PIPE_WAKEUPFAILED, k)))"

definition wakeup :: "'k pipe_sys \<Rightarrow> wake_pipe \<Rightarrow> 'k \<Rightarrow> (pipe_status \<times> 'k) option" where
  "wakeup sys p k =
     (if wp_state p \<noteq> PIPE_READY then Some (PIPE_PIPECLOSED, k) else wakeup_loop sys (wp_write_fd p) k)"

partial_function (option) drain_loop :: "'k pipe_sys \<Rightarrow> int \<Rightarrow> 'k \<Rightarrow> (pipe_status \<times> 'k) option" where
  "drain_loop sys fd k =
     (case sys_read sys fd 64 k of
        (IO_DONE n, k) \<Rightarrow> (if 0 < n then drain_loop sys fd k else Some (PIPE_PIPECLOSED, k))
      | (IO_ERROR e, k) \<Rightarrow>
          (if e = EINTR then drain_loop sys fd k
           else if e = EAGAIN \<or> e = EWOULDBLOCK then Some (PIPE_SUCCESSFUL, k)
           else Some (PIPE_READFAILED, k)))"

definition drain :: "'k pipe_sys \<Rightarrow> wake_pipe \<Rightarrow> 'k \<Rightarrow> (pipe_status \<times> 'k) option" where
  "drain sys p k =
     (if wp_state p \<noteq> PIPE_READY then Some (PIPE_PIPECLOSED, k) else drain_loop sys (wp_read_fd p) k)"

definition pipe_close :: "'k pipe_sys \<Rightarrow> wake_pipe \<Rightarrow> 'k \<Rightarrow> wake_pipe \<times> 'k" where
  "pipe_close sys p k =
     (if wp_state p = PIPE_CLOSED then (p, k)
      else let k = (if 0 \<le> wp_read_fd p then sys_close sys (wp_read_fd p) k else k);
               k = (if 0 \<le> wp_write_fd p then sys_close sys (wp_write_fd p) k else k)
           in (\<lparr>wp_read_fd = -1, wp_write_fd = -1, wp_state = PIPE_CLOSED\<rparr>, k))"

declare wakeup_loop.simps [code] drain_loop.simps [code]

section \<open>The retry loops\<close>

text \<open>
  The kernel after \<open>n\<close> calls in a row, and that call number \<open>n\<close> is the first one whose result does
  not make the loop go round again.
\<close>

definition calls :: "('k \<Rightarrow> io_result \<times> 'k) \<Rightarrow> nat \<Rightarrow> 'k \<Rightarrow> 'k" where
  "calls f n k = ((snd \<circ> f) ^^ n) k"

lemma calls_simps [simp]: "calls f 0 k = k" "calls f (Suc n) k = calls f n (snd (f k))"
  by (simp_all add: calls_def funpow_swap1)

definition first_decisive :: "('k \<Rightarrow> io_result \<times> 'k) \<Rightarrow> (io_result \<Rightarrow> bool) \<Rightarrow> nat \<Rightarrow> 'k \<Rightarrow> bool" where
  "first_decisive f again n k \<longleftrightarrow>
     (\<forall>i < n. again (fst (f (calls f i k)))) \<and> \<not> again (fst (f (calls f n k)))"

lemma first_decisive_simps:
  "first_decisive f again 0 k \<longleftrightarrow> \<not> again (fst (f k))"
  "first_decisive f again (Suc n) k \<longleftrightarrow> again (fst (f k)) \<and> first_decisive f again n (snd (f k))"
  by (auto simp: first_decisive_def All_less_Suc2)

lemmas wakeup_loop_induct = wakeup_loop.raw_induct [rotated 1, consumes 1, case_names step]
lemmas drain_loop_induct = drain_loop.raw_induct [rotated 1, consumes 1, case_names step]

text \<open>What the result of the last call means to the caller.\<close>

definition write_status :: "io_result \<Rightarrow> pipe_status" where
  "write_status r = (if r \<in> {IO_DONE 1, IO_ERROR EAGAIN, IO_ERROR EWOULDBLOCK} then PIPE_SUCCESSFUL else PIPE_WAKEUPFAILED)"

definition read_status :: "io_result \<Rightarrow> pipe_status" where
  "read_status r =
     (case r of
        IO_DONE _ \<Rightarrow> PIPE_PIPECLOSED
      | IO_ERROR e \<Rightarrow> if e = EAGAIN \<or> e = EWOULDBLOCK then PIPE_SUCCESSFUL else PIPE_READFAILED)"

definition read_again :: "io_result \<Rightarrow> bool" where
  "read_again r \<longleftrightarrow> (case r of IO_DONE n \<Rightarrow> 0 < n | IO_ERROR e \<Rightarrow> e = EINTR)"

abbreviation write_signal :: "'k pipe_sys \<Rightarrow> int \<Rightarrow> 'k \<Rightarrow> io_result \<times> 'k" where
  "write_signal sys fd \<equiv> sys_write sys fd [byte_of_char (CHR ''*'')]"

lemma wakeup_loop_unfold:
  "wakeup_loop sys fd k = (let r = write_signal sys fd k in
     if fst r = IO_ERROR EINTR then wakeup_loop sys fd (snd r) else Some (write_status (fst r), snd r))"
  by (cases "write_signal sys fd k") (simp add: wakeup_loop.simps [of sys fd k] write_status_def)

lemma drain_loop_unfold:
  "drain_loop sys fd k = (let r = sys_read sys fd 64 k in
     if read_again (fst r) then drain_loop sys fd (snd r) else Some (read_status (fst r), snd r))"
  by (cases "sys_read sys fd 64 k"; cases "fst (sys_read sys fd 64 k)")
    (simp_all add: drain_loop.simps [of sys fd k] read_status_def read_again_def)

lemma wakeup_loop_returns:
  "first_decisive (write_signal sys fd) (\<lambda>r. r = IO_ERROR EINTR) n k \<Longrightarrow>
     wakeup_loop sys fd k = Some (write_status (fst (write_signal sys fd (calls (write_signal sys fd) n k))),
       calls (write_signal sys fd) (Suc n) k)"
  by (induction n arbitrary: k)
    (subst wakeup_loop_unfold, simp add: first_decisive_simps Let_def)+

lemma drain_loop_returns:
  "first_decisive (sys_read sys fd 64) read_again n k \<Longrightarrow>
     drain_loop sys fd k = Some (read_status (fst (sys_read sys fd 64 (calls (sys_read sys fd 64) n k))),
       calls (sys_read sys fd 64) (Suc n) k)"
  by (induction n arbitrary: k)
    (subst drain_loop_unfold, simp add: first_decisive_simps Let_def)+

lemma wakeup_loop_decided:
  "wakeup_loop sys fd k = Some r \<Longrightarrow> \<exists>n. first_decisive (write_signal sys fd) (\<lambda>r. r = IO_ERROR EINTR) n k"
proof (induction rule: wakeup_loop_induct)
  case (step w sys fd k r)
  show ?case
  proof (cases "fst (write_signal sys fd k) = IO_ERROR EINTR")
    case True
    with step(2) have "w sys fd (snd (write_signal sys fd k)) = Some r" by (cases "write_signal sys fd k") simp
    then obtain n where "first_decisive (write_signal sys fd) (\<lambda>r. r = IO_ERROR EINTR) n (snd (write_signal sys fd k))" using step(1) by blast
    with True show ?thesis by (intro exI [of _ "Suc n"]) (simp add: first_decisive_simps)
  next
    case False
    then show ?thesis by (intro exI [of _ 0]) (simp add: first_decisive_simps)
  qed
qed

lemma drain_loop_decided:
  "drain_loop sys fd k = Some r \<Longrightarrow> \<exists>n. first_decisive (sys_read sys fd 64) read_again n k"
proof (induction rule: drain_loop_induct)
  case (step w sys fd k r)
  show ?case
  proof (cases "read_again (fst (sys_read sys fd 64 k))")
    case True
    with step(2) have "w sys fd (snd (sys_read sys fd 64 k)) = Some r"
      by (cases "sys_read sys fd 64 k"; cases "fst (sys_read sys fd 64 k)") (simp_all add: read_again_def)
    then obtain n where "first_decisive (sys_read sys fd 64) read_again n (snd (sys_read sys fd 64 k))" using step(1) by blast
    with True show ?thesis by (intro exI [of _ "Suc n"]) (simp add: first_decisive_simps)
  next
    case False
    then show ?thesis by (intro exI [of _ 0]) (simp add: first_decisive_simps)
  qed
qed

section \<open>Properties\<close>

text \<open>
  C39. The retry loops return exactly when a call settles them, and report that call. Whatever the
  kernel does: on a pipe that is not ready no call is made and the answer is
  \<open>PIPE_PIPECLOSED\<close>; otherwise waking returns if and only if some write is not interrupted by a
  signal, after the first such write, with success when it wrote the byte or found the pipe full;
  draining returns if and only if some read neither is interrupted nor delivers bytes, after the
  first such read, with success when that read found the pipe empty and \<open>PIPE_PIPECLOSED\<close> at its end.
\<close>

theorem wake_pipe_retries:
  fixes sys :: "'k pipe_sys" and p :: wake_pipe
  defines "w \<equiv> sys_write sys (wp_write_fd p) [byte_of_char (CHR ''*'')]" and "r \<equiv> sys_read sys (wp_read_fd p) 64"
  shows "(wakeup sys p k = Some (st, k') \<longleftrightarrow>
      (if wp_state p \<noteq> PIPE_READY then st = PIPE_PIPECLOSED \<and> k' = k
       else \<exists>n. (\<forall>i < n. fst (w (calls w i k)) = IO_ERROR EINTR) \<and> k' = calls w (Suc n) k \<and>
         (case fst (w (calls w n k)) of
            IO_DONE m \<Rightarrow> st = (if m = 1 then PIPE_SUCCESSFUL else PIPE_WAKEUPFAILED)
          | IO_ERROR e \<Rightarrow> e \<noteq> EINTR \<and> st = (if e \<in> {EAGAIN, EWOULDBLOCK} then PIPE_SUCCESSFUL else PIPE_WAKEUPFAILED)))) \<and>
    (drain sys p k = Some (st, k') \<longleftrightarrow>
      (if wp_state p \<noteq> PIPE_READY then st = PIPE_PIPECLOSED \<and> k' = k
       else \<exists>n. (\<forall>i < n. fst (r (calls r i k)) = IO_ERROR EINTR \<or> (\<exists>m > 0. fst (r (calls r i k)) = IO_DONE m)) \<and>
         k' = calls r (Suc n) k \<and>
         (case fst (r (calls r n k)) of
            IO_DONE m \<Rightarrow> m = 0 \<and> st = PIPE_PIPECLOSED
          | IO_ERROR e \<Rightarrow> e \<noteq> EINTR \<and> st = (if e \<in> {EAGAIN, EWOULDBLOCK} then PIPE_SUCCESSFUL else PIPE_READFAILED))))"
proof -
  have w: "(\<forall>i < n. fst (w (calls w i k)) = IO_ERROR EINTR) \<and> k' = calls w (Suc n) k \<and>
         (case fst (w (calls w n k)) of
            IO_DONE m \<Rightarrow> st = (if m = 1 then PIPE_SUCCESSFUL else PIPE_WAKEUPFAILED)
          | IO_ERROR e \<Rightarrow> e \<noteq> EINTR \<and> st = (if e \<in> {EAGAIN, EWOULDBLOCK} then PIPE_SUCCESSFUL else PIPE_WAKEUPFAILED))
     \<longleftrightarrow> first_decisive w (\<lambda>r. r = IO_ERROR EINTR) n k \<and> (st, k') = (write_status (fst (w (calls w n k))), calls w (Suc n) k)" for n
    by (cases "fst (w (calls w n k))") (auto simp: first_decisive_def write_status_def)
  have r: "(\<forall>i < n. fst (r (calls r i k)) = IO_ERROR EINTR \<or> (\<exists>m > 0. fst (r (calls r i k)) = IO_DONE m)) \<and>
         k' = calls r (Suc n) k \<and>
         (case fst (r (calls r n k)) of
            IO_DONE m \<Rightarrow> m = 0 \<and> st = PIPE_PIPECLOSED
          | IO_ERROR e \<Rightarrow> e \<noteq> EINTR \<and> st = (if e \<in> {EAGAIN, EWOULDBLOCK} then PIPE_SUCCESSFUL else PIPE_READFAILED))
     \<longleftrightarrow> first_decisive r read_again n k \<and> (st, k') = (read_status (fst (r (calls r n k))), calls r (Suc n) k)" for n
  proof -
    have "read_again x \<longleftrightarrow> x = IO_ERROR EINTR \<or> (\<exists>m > 0. x = IO_DONE m)" for x by (cases x) (auto simp: read_again_def)
    then show ?thesis by (cases "fst (r (calls r n k))") (auto simp: first_decisive_def read_status_def)
  qed
  have "wakeup_loop sys (wp_write_fd p) k = Some (st, k') \<longleftrightarrow>
      (\<exists>n. first_decisive w (\<lambda>r. r = IO_ERROR EINTR) n k \<and> (st, k') = (write_status (fst (w (calls w n k))), calls w (Suc n) k))"
    using wakeup_loop_returns [of sys "wp_write_fd p" _ k] wakeup_loop_decided [of sys "wp_write_fd p" k] unfolding w_def by fastforce
  moreover have "drain_loop sys (wp_read_fd p) k = Some (st, k') \<longleftrightarrow>
      (\<exists>n. first_decisive r read_again n k \<and> (st, k') = (read_status (fst (r (calls r n k))), calls r (Suc n) k))"
    using drain_loop_returns [of sys "wp_read_fd p" _ k] drain_loop_decided [of sys "wp_read_fd p" k] unfolding r_def by fastforce
  ultimately show ?thesis unfolding w r by (auto simp: wakeup_def drain_def)
qed

theorem wake_pipe_retries_witness:
  "wakeup \<lparr>sys_pipe = (\<lambda>k. (Some (3, 4), k)), sys_fcntl = (\<lambda>_ _ k. (0, k)),
      sys_write = (\<lambda>_ bs k. if k < 2 then (IO_ERROR EINTR, Suc k) else (IO_DONE (length bs), Suc k)),
      sys_read = (\<lambda>_ n k. (IO_ERROR EAGAIN, k)), sys_close = (\<lambda>_ k. k)\<rparr>
    \<lparr>wp_read_fd = 3, wp_write_fd = 4, wp_state = PIPE_READY\<rparr> (0 :: nat) = Some (PIPE_SUCCESSFUL, 3)"
proof -
  have "\<forall>i < (2 :: nat). i = 0 \<or> i = Suc 0" by auto
  then show ?thesis
    unfolding wake_pipe_retries [THEN conjunct1] by (auto simp: numeral_2_eq_2 numeral_3_eq_3 intro!: exI [of _ 2])
qed

end
