(* ===== verification/Callback_Registry.thy ===== *)
theory Callback_Registry
  imports TLSS_Prelude
begin

text \<open>
  Callbacks with statistics and a worker thread, and the registry of them
  (\<^verbatim>\<open>src/monitor/callback_registry.cpp\<close>). The callback is code of the caller: a function on a state
  \<open>'e\<close> that returns a number or throws (\<^term>\<open>None\<close>), and the steady clock is read from that state.
  The worker thread, the threads that activate the callback and the one that stops it interleave
  at the points where they do not hold the mutex; each stretch under the mutex is one step.
\<close>

section \<open>Statistics\<close>

record callback_stats =
  cs_count :: u64
  cs_total_us :: u64
  cs_min_us :: u64
  cs_max_us :: u64

definition new_stats :: callback_stats where
  "new_stats = \<lparr>cs_count = 0, cs_total_us = 0, cs_min_us = - 1, cs_max_us = 0\<rparr>"

type_synonym 'e clock = "'e \<Rightarrow> int \<times> 'e"

record 'e mon_callback =
  mc_name :: string
  mc_cb :: "('e \<Rightarrow> int option \<times> 'e) option"
  mc_asynchronous :: bool

text \<open>The call between two readings of the clock; no result when their difference overflows.\<close>

definition run_callback :: "'e clock \<Rightarrow> 'e mon_callback \<Rightarrow> 'e \<Rightarrow> (int \<times> u64 \<times> 'e) option" where
  "run_callback clock mcb e =
     (let (start, e) = clock e;
          (r, e) = (case mc_cb mcb of
                      None \<Rightarrow> (0, e)
                    | Some f \<Rightarrow> (case f e of (Some r, e) \<Rightarrow> (r, e) | (None, e) \<Rightarrow> (-1, e)));
          (finish, e) = clock e
      in do { d \<leftarrow> i64_sub finish start;
              let elapsed = sgn d * (\<bar>d\<bar> div 1000);
              Some (r, word_of_int elapsed, e) })"

definition record_stats :: "callback_stats \<Rightarrow> u64 \<Rightarrow> callback_stats" where
  "record_stats st elapsed_us =
     (let st = st\<lparr>cs_count := cs_count st + 1\<rparr>;
          st = st\<lparr>cs_total_us := cs_total_us st + elapsed_us\<rparr>;
          st = (if elapsed_us < cs_min_us st then st\<lparr>cs_min_us := elapsed_us\<rparr> else st)
      in if elapsed_us > cs_max_us st then st\<lparr>cs_max_us := elapsed_us\<rparr> else st)"

section \<open>The enhanced callback\<close>

text \<open>Where the worker thread is while it does not hold the mutex.\<close>

datatype worker_pc = THREAD_STARTING | THREAD_WAITING | THREAD_INVOKING | THREAD_FINISHED

text \<open>
  Beside the fields of the class: \<open>ec_worker\<close> is the thread object (\<^term>\<open>None\<close> when it is not
  joinable) with the place of its thread; \<open>ec_notified\<close> says that the waiting thread has been
  notified, and \<open>ec_notifiers\<close> counts the threads that released the mutex and will call
  \<^verbatim>\<open>notify_one\<close> next.
\<close>

record 'e enhanced_callback =
  ec_mcb :: "'e mon_callback"
  ec_stats :: callback_stats
  ec_worker :: "worker_pc option"
  ec_worker_running :: bool
  ec_pending :: bool
  ec_stopping :: bool
  ec_notified :: bool
  ec_notifiers :: nat

definition new_enhanced :: "'e mon_callback \<Rightarrow> 'e enhanced_callback" where
  "new_enhanced mcb =
     \<lparr>ec_mcb = mcb, ec_stats = new_stats, ec_worker = None, ec_worker_running = False, ec_pending = False,
      ec_stopping = False, ec_notified = False, ec_notifiers = 0\<rparr>"

definition asynchronous :: "'e enhanced_callback \<Rightarrow> bool" where
  "asynchronous c = mc_asynchronous (ec_mcb c)"

definition invoke_and_record ::
    "'e clock \<Rightarrow> 'e enhanced_callback \<Rightarrow> 'e \<Rightarrow> (int \<times> 'e enhanced_callback \<times> 'e) option" where
  "invoke_and_record clock c e =
     do { (r, elapsed, e) \<leftarrow> run_callback clock (ec_mcb c) e;
          Some (r, c\<lparr>ec_stats := record_stats (ec_stats c) elapsed\<rparr>, e) }"

text \<open>
  The locked part of an asynchronous activation. Assigning to a thread object that is still
  joinable ends the program: no result. \<open>thread_ok\<close> says whether a thread could be created.
\<close>

definition activate_locked :: "bool \<Rightarrow> 'e enhanced_callback \<Rightarrow> (int \<times> 'e enhanced_callback) option" where
  "activate_locked thread_ok c =
     (if ec_stopping c then Some (-1, c)
      else do {
        (started, c) \<leftarrow>
          (if \<not> ec_worker_running c
           then let c = c\<lparr>ec_worker_running := True\<rparr>
                in if \<not> thread_ok then Some (False, c\<lparr>ec_worker_running := False\<rparr>)
                   else if ec_worker c \<noteq> None then None
                   else Some (True, c\<lparr>ec_worker := Some THREAD_STARTING\<rparr>)
           else Some (True, c));
        if \<not> started then Some (-1, c)
        else Some (0, c\<lparr>ec_pending := True, ec_notifiers := Suc (ec_notifiers c)\<rparr>) })"

definition activate ::
    "'e clock \<Rightarrow> bool \<Rightarrow> 'e enhanced_callback \<Rightarrow> 'e \<Rightarrow> (int \<times> 'e enhanced_callback \<times> 'e) option" where
  "activate clock thread_ok c e =
     (if \<not> asynchronous c
      then (if ec_stopping c then Some (-1, c, e) else invoke_and_record clock c e)
      else do { (r, c) \<leftarrow> activate_locked thread_ok c; Some (r, c, e) })"

definition notify_one :: "'e enhanced_callback \<Rightarrow> 'e enhanced_callback" where
  "notify_one c =
     (if ec_notifiers c = 0 then c
      else c\<lparr>ec_notifiers := ec_notifiers c - 1,
             ec_notified := (ec_notified c \<or> ec_worker c = Some THREAD_WAITING)\<rparr>)"

text \<open>
  The worker takes the mutex, at the start, after an invocation or when a wait ends, and goes on
  to where it releases it: the loop test, the test of the wait, and the consumption of the mark.
\<close>

definition worker_locked :: "'e enhanced_callback \<Rightarrow> 'e enhanced_callback" where
  "worker_locked c =
     (if ec_stopping c then c\<lparr>ec_worker_running := False, ec_worker := Some THREAD_FINISHED, ec_notified := False\<rparr>
      else if ec_pending c then c\<lparr>ec_pending := False, ec_worker := Some THREAD_INVOKING, ec_notified := False\<rparr>
      else c\<lparr>ec_worker := Some THREAD_WAITING, ec_notified := False\<rparr>)"

definition worker_ready :: "'e enhanced_callback \<Rightarrow> bool" where
  "worker_ready c \<longleftrightarrow>
     (case ec_worker c of
        None \<Rightarrow> False
      | Some pc \<Rightarrow> pc = THREAD_STARTING \<or> pc = THREAD_INVOKING \<or> pc = THREAD_WAITING \<and> ec_notified c)"

text \<open>A turn of the worker; one that ends an invocation records its duration first.\<close>

definition worker_turn :: "u64 \<Rightarrow> 'e enhanced_callback \<Rightarrow> 'e enhanced_callback" where
  "worker_turn elapsed c =
     (if \<not> worker_ready c then c
      else if ec_worker c = Some THREAD_INVOKING
      then worker_locked (c\<lparr>ec_stats := record_stats (ec_stats c) elapsed\<rparr>)
      else worker_locked c)"

definition stop_request :: "'e enhanced_callback \<Rightarrow> 'e enhanced_callback" where
  "stop_request c =
     (if ec_stopping c then c
      else c\<lparr>ec_stopping := True, ec_pending := False, ec_notifiers := Suc (ec_notifiers c)\<rparr>)"

text \<open>The join at the end of a stop: it waits until the thread has finished.\<close>

definition join_worker :: "'e enhanced_callback \<Rightarrow> 'e enhanced_callback" where
  "join_worker c = (if ec_stopping c \<and> ec_worker c = Some THREAD_FINISHED then c\<lparr>ec_worker := None\<rparr> else c)"

text \<open>The steps of the threads; a step that cannot be taken leaves the state as it is.\<close>

datatype worker_event = Activate bool | Notify | Worker u64 | Spurious | Stop | Join

fun worker_step :: "worker_event \<Rightarrow> 'e enhanced_callback \<Rightarrow> 'e enhanced_callback option" where
  "worker_step (Activate thread_ok) c = map_option snd (activate_locked thread_ok c)"
| "worker_step Notify c = Some (notify_one c)"
| "worker_step (Worker elapsed) c = Some (worker_turn elapsed c)"
| "worker_step Spurious c = Some (if ec_worker c = Some THREAD_WAITING then worker_locked c else c)"
| "worker_step Stop c = Some (stop_request c)"
| "worker_step Join c = Some (join_worker c)"

section \<open>The registry\<close>

text \<open>A callback is known by its address; 0 is the null pointer.\<close>

record callback_registry =
  cr_cbs :: "nat list"

definition new_callback_registry :: callback_registry where
  "new_callback_registry = \<lparr>cr_cbs = []\<rparr>"

text \<open>\<open>alloc\<close> is whether the vector can grow; the exception is the result \<^term>\<open>None\<close>.\<close>

definition registry_add :: "bool \<Rightarrow> callback_registry \<Rightarrow> nat \<Rightarrow> callback_registry option" where
  "registry_add alloc r cb =
     (if cb = 0 then Some r
      else if cb \<in> set (cr_cbs r) then Some r
      else if \<not> alloc then None
      else Some (r\<lparr>cr_cbs := cr_cbs r @ [cb]\<rparr>))"

definition registry_remove :: "callback_registry \<Rightarrow> nat \<Rightarrow> callback_registry" where
  "registry_remove r cb = (if cb = 0 then r else r\<lparr>cr_cbs := filter (\<lambda>x. x \<noteq> cb) (cr_cbs r)\<rparr>)"

text \<open>
  Stopping one worker to the end: the request, its notification, what the worker still does, and
  the join. \<open>elapsed\<close> is how long an invocation in progress took.
\<close>

definition stop_worker :: "u64 \<Rightarrow> 'e enhanced_callback \<Rightarrow> 'e enhanced_callback" where
  "stop_worker elapsed c =
     (if ec_stopping c then c
      else join_worker (worker_turn elapsed (notify_one (stop_request c))))"

fun stop_all :: "(nat \<Rightarrow> u64) \<Rightarrow> nat list \<Rightarrow> (nat \<Rightarrow> 'e enhanced_callback option) \<Rightarrow> (nat \<Rightarrow> 'e enhanced_callback option) option" where
  "stop_all elapsed [] heap = Some heap"
| "stop_all elapsed (cb # cbs) heap =
     (if cb = 0 then stop_all elapsed cbs heap
      else case heap cb of
             None \<Rightarrow> None
           | Some c \<Rightarrow>
               (if asynchronous c then stop_all elapsed cbs (heap(cb \<mapsto> stop_worker (elapsed cb) c))
                else stop_all elapsed cbs heap))"

text \<open>No result when the registry holds the address of a callback that no longer exists.\<close>

definition stop_workers ::
    "(nat \<Rightarrow> u64) \<Rightarrow> callback_registry \<Rightarrow> (nat \<Rightarrow> 'e enhanced_callback option) \<Rightarrow> (nat \<Rightarrow> 'e enhanced_callback option) option" where
  "stop_workers elapsed r heap = stop_all elapsed (cr_cbs r) heap"

section \<open>The worker thread\<close>

definition worker_alive :: "'e enhanced_callback \<Rightarrow> bool" where
  "worker_alive c \<longleftrightarrow> ec_worker c \<in> Some ` {THREAD_STARTING, THREAD_WAITING, THREAD_INVOKING}"

definition worker_inv :: "'e enhanced_callback \<Rightarrow> bool" where
  "worker_inv c \<longleftrightarrow>
     (ec_worker_running c \<longleftrightarrow> worker_alive c) \<and>
     (ec_worker c = Some THREAD_FINISHED \<longrightarrow> ec_stopping c) \<and>
     (ec_stopping c \<longrightarrow> \<not> ec_pending c) \<and>
     (ec_pending c \<longrightarrow> worker_alive c) \<and>
     (ec_worker c = Some THREAD_WAITING \<and> (ec_pending c \<or> ec_stopping c) \<longrightarrow> ec_notified c \<or> 0 < ec_notifiers c)"

text \<open>The worker owes a reaction: an invocation or its end.\<close>

definition worker_due :: "'e enhanced_callback \<Rightarrow> bool" where
  "worker_due c \<longleftrightarrow> worker_alive c \<and> (ec_pending c \<or> ec_stopping c)"

text \<open>The step from \<open>c\<close> to \<open>c'\<close> is that reaction.\<close>

definition worker_reacts :: "'e enhanced_callback \<Rightarrow> 'e enhanced_callback \<Rightarrow> bool" where
  "worker_reacts c c' \<longleftrightarrow>
     (if ec_stopping c then ec_worker c' = Some THREAD_FINISHED
      else ec_pending c \<and> \<not> ec_pending c' \<and> ec_worker c' = Some THREAD_INVOKING)"

lemmas worker_defs = worker_inv_def worker_alive_def worker_due_def worker_reacts_def

lemmas worker_ops = activate_locked_def notify_one_def worker_turn_def worker_locked_def worker_ready_def
  stop_request_def join_worker_def

lemma worker_inv_new: "worker_inv (new_enhanced mcb)"
  by (simp add: worker_defs new_enhanced_def)

lemma worker_pc_alive: "worker_inv c \<Longrightarrow> ec_worker c = None \<or> ec_worker c = Some THREAD_FINISHED \<or> worker_alive c"
  by (cases "ec_worker c"; cases "the (ec_worker c)") (auto simp: worker_defs)

lemma worker_locked_inv:
  assumes "worker_inv c" and "worker_alive c"
  shows "worker_inv (worker_locked c)"
  using assms by (auto simp: worker_defs worker_locked_def)

lemma activate_locked_some:
  assumes "worker_inv c"
  shows "\<exists>r c'. activate_locked ok c = Some (r, c') \<and> worker_inv c' \<and> (r = 0 \<longrightarrow> ec_pending c' \<and> \<not> ec_stopping c') \<and> (r \<noteq> 0 \<longrightarrow> c' = c)"
proof (cases "ec_stopping c")
  case False
  have "ec_worker c = None" if "\<not> ec_worker_running c"
    using that False worker_pc_alive [OF assms] assms by (auto simp: worker_inv_def)
  with assms False show ?thesis
    by (cases "ec_worker_running c"; cases ok) (auto simp: activate_locked_def worker_inv_def worker_alive_def)
qed (use assms in \<open>simp add: activate_locked_def\<close>)

lemma worker_step_inv:
  assumes "worker_inv c"
  shows "\<exists>c'. worker_step ev c = Some c' \<and> worker_inv c'"
proof (cases ev)
  case (Activate ok)
  with activate_locked_some [OF assms, of ok] show ?thesis by auto
next
  case (Worker elapsed)
  have st: "worker_inv (c\<lparr>ec_stats := s\<rparr>)" "worker_alive (c\<lparr>ec_stats := s\<rparr>) = worker_alive c" for s
    using assms by (simp_all add: worker_defs)
  have "worker_ready c \<Longrightarrow> worker_alive c"
    by (auto simp: worker_ready_def worker_alive_def split: option.split_asm)
  with assms st Worker show ?thesis by (auto simp: worker_turn_def intro!: worker_locked_inv)
next
  case Spurious
  with assms show ?thesis by (auto intro!: worker_locked_inv simp: worker_alive_def)
qed (use assms in \<open>auto simp: worker_defs notify_one_def stop_request_def join_worker_def\<close>)

text \<open>Until the worker reacts it stays due, and a notification it has received is kept.\<close>

lemma worker_step_due:
  assumes "worker_inv c" and "worker_due c" and "worker_step ev c = Some c'" and "\<not> worker_reacts c c'"
  shows "worker_due c' \<and> (ec_worker c = Some THREAD_WAITING \<longrightarrow>
    ec_worker c' = Some THREAD_WAITING \<and> (ec_notified c \<longrightarrow> ec_notified c'))"
proof (cases ev)
  case (Activate ok)
  with assms show ?thesis
    by (cases "ec_stopping c"; cases ok) (auto simp: worker_defs activate_locked_def)
qed (use assms in \<open>auto simp: worker_defs worker_ops split: if_split_asm\<close>)

lemma worker_turn_reacts:
  assumes "worker_due c" and "worker_ready c"
  shows "worker_reacts c (worker_turn elapsed c)"
  using assms by (auto simp: worker_defs worker_ops)

lemma notify_one_wakes:
  assumes "worker_inv c" and "worker_due c" and "ec_worker c = Some THREAD_WAITING"
  shows "ec_notified (notify_one c) \<and> ec_worker (notify_one c) = Some THREAD_WAITING"
  using assms by (auto simp: worker_defs notify_one_def)

section \<open>Schedules\<close>

text \<open>
  A schedule says which step is tried at each moment. It is fair when the worker thread, and the
  threads about to notify, are given their turn again and again (for a worker inside the
  callback this says that the callback returns).
\<close>

definition worker_run :: "(nat \<Rightarrow> worker_event) \<Rightarrow> (nat \<Rightarrow> 'e enhanced_callback) \<Rightarrow> bool" where
  "worker_run ev c \<longleftrightarrow> (\<exists>mcb. c 0 = new_enhanced mcb) \<and> (\<forall>n. worker_step (ev n) (c n) = Some (c (Suc n)))"

definition fair :: "(nat \<Rightarrow> worker_event) \<Rightarrow> bool" where
  "fair ev \<longleftrightarrow> (\<forall>n. \<exists>m \<ge> n. ev m = Notify) \<and> (\<forall>n. \<exists>m \<ge> n. \<exists>elapsed. ev m = Worker elapsed)"

lemma worker_run_inv: "worker_run ev c \<Longrightarrow> worker_inv (c n)"
proof (induction n)
  case (Suc n)
  then have "worker_inv (c n)" "worker_step (ev n) (c n) = Some (c (Suc n))" by (auto simp: worker_run_def)
  with worker_step_inv [of "c n" "ev n"] show ?case by auto
qed (auto simp: worker_run_def worker_inv_new)

text \<open>Every sequence of attempts is a run: no step ends the program.\<close>

lemma worker_run_exists: "worker_run ev (rec_nat (new_enhanced mcb) (\<lambda>n c. the (worker_step (ev n) c)))" (is "worker_run ev ?c")
proof -
  have inv: "worker_inv (?c n)" for n
  proof (induction n)
    case (Suc n)
    then show ?case using worker_step_inv [of "?c n" "ev n"] by auto
  qed (simp add: worker_inv_new)
  have "worker_step (ev n) (?c n) = Some (?c (Suc n))" for n using worker_step_inv [OF inv, of "ev n" n] by auto
  then show ?thesis by (auto simp: worker_run_def)
qed

lemma worker_step_stopping: "worker_step ev c = Some c' \<Longrightarrow> ec_stopping c \<Longrightarrow> ec_stopping c'"
  by (cases ev) (auto simp: worker_ops split: if_split_asm)

lemma stays_due:
  assumes run: "worker_run ev c" and due: "worker_due (c n)" and never: "\<And>m. n \<le> m \<Longrightarrow> \<not> worker_reacts (c m) (c (Suc m))"
  shows "n \<le> m \<Longrightarrow> worker_due (c m)"
    and "n \<le> m \<Longrightarrow> m \<le> k \<Longrightarrow> ec_worker (c m) = Some THREAD_WAITING \<Longrightarrow>
      ec_worker (c k) = Some THREAD_WAITING \<and> (ec_notified (c m) \<longrightarrow> ec_notified (c k))"
proof -
  note step = worker_step_due [OF worker_run_inv [OF run]]
  have st: "worker_step (ev k) (c k) = Some (c (Suc k))" for k using run by (simp add: worker_run_def)
  show d: "worker_due (c m)" if "n \<le> m" for m
    using that by (induction m rule: dec_induct) (use due step st never in blast)+
  show "ec_worker (c k) = Some THREAD_WAITING \<and> (ec_notified (c m) \<longrightarrow> ec_notified (c k))"
    if "n \<le> m" "m \<le> k" "ec_worker (c m) = Some THREAD_WAITING"
    using that(2)
  proof (induction k rule: dec_induct)
    case (step k)
    then have "n \<le> k" using that(1) by simp
    with worker_step_due [OF worker_run_inv [OF run] d st never] step show ?case by blast
  qed (use that in simp)
qed

lemma fair_run_reacts:
  assumes run: "worker_run ev c" and fair: "fair ev" and due: "worker_due (c n)"
  shows "\<exists>m \<ge> n. worker_reacts (c m) (c (Suc m))"
proof (rule ccontr)
  assume "\<not> ?thesis"
  then have never: "\<And>m. n \<le> m \<Longrightarrow> \<not> worker_reacts (c m) (c (Suc m))" by blast
  have stays: "n \<le> m \<Longrightarrow> worker_due (c m)"
    "n \<le> m \<Longrightarrow> m \<le> k \<Longrightarrow> ec_worker (c m) = Some THREAD_WAITING \<Longrightarrow>
      ec_worker (c k) = Some THREAD_WAITING \<and> (ec_notified (c m) \<longrightarrow> ec_notified (c k))" for m k
    using stays_due [OF run due] never by blast+
  have st: "worker_step (ev k) (c k) = Some (c (Suc k))" for k using run by (simp add: worker_run_def)
  have idle: "\<not> worker_ready (c m)" if "n \<le> m" "ev m = Worker el" for m el
    using worker_turn_reacts [OF stays(1) [OF that(1)], of el] never [OF that(1)] st [of m] that(2) by auto
  obtain m1 el where m1: "n \<le> m1" "ev m1 = Worker el" using fair unfolding fair_def by blast
  have w: "ec_worker (c m1) = Some THREAD_WAITING"
    using idle [OF m1] stays(1) [OF m1(1)] by (auto simp: worker_due_def worker_alive_def worker_ready_def)
  obtain m2 where m2: "m1 \<le> m2" "ev m2 = Notify" using fair unfolding fair_def by blast
  have "ec_worker (c m2) = Some THREAD_WAITING" using stays(2) [OF m1(1) m2(1) w] by blast
  then have n2: "ec_notified (c (Suc m2))" "ec_worker (c (Suc m2)) = Some THREAD_WAITING"
    using notify_one_wakes [OF worker_run_inv [OF run] stays(1), of m2] st [of m2] m1 m2 by auto
  obtain m3 el' where m3: "Suc m2 \<le> m3" "ev m3 = Worker el'" using fair unfolding fair_def by blast
  have "n \<le> Suc m2" "n \<le> m3" using m1 m2 m3 by simp_all
  then have "worker_ready (c m3)" using stays(2) [OF _ m3(1) n2(2)] n2(1) by (auto simp: worker_ready_def)
  with idle [OF \<open>n \<le> m3\<close> m3(2)] show False by blast
qed

section \<open>Statistics and registry\<close>

lemma record_stats_alt:
  "record_stats st d = \<lparr>cs_count = cs_count st + 1, cs_total_us = cs_total_us st + d,
     cs_min_us = min (cs_min_us st) d, cs_max_us = max (cs_max_us st) d\<rparr>"
  by (cases st) (auto simp: record_stats_def Let_def min_def max_def)

lemma stats_of_runs:
  "foldl record_stats new_stats ds =
    \<lparr>cs_count = of_nat (length ds), cs_total_us = sum_list ds,
     cs_min_us = foldl min (- 1) ds, cs_max_us = foldl max 0 ds\<rparr>"
  by (induction ds rule: rev_induct) (simp_all add: record_stats_alt new_stats_def add.commute)

lemma registry_add_set: "registry_add alloc r cb = Some r' \<Longrightarrow> cb \<noteq> 0 \<Longrightarrow> set (cr_cbs r') = insert cb (set (cr_cbs r))"
  by (auto simp: registry_add_def split: if_split_asm)

lemma registry_add_distinct: "registry_add alloc r cb = Some r' \<Longrightarrow> distinct (cr_cbs r) \<Longrightarrow> distinct (cr_cbs r')"
  by (auto simp: registry_add_def split: if_split_asm)

lemma registry_remove_set [simp]: "cb \<noteq> 0 \<Longrightarrow> set (cr_cbs (registry_remove r cb)) = set (cr_cbs r) - {cb}"
  by (auto simp: registry_remove_def)

lemma registry_remove_distinct: "distinct (cr_cbs r) \<Longrightarrow> distinct (cr_cbs (registry_remove r cb))"
  by (simp add: registry_remove_def)

text \<open>Stopping to the end leaves no thread, and agrees with the interleaved steps.\<close>

lemma stop_worker_ends:
  assumes "worker_inv c" and "\<not> ec_stopping c"
  shows "ec_worker (stop_worker el c) = None \<and> ec_stopping (stop_worker el c) \<and> worker_inv (stop_worker el c)
    \<and> ec_mcb (stop_worker el c) = ec_mcb c"
  using assms worker_pc_alive [OF assms(1)]
  by (auto simp: stop_worker_def worker_defs worker_ops)

section \<open>Properties\<close>

text \<open>
  C35. An accepted activation is served, and a stop ends the worker. In every fair run of the
  worker thread with the threads that activate and stop it, from a new callback on: an
  activation that reports success is followed by an invocation of the callback that begins
  after it, unless the callback is being stopped; and once it is being stopped, a moment comes
  when the worker thread is gone or finished, so that the join returns. No notification is lost.
\<close>

theorem worker_activation_served:
  assumes "worker_run ev c" and "fair ev"
  shows "(ev n = Activate ok \<and> map_option fst (activate_locked ok (c n)) = Some 0 \<longrightarrow>
      (\<exists>m > n. ec_stopping (c m) \<or>
         (ec_pending (c m) \<and> ec_worker (c (Suc m)) = Some THREAD_INVOKING \<and> \<not> ec_pending (c (Suc m))))) \<and>
    (ec_stopping (c n) \<longrightarrow> (\<exists>m \<ge> n. ec_worker (c m) = None \<or> ec_worker (c m) = Some THREAD_FINISHED))"
proof (intro conjI impI)
  assume a: "ev n = Activate ok \<and> map_option fst (activate_locked ok (c n)) = Some 0"
  have "worker_step (ev n) (c n) = Some (c (Suc n))" using assms(1) by (simp add: worker_run_def)
  with a activate_locked_some [OF worker_run_inv [OF assms(1)], of ok n] have "ec_pending (c (Suc n))" by auto
  then have "worker_due (c (Suc n))"
    using worker_run_inv [OF assms(1), of "Suc n"] by (simp add: worker_due_def worker_inv_def)
  from fair_run_reacts [OF assms this] obtain m where "Suc n \<le> m" "worker_reacts (c m) (c (Suc m))" by blast
  then show "\<exists>m > n. ec_stopping (c m) \<or>
      (ec_pending (c m) \<and> ec_worker (c (Suc m)) = Some THREAD_INVOKING \<and> \<not> ec_pending (c (Suc m)))"
    by (intro exI [of _ m]) (auto simp: worker_reacts_def split: if_split_asm)
next
  assume s: "ec_stopping (c n)"
  consider "ec_worker (c n) = None \<or> ec_worker (c n) = Some THREAD_FINISHED" | "worker_due (c n)"
    using worker_pc_alive [OF worker_run_inv [OF assms(1), of n]] s by (auto simp: worker_due_def)
  then show "\<exists>m \<ge> n. ec_worker (c m) = None \<or> ec_worker (c m) = Some THREAD_FINISHED"
  proof cases
    case 2
    from fair_run_reacts [OF assms 2] obtain m where m: "n \<le> m" "worker_reacts (c m) (c (Suc m))" by blast
    have "ec_stopping (c m)" using m(1) by (induction m rule: dec_induct) (use s worker_step_stopping assms(1) in \<open>auto simp: worker_run_def\<close>)+
    with m show ?thesis by (intro exI [of _ "Suc m"]) (auto simp: worker_reacts_def)
  qed auto
qed

theorem worker_activation_served_witness:
  "\<exists>ev c. worker_run ev (c :: nat \<Rightarrow> nat enhanced_callback) \<and> fair ev \<and> ev 0 = Activate True \<and>
     (\<exists>m > 0. ec_stopping (c m) \<or>
        (ec_pending (c m) \<and> ec_worker (c (Suc m)) = Some THREAD_INVOKING \<and> \<not> ec_pending (c (Suc m))))"
proof -
  define ev where "ev = (\<lambda>n :: nat. if n = 0 then Activate True else if even n then Notify else Worker 5)"
  let ?mcb = "\<lparr>mc_name = ''tick'', mc_cb = Some (\<lambda>e. (Some 0, e + 1)), mc_asynchronous = True\<rparr> :: nat mon_callback"
  define c where "c = rec_nat (new_enhanced ?mcb) (\<lambda>n c. the (worker_step (ev n) c))"
  have run: "worker_run ev c" unfolding c_def by (rule worker_run_exists)
  have "\<exists>m \<ge> n. ev m = Notify" "\<exists>m \<ge> n. \<exists>elapsed. ev m = Worker elapsed" for n
    by (intro exI [of _ "2 * Suc n"], simp add: ev_def, intro exI [of _ "Suc (2 * n)"], simp add: ev_def)
  then have fair: "fair ev" by (simp add: fair_def)
  have "map_option fst (activate_locked True (c 0)) = Some 0"
    by (simp add: activate_locked_def new_enhanced_def c_def)
  moreover have "ev 0 = Activate True" by (simp add: ev_def)
  ultimately show ?thesis using worker_activation_served [OF run fair, of 0 True] run fair by blast
qed

end
