(* ===== verification/Timer_Manager.thy ===== *)
theory Timer_Manager
  imports Wake_Pipe Callback_Registry
begin

text \<open>
  The timers of \<^verbatim>\<open>src/monitor/timer_manager.cpp\<close>. Points in time are nanoseconds of the steady clock
  and durations milliseconds, both 64-bit. The list of \<^verbatim>\<open>unique_ptr\<close> to timers keeps its null
  pointers as \<^term>\<open>None\<close>. The callback registry is the one the manager refers to. No result stands
  for a signed overflow, a failed \<^verbatim>\<open>assert\<close>, or a call that does not return.
\<close>

section \<open>Flags and times\<close>

type_synonym timer_flags = u8

definition TIMER_ONCE :: timer_flags where "TIMER_ONCE = 0"

definition TIMER_RECURRING :: timer_flags where "TIMER_RECURRING = 1"

definition TIMER_WORKER :: timer_flags where "TIMER_WORKER = 2"

definition flags_or :: "timer_flags \<Rightarrow> timer_flags \<Rightarrow> timer_flags" where
  "flags_or lhs rhs = (lhs OR rhs)"

definition has_flag :: "timer_flags \<Rightarrow> timer_flags \<Rightarrow> bool" where
  "has_flag flags flag \<longleftrightarrow> flag \<noteq> 0 \<and> flags AND flag = flag"

definition is_once :: "timer_flags \<Rightarrow> bool" where
  "is_once flags \<longleftrightarrow> \<not> has_flag flags TIMER_RECURRING"

definition is_valid_timer_flags :: "timer_flags \<Rightarrow> bool" where
  "is_valid_timer_flags flags \<longleftrightarrow> flags AND NOT (TIMER_RECURRING OR TIMER_WORKER) = 0"

record timeval =
  tv_sec :: int
  tv_usec :: int

definition set_idle_timeout :: timeval where
  "set_idle_timeout = \<lparr>tv_sec = 1, tv_usec = 0\<rparr>"

text \<open>\<open>ceil<microseconds>\<close> of a positive number of nanoseconds.\<close>

definition ceil_us :: "int \<Rightarrow> int" where
  "ceil_us ns = (let us = ns div 1000 in if us * 1000 < ns then us + 1 else us)"

definition set_timeout_until :: "int \<Rightarrow> int \<Rightarrow> timeval option" where
  "set_timeout_until deadline now =
     (if deadline \<le> now then Some \<lparr>tv_sec = 0, tv_usec = 0\<rparr>
      else do { remaining \<leftarrow> i64_sub deadline now;
                let total_us = ceil_us remaining;
                Some \<lparr>tv_sec = total_us div 1000000, tv_usec = total_us mod 1000000\<rparr> })"

section \<open>The manager\<close>

text \<open>The callback a timer owns: its address and whether it has a worker.\<close>

record callback_ref =
  cb_addr :: nat
  cb_async :: bool

record timer_entry =
  te_id :: u64
  te_flags :: timer_flags
  te_next :: int
  te_interval :: int
  te_fire_count :: u64
  te_cb :: "callback_ref option"

record timer_manager =
  tm_registry :: callback_registry
  tm_timers :: "timer_entry option list"
  tm_next_id :: u64
  tm_cleaned_up :: bool

definition new_timer_manager :: "callback_registry \<Rightarrow> timer_manager" where
  "new_timer_manager r = \<lparr>tm_registry = r, tm_timers = [], tm_next_id = 1, tm_cleaned_up = False\<rparr>"

fun unregister_all :: "callback_registry \<Rightarrow> timer_entry option list \<Rightarrow> callback_registry" where
  "unregister_all r [] = r"
| "unregister_all r (t # ts) =
     unregister_all (case t of
                       Some t \<Rightarrow> (case te_cb t of Some c \<Rightarrow> registry_remove r (cb_addr c) | None \<Rightarrow> r)
                     | None \<Rightarrow> r) ts"

definition timer_cleanup :: "timer_manager \<Rightarrow> timer_manager" where
  "timer_cleanup tm =
     (if tm_cleaned_up tm then tm
      else tm\<lparr>tm_cleaned_up := True, tm_timers := [], tm_registry := unregister_all (tm_registry tm) (tm_timers tm)\<rparr>)"

fun find_insert_position :: "timer_entry option list \<Rightarrow> int \<Rightarrow> nat" where
  "find_insert_position [] deadline = 0"
| "find_insert_position (None # ts) deadline = 0"
| "find_insert_position (Some t # ts) deadline =
     (if deadline < te_next t then 0 else Suc (find_insert_position ts deadline))"

text \<open>\<open>alloc\<close> is whether the list node can be allocated; the position is an index, the end the length.\<close>

definition insert_sorted ::
    "bool \<Rightarrow> timer_entry option list \<Rightarrow> timer_entry option \<Rightarrow> (timer_entry option list \<times> nat) option" where
  "insert_sorted alloc ts timer =
     (case timer of
        None \<Rightarrow> Some (ts, length ts)
      | Some t \<Rightarrow>
          let pos = find_insert_position ts (te_next t)
          in if \<not> alloc then None else Some (take pos ts @ Some t # drop pos ts, pos))"

text \<open>The first node of \<open>active\<close> is moved into the timers; both lists are returned.\<close>

definition reinsert_sorted ::
    "timer_entry option list \<Rightarrow> timer_entry option list \<Rightarrow> timer_entry option list \<times> timer_entry option list" where
  "reinsert_sorted ts active =
     (case active of
        [] \<Rightarrow> (ts, active)
      | None # _ \<Rightarrow> (ts, active)
      | Some t # rest \<Rightarrow>
          let pos = find_insert_position ts (te_next t) in (take pos ts @ Some t # drop pos ts, rest))"

datatype timer_site = Entry_Alloc | Node_Alloc | Registry_Grow

text \<open>
  The end of a registration: the entry with its callback at \<open>addr\<close> enters the list, then the
  registry, then the event loop is woken; a step that fails undoes those before it. The handle
  is the identifier; \<^term>\<open>None\<close> inside the result is \<^verbatim>\<open>std::nullopt\<close>.
\<close>

definition timer_register ::
    "'k pipe_sys \<Rightarrow> (timer_site \<Rightarrow> bool) \<Rightarrow> nat \<Rightarrow> timer_manager \<Rightarrow> wake_pipe \<Rightarrow> 'k \<Rightarrow> timer_entry
     \<Rightarrow> (timer_manager \<times> 'k \<times> u64 option) option" where
  "timer_register sys alloc addr tm pipe k entry =
     (case insert_sorted (alloc Node_Alloc) (tm_timers tm) (Some entry) of
        None \<Rightarrow> Some (tm, k, None)
      | Some (ts, pos) \<Rightarrow>
          if pos = length ts then Some (tm\<lparr>tm_timers := ts\<rparr>, k, None)
          else case registry_add (alloc Registry_Grow) (tm_registry tm) addr of
            None \<Rightarrow> Some (tm\<lparr>tm_timers := take pos ts @ drop (Suc pos) ts\<rparr>, k, None)
          | Some r \<Rightarrow>
              (case wakeup sys pipe k of
                 None \<Rightarrow> None
               | Some (st, k) \<Rightarrow>
                   if st \<noteq> PIPE_SUCCESSFUL
                   then Some (tm\<lparr>tm_timers := take pos ts @ drop (Suc pos) ts,
                                 tm_registry := registry_remove r addr\<rparr>, k, None)
                   else Some (tm\<lparr>tm_timers := ts, tm_registry := r, tm_next_id := tm_next_id tm + 1\<rparr>, k,
                              Some (tm_next_id tm))))"

text \<open>\<open>addr\<close> is the address of the callback the call allocates and \<open>now\<close> its reading of the clock.\<close>

definition timer_add ::
    "'k pipe_sys \<Rightarrow> (timer_site \<Rightarrow> bool) \<Rightarrow> nat \<Rightarrow> int \<Rightarrow> timer_manager \<Rightarrow> wake_pipe \<Rightarrow> 'k
     \<Rightarrow> 'e mon_callback \<Rightarrow> timer_flags \<Rightarrow> int \<Rightarrow> (timer_manager \<times> 'k \<times> u64 option) option" where
  "timer_add sys alloc addr now tm pipe k mcb flags delay =
     (if delay \<le> 0 then Some (tm, k, None)
      else if mc_cb mcb = None then Some (tm, k, None)
      else if \<not> is_valid_timer_flags flags then Some (tm, k, None)
      else let recurring = has_flag flags TIMER_RECURRING; worker = has_flag flags TIMER_WORKER
      in if \<not> recurring \<and> worker then Some (tm, k, None)
      else if wp_state pipe \<noteq> PIPE_READY then Some (tm, k, None)
      else if \<not> alloc Entry_Alloc then Some (tm, k, None)
      else if tm_cleaned_up tm then Some (tm, k, None)
      else if tm_next_id tm = 0 then Some (tm, k, None)
      else do {
        left \<leftarrow> i64_sub 9223372036854775807 now;
        let maximum_delay = left div 1000000;
        if delay > maximum_delay then Some (tm, k, None)
        else do {
          deadline \<leftarrow> i64_add now (delay * 1000000);
          timer_register sys alloc addr tm pipe k
            \<lparr>te_id = tm_next_id tm, te_flags = flags, te_next = deadline,
             te_interval = (if recurring then delay else 0), te_fire_count = 0,
             te_cb = Some \<lparr>cb_addr = addr, cb_async = worker\<rparr>\<rparr> } })"

text \<open>
  What an expired timer, taken out of the list, does. \<open>act\<close> is the activation of the callback at
  an address: caller's code, together with whatever other threads do to the manager meanwhile.
\<close>

definition fire_timer ::
    "(nat \<Rightarrow> timer_manager \<Rightarrow> 'e \<Rightarrow> timer_manager \<times> 'e) \<Rightarrow> timer_entry \<Rightarrow> timer_manager \<Rightarrow> 'e \<Rightarrow> (timer_manager \<times> 'e) option" where
  "fire_timer act timer tm e =
     (let timer = timer\<lparr>te_fire_count := te_fire_count timer + 1\<rparr>;
          (tm, e) = (case te_cb timer of Some c \<Rightarrow> act (cb_addr c) tm e | None \<Rightarrow> (tm, e));
          recurring = 0 < te_interval timer
      in if recurring \<noteq> has_flag (te_flags timer) TIMER_RECURRING then None
         else if recurring then do {
           nxt \<leftarrow> i64_add (te_next timer) (te_interval timer * 1000000);
           let (ts, active) = reinsert_sorted (tm_timers tm) [Some (timer\<lparr>te_next := nxt\<rparr>)];
           if active \<noteq> [] then None else Some (tm\<lparr>tm_timers := ts\<rparr>, e) }
         else if (case te_cb timer of Some c \<Rightarrow> cb_async c | None \<Rightarrow> False) then None
         else Some (tm\<lparr>tm_registry := registry_remove (tm_registry tm)
                          (case te_cb timer of Some c \<Rightarrow> cb_addr c | None \<Rightarrow> 0)\<rparr>, e))"

partial_function (option) check_loop ::
    "'e clock \<Rightarrow> (nat \<Rightarrow> timer_manager \<Rightarrow> 'e \<Rightarrow> timer_manager \<times> 'e) \<Rightarrow> timer_manager \<Rightarrow> 'e \<Rightarrow> timeval
     \<Rightarrow> (timer_manager \<times> 'e \<times> timeval) option" where
  "check_loop clock act tm e timeout =
     (if tm_cleaned_up tm then Some (tm, e, timeout)
      else case tm_timers tm of
        [] \<Rightarrow> Some (tm, e, timeout)
      | earliest # ts \<Rightarrow>
          (case earliest of
             None \<Rightarrow> check_loop clock act (tm\<lparr>tm_timers := ts\<rparr>) e timeout
           | Some timer \<Rightarrow>
               (case clock e of
                  (now, e) \<Rightarrow>
                    (if \<not> te_next timer < now
                     then map_option (\<lambda>tv. (tm, e, tv)) (set_timeout_until (te_next timer) now)
                     else case fire_timer act timer (tm\<lparr>tm_timers := ts\<rparr>) e of
                            None \<Rightarrow> None
                          | Some (tm, e) \<Rightarrow> check_loop clock act tm e timeout))))"

definition timer_check ::
    "'e clock \<Rightarrow> (nat \<Rightarrow> timer_manager \<Rightarrow> 'e \<Rightarrow> timer_manager \<times> 'e) \<Rightarrow> timer_manager \<Rightarrow> 'e
     \<Rightarrow> (timer_manager \<times> 'e \<times> timeval) option" where
  "timer_check clock act tm e = check_loop clock act tm e set_idle_timeout"

declare check_loop.simps [code]

section \<open>The timeout handed to select\<close>

definition timeval_us :: "timeval \<Rightarrow> int" where
  "timeval_us tv = tv_sec tv * 1000000 + tv_usec tv"

definition timeval_ok :: "timeval \<Rightarrow> bool" where
  "timeval_ok tv \<longleftrightarrow> 0 \<le> tv_sec tv \<and> 0 \<le> tv_usec tv \<and> tv_usec tv < 1000000"

lemma ceil_us_bounds: "ns \<le> 1000 * ceil_us ns \<and> 1000 * ceil_us ns < ns + 1000"
proof -
  define q r where "q = ns div 1000" and "r = ns mod 1000"
  then have "ns = 1000 * q + r" "0 \<le> r" "r < 1000" by simp_all
  moreover have "ceil_us ns = (if q * 1000 < ns then q + 1 else q)" by (simp add: ceil_us_def q_def)
  ultimately show ?thesis by auto
qed

lemma set_timeout_until_exact:
  assumes "0 \<le> now" and "now \<le> deadline" and "is_int64 deadline"
  shows "\<exists>tv. set_timeout_until deadline now = Some tv \<and> timeval_ok tv
    \<and> deadline - now \<le> 1000 * timeval_us tv \<and> 1000 * timeval_us tv < deadline - now + 1000"
proof (cases "deadline \<le> now")
  case True
  with assms show ?thesis by (simp add: set_timeout_until_def timeval_ok_def timeval_us_def)
next
  case False
  let ?n = "ceil_us (deadline - now)"
  let ?tv = "\<lparr>tv_sec = ?n div 1000000, tv_usec = ?n mod 1000000\<rparr>"
  have "i64_sub deadline now = Some (deadline - now)" by (rule i64_sub_nonneg [OF assms])
  with False have "set_timeout_until deadline now = Some ?tv" by (simp add: set_timeout_until_def Let_def)
  moreover have "timeval_us ?tv = ?n" by (simp add: timeval_us_def)
  moreover have "0 \<le> ?n" using ceil_us_bounds [of "deadline - now"] False by linarith
  then have "timeval_ok ?tv" by (simp add: timeval_ok_def pos_imp_zdiv_nonneg_iff)
  ultimately show ?thesis using ceil_us_bounds [of "deadline - now"] by simp
qed

section \<open>The ordered list of timers\<close>

definition timer_addr :: "timer_entry \<Rightarrow> nat" where
  "timer_addr t = (case te_cb t of Some c \<Rightarrow> cb_addr c | None \<Rightarrow> 0)"

text \<open>A timer goes behind those with the same deadline.\<close>

definition place :: "timer_entry \<Rightarrow> timer_entry list \<Rightarrow> timer_entry list" where
  "place t ts = takeWhile (\<lambda>x. te_next x \<le> te_next t) ts @ t # dropWhile (\<lambda>x. te_next x \<le> te_next t) ts"

lemma find_insert_position_length:
  "find_insert_position (map Some ts) d = length (takeWhile (\<lambda>x. te_next x \<le> d) ts)"
  by (induction ts) auto

lemma splice_place:
  "take (find_insert_position (map Some ts) (te_next t)) (map Some ts) @ Some t
     # drop (find_insert_position (map Some ts) (te_next t)) (map Some ts) = map Some (place t ts)"
  by (simp add: find_insert_position_length place_def take_map drop_map takeWhile_eq_take [symmetric] dropWhile_eq_drop [symmetric])

lemma insert_sorted_place:
  "insert_sorted alloc (map Some ts) (Some t) =
     (if alloc then Some (map Some (place t ts), find_insert_position (map Some ts) (te_next t)) else None)"
  by (simp add: insert_sorted_def Let_def splice_place)

lemma reinsert_sorted_place: "reinsert_sorted (map Some ts) [Some t] = (map Some (place t ts), [])"
  by (simp add: reinsert_sorted_def Let_def splice_place)

lemma while_split: "set ts = set (takeWhile P ts) \<union> set (dropWhile P ts)"
  by (metis set_append takeWhile_dropWhile_id)

lemma map_while_split: "map f ts = map f (takeWhile P ts) @ map f (dropWhile P ts)"
  by (metis map_append takeWhile_dropWhile_id)

lemma set_place [simp]: "set (place t ts) = insert t (set ts)"
  unfolding place_def while_split [of ts "\<lambda>x. te_next x \<le> te_next t"] by auto

lemma distinct_place: "distinct (map f (place t ts)) \<longleftrightarrow> f t \<notin> f ` set ts \<and> distinct (map f ts)"
  unfolding place_def while_split [of ts "\<lambda>x. te_next x \<le> te_next t"]
    map_while_split [of f ts "\<lambda>x. te_next x \<le> te_next t"] by auto

lemma sum_place: "sum_list (map f (place t ts)) = (f t + sum_list (map f ts) :: nat)"
  unfolding place_def map_while_split [of f ts "\<lambda>x. te_next x \<le> te_next t"] by simp

lemma sorted_place:
  assumes "sorted (map te_next ts)"
  shows "sorted (map te_next (place t ts))"
proof -
  let ?P = "\<lambda>x. te_next x \<le> te_next t"
  obtain as bs where ab: "takeWhile ?P ts = as" "dropWhile ?P ts = bs" by blast
  have s: "sorted (map te_next as)" "sorted (map te_next bs)" "\<forall>x \<in> set as. \<forall>y \<in> set bs. te_next x \<le> te_next y"
    using assms unfolding map_while_split [of te_next ts ?P] ab by (auto simp: sorted_append)
  have "\<forall>x \<in> set as. te_next x \<le> te_next t" using set_takeWhileD [of _ ?P ts] ab(1) by blast
  moreover have "\<forall>y \<in> set bs. te_next t \<le> te_next y"
  proof (cases bs)
    case (Cons y ys)
    then have "\<not> ?P y" using ab(2) by (simp add: dropWhile_eq_Cons_conv)
    with s(2) Cons show ?thesis by auto
  qed simp
  ultimately show ?thesis using s unfolding place_def ab by (auto simp: sorted_append)
qed

section \<open>Well-formed managers\<close>

definition entry_ok :: "u64 \<Rightarrow> timer_entry \<Rightarrow> bool" where
  "entry_ok next_id t \<longleftrightarrow>
     te_id t \<noteq> 0 \<and> (next_id = 0 \<or> te_id t < next_id) \<and> is_valid_timer_flags (te_flags t) \<and>
     0 \<le> te_next t \<and> is_int64 (te_next t) \<and> 0 \<le> te_interval t \<and>
     (0 < te_interval t \<longleftrightarrow> has_flag (te_flags t) TIMER_RECURRING) \<and>
     (\<exists>c. te_cb t = Some c \<and> cb_addr c \<noteq> 0 \<and> (cb_async c \<longrightarrow> has_flag (te_flags t) TIMER_WORKER)) \<and>
     (has_flag (te_flags t) TIMER_WORKER \<longrightarrow> has_flag (te_flags t) TIMER_RECURRING)"

definition timers_ok :: "u64 \<Rightarrow> nat set \<Rightarrow> timer_entry list \<Rightarrow> bool" where
  "timers_ok next_id registered ts \<longleftrightarrow>
     sorted (map te_next ts) \<and> distinct (map te_id ts) \<and> distinct (map timer_addr ts) \<and>
     (\<forall>t \<in> set ts. entry_ok next_id t \<and> timer_addr t \<in> registered)"

definition timer_wf :: "timer_manager \<Rightarrow> bool" where
  "timer_wf tm \<longleftrightarrow>
     (\<exists>ts. tm_timers tm = map Some ts \<and> timers_ok (tm_next_id tm) (set (cr_cbs (tm_registry tm))) ts)"

lemma timers_ok_place:
  "timers_ok n R (place t ts) \<longleftrightarrow> timers_ok n R ts \<and> entry_ok n t \<and> timer_addr t \<in> R
     \<and> te_id t \<notin> te_id ` set ts \<and> timer_addr t \<notin> timer_addr ` set ts" if "sorted (map te_next ts)"
  using that by (auto simp: timers_ok_def distinct_place sorted_place)

lemma timers_ok_Cons:
  "timers_ok n R (t # ts) \<longleftrightarrow> timers_ok n R ts \<and> entry_ok n t \<and> timer_addr t \<in> R
     \<and> te_id t \<notin> te_id ` set ts \<and> timer_addr t \<notin> timer_addr ` set ts \<and> (\<forall>x \<in> set ts. te_next t \<le> te_next x)"
  by (auto simp: timers_ok_def)

lemma entry_ok_Suc: "entry_ok n t \<Longrightarrow> n \<noteq> 0 \<Longrightarrow> entry_ok (n + 1) t"
  using word_less_Suc [OF order.strict_implies_order, of "te_id t" n] unfolding entry_ok_def by blast

lemma registry_add_remove:
  assumes "registry_add alloc r addr = Some r'" and "addr \<notin> set (cr_cbs r)"
  shows "registry_remove r' addr = r"
proof -
  have "filter (\<lambda>x. x \<noteq> addr) (cr_cbs r) = cr_cbs r" using assms(2) by (auto simp: filter_id_conv)
  with assms show ?thesis by (auto simp: registry_add_def registry_remove_def split: if_split_asm)
qed

lemma erase_place:
  "let pos = find_insert_position (map Some ts) (te_next t)
   in take pos (map Some (place t ts)) @ drop (Suc pos) (map Some (place t ts)) = map Some ts
      \<and> pos < length (map Some (place t ts))"
proof -
  let ?pos = "find_insert_position (map Some ts) (te_next t)"
  have "?pos \<le> length ts" by (simp add: find_insert_position_length length_takeWhile_le)
  then show ?thesis by (simp add: Let_def splice_place [symmetric])
qed

text \<open>A registration is atomic: it adds the timer behind those not later than it, or changes nothing.\<close>

lemma timer_register_cases:
  assumes tm: "tm_timers tm = map Some ts" and fresh: "addr \<notin> set (cr_cbs (tm_registry tm))" "addr \<noteq> 0"
    and reg: "timer_register sys alloc addr tm pipe k t = Some (tm', k', h)"
  shows "h = None \<and> tm' = tm \<or>
    (h = Some (tm_next_id tm) \<and> (\<exists>r. set (cr_cbs r) = insert addr (set (cr_cbs (tm_registry tm)))
       \<and> tm' = tm\<lparr>tm_timers := map Some (place t ts), tm_registry := r, tm_next_id := tm_next_id tm + 1\<rparr>))"
proof (cases "alloc Node_Alloc")
  case False
  with reg show ?thesis by (simp add: timer_register_def tm insert_sorted_place)
next
  case True
  let ?pos = "find_insert_position (map Some ts) (te_next t)"
  have ins: "insert_sorted (alloc Node_Alloc) (tm_timers tm) (Some t) = Some (map Some (place t ts), ?pos)"
    using True by (simp add: tm insert_sorted_place)
  have pos: "?pos \<noteq> length (map Some (place t ts))"
    and undo: "take ?pos (map Some (place t ts)) @ drop (Suc ?pos) (map Some (place t ts)) = tm_timers tm"
    using erase_place [of ts t] tm by (auto simp: Let_def)
  show ?thesis
  proof (cases "registry_add (alloc Registry_Grow) (tm_registry tm) addr")
    case None
    with reg have "h = None \<and> tm' = tm"
      unfolding timer_register_def ins option.case prod.case if_not_P [OF pos] undo by simp
    then show ?thesis ..
  next
    case (Some r)
    from reg Some obtain st k1 where "wakeup sys pipe k = Some (st, k1)"
      and res: "(tm', k', h) = (if st \<noteq> PIPE_SUCCESSFUL
          then (tm\<lparr>tm_timers := tm_timers tm, tm_registry := registry_remove r addr\<rparr>, k1, None)
          else (tm\<lparr>tm_timers := map Some (place t ts), tm_registry := r, tm_next_id := tm_next_id tm + 1\<rparr>, k1,
                Some (tm_next_id tm)))"
      unfolding timer_register_def ins option.case prod.case if_not_P [OF pos] undo
      by (auto split: option.split_asm if_split_asm)
    with registry_add_remove [OF Some fresh(1)] registry_add_set [OF Some fresh(2)] show ?thesis
      by (auto split: if_split_asm)
  qed
qed

text \<open>The timer a successful registration creates.\<close>

definition new_timer :: "timer_manager \<Rightarrow> nat \<Rightarrow> int \<Rightarrow> timer_flags \<Rightarrow> int \<Rightarrow> timer_entry" where
  "new_timer tm addr now flags delay =
     \<lparr>te_id = tm_next_id tm, te_flags = flags, te_next = now + delay * 1000000,
      te_interval = (if has_flag flags TIMER_RECURRING then delay else 0), te_fire_count = 0,
      te_cb = Some \<lparr>cb_addr = addr, cb_async = has_flag flags TIMER_WORKER\<rparr>\<rparr>"

definition add_accepts :: "timer_manager \<Rightarrow> int \<Rightarrow> timer_flags \<Rightarrow> int \<Rightarrow> bool" where
  "add_accepts tm now flags delay \<longleftrightarrow>
     0 < delay \<and> is_valid_timer_flags flags \<and> (has_flag flags TIMER_WORKER \<longrightarrow> has_flag flags TIMER_RECURRING)
     \<and> \<not> tm_cleaned_up tm \<and> tm_next_id tm \<noteq> 0 \<and> is_int64 (now + delay * 1000000)"

lemma timer_add_register:
  assumes now: "0 \<le> now" "is_int64 now"
    and add: "timer_add sys alloc addr now tm pipe k mcb flags delay = Some (tm', k', h)"
  shows "h = None \<and> tm' = tm \<or> add_accepts tm now flags delay
    \<and> timer_register sys alloc addr tm pipe k (new_timer tm addr now flags delay) = Some (tm', k', h)"
proof -
  have left: "i64_sub 9223372036854775807 now = Some (9223372036854775807 - now)"
    using now by (intro i64_sub_nonneg) (auto simp: is_int64_def)
  have int: "is_int64 (now + delay * 1000000)" if "0 < delay" "\<not> delay > (9223372036854775807 - now) div 1000000"
  proof -
    have "delay * 1000000 \<le> (9223372036854775807 - now) div 1000000 * 1000000" using that(2) by simp
    also have "\<dots> \<le> 9223372036854775807 - now" by (simp flip: minus_mod_eq_div_mult)
    finally show ?thesis using that(1) now by (simp add: is_int64_def)
  qed
  show ?thesis
    using add int left
    by (auto simp: timer_add_def Let_def add_accepts_def new_timer_def i64_add_def split: if_split_asm)
qed

section \<open>Operations keep managers well formed\<close>

text \<open>A manager one of whose timers is outside the list, in the hands of the event loop.\<close>

definition holding :: "timer_entry \<Rightarrow> timer_manager \<Rightarrow> bool" where
  "holding t tm \<longleftrightarrow>
     (\<exists>ts. tm_timers tm = map Some ts \<and> timers_ok (tm_next_id tm) (set (cr_cbs (tm_registry tm))) ts
        \<and> entry_ok (tm_next_id tm) t \<and> timer_addr t \<in> set (cr_cbs (tm_registry tm))
        \<and> te_id t \<notin> te_id ` set ts \<and> timer_addr t \<notin> timer_addr ` set ts)"

lemma timers_ok_mono:
  "timers_ok n R ts \<Longrightarrow> n \<noteq> 0 \<Longrightarrow> R \<subseteq> R' \<Longrightarrow> timers_ok (n + 1) R' ts"
  by (auto simp: timers_ok_def entry_ok_Suc)

lemma new_timer_ok:
  assumes "add_accepts tm now flags delay" and "0 \<le> now" and "addr \<noteq> 0"
  shows "entry_ok (tm_next_id tm + 1) (new_timer tm addr now flags delay)"
  using assms word_less_Suc [of "tm_next_id tm" "tm_next_id tm"]
  by (auto simp: add_accepts_def entry_ok_def new_timer_def)

lemma timer_add_sound:
  assumes wf: "timer_wf tm" and fresh: "addr \<notin> set (cr_cbs (tm_registry tm))" "addr \<noteq> 0"
    and now: "0 \<le> now" "is_int64 now"
    and add: "timer_add sys alloc addr now tm pipe k mcb flags delay = Some (tm', k', h)"
  shows "timer_wf tm'" and "h = None \<Longrightarrow> tm' = tm"
    and "h = Some i \<Longrightarrow> i = tm_next_id tm \<and> add_accepts tm now flags delay
       \<and> tm_timers tm' = map Some (place (new_timer tm addr now flags delay) (map the (tm_timers tm)))"
    and "holding t tm \<Longrightarrow> holding t tm'"
proof -
  obtain ts where ts: "tm_timers tm = map Some ts" and ok: "timers_ok (tm_next_id tm) (set (cr_cbs (tm_registry tm))) ts"
    using wf by (auto simp: timer_wf_def)
  let ?t = "new_timer tm addr now flags delay"
  consider "h = None" "tm' = tm" | r where "add_accepts tm now flags delay" "h = Some (tm_next_id tm)"
      "set (cr_cbs r) = insert addr (set (cr_cbs (tm_registry tm)))"
      "tm' = tm\<lparr>tm_timers := map Some (place ?t ts), tm_registry := r, tm_next_id := tm_next_id tm + 1\<rparr>"
    using timer_add_register [OF now add] timer_register_cases [OF ts fresh, of sys alloc pipe k ?t tm' k' h] by blast
  then have "timer_wf tm' \<and> (h = None \<longrightarrow> tm' = tm) \<and> (h = Some i \<longrightarrow> i = tm_next_id tm \<and> add_accepts tm now flags delay
       \<and> tm_timers tm' = map Some (place ?t (map the (tm_timers tm)))) \<and> (holding t tm \<longrightarrow> holding t tm')"
  proof cases
    case 1
    with wf show ?thesis by simp
  next
    case 2
    have nz: "tm_next_id tm \<noteq> 0" using 2(1) by (simp add: add_accepts_def)
    have new: "te_id ?t \<notin> te_id ` set ts" "timer_addr ?t \<notin> timer_addr ` set ts"
      using ok nz fresh by (auto simp: timers_ok_def entry_ok_def new_timer_def timer_addr_def)
    have ok': "timers_ok (tm_next_id tm + 1) (set (cr_cbs r)) (place ?t ts)"
      using ok timers_ok_mono [OF ok nz, of "set (cr_cbs r)"] 2(3) new_timer_ok [OF 2(1) now(1) fresh(2)] new
      by (subst timers_ok_place) (auto simp: timers_ok_def timer_addr_def new_timer_def)
    have held: "holding t tm'" if "holding t tm"
    proof -
      have t: "entry_ok (tm_next_id tm) t" "timer_addr t \<in> set (cr_cbs (tm_registry tm))"
        "te_id t \<notin> te_id ` set ts" "timer_addr t \<notin> timer_addr ` set ts"
        using that ts by (auto simp: holding_def inj_map_eq_map)
      have "te_id t \<noteq> te_id ?t" "timer_addr t \<noteq> timer_addr ?t"
        using t nz fresh by (auto simp: entry_ok_def new_timer_def timer_addr_def)
      with t ok' 2(3) entry_ok_Suc [OF t(1) nz] show ?thesis
        unfolding holding_def 2(4) by (intro exI [of _ "place ?t ts"]) auto
    qed
    from ok' have "timer_wf tm'" unfolding timer_wf_def 2(4) by auto
    with 2 ts held show ?thesis by (auto simp: comp_def)
  qed
  then show "timer_wf tm'" "h = None \<Longrightarrow> tm' = tm"
    "h = Some i \<Longrightarrow> i = tm_next_id tm \<and> add_accepts tm now flags delay
       \<and> tm_timers tm' = map Some (place (new_timer tm addr now flags delay) (map the (tm_timers tm)))"
    "holding t tm \<Longrightarrow> holding t tm'" by blast+
qed

lemma timer_cleanup_wf: "timer_wf tm \<Longrightarrow> timer_wf (timer_cleanup tm)"
  by (auto simp: timer_wf_def timer_cleanup_def timers_ok_def)

text \<open>
  What may happen to the manager while the callback at address \<open>a\<close> runs: timers are registered,
  by the callback or by other threads, and other users of the registry add and remove theirs.
\<close>

inductive timer_env :: "'k pipe_sys \<Rightarrow> nat \<Rightarrow> timer_manager \<Rightarrow> timer_manager \<Rightarrow> bool" for sys :: "'k pipe_sys" and a where
  env_refl: "timer_env sys a tm tm"
| env_add: "timer_env sys a tm tm1 \<Longrightarrow>
     timer_add sys alloc addr now tm1 pipe k (mcb :: 'k mon_callback) flags delay = Some (tm2, k', h) \<Longrightarrow>
     addr \<notin> set (cr_cbs (tm_registry tm1)) \<Longrightarrow> addr \<noteq> 0 \<Longrightarrow> 0 \<le> now \<Longrightarrow> is_int64 now \<Longrightarrow> timer_env sys a tm tm2"
| env_registry: "timer_env sys a tm tm1 \<Longrightarrow>
     insert a (timer_addr ` {t. Some t \<in> set (tm_timers tm1)}) \<subseteq> set (cr_cbs r) \<Longrightarrow> timer_env sys a tm (tm1\<lparr>tm_registry := r\<rparr>)"

lemma holding_wf: "holding t tm \<Longrightarrow> timer_wf tm"
  by (auto simp: holding_def timer_wf_def)

lemma timer_env_holding: "timer_env sys a tm tm' \<Longrightarrow> holding t tm \<Longrightarrow> a = timer_addr t \<Longrightarrow> holding t tm'"
proof (induction rule: timer_env.induct)
  case (env_add tm tm1 alloc addr now pipe k mcb flags delay tm2 k' h)
  then have "holding t tm1" by blast
  from timer_add_sound(4) [OF holding_wf [OF this] env_add(3-6,2) this] show ?case .
next
  case (env_registry tm tm1 r)
  then show ?case by (auto simp: holding_def timers_ok_def subset_iff)
qed

lemma fire_timer_runs:
  assumes held: "holding t tm" and env: "timer_env sys (timer_addr t) tm (fst (act (timer_addr t) tm e))"
    and int: "0 < te_interval t \<Longrightarrow> is_int64 (te_next t + te_interval t * 1000000)"
  shows "\<exists>ts tm' e'. tm_timers (fst (act (timer_addr t) tm e)) = map Some ts \<and> distinct (map te_id ts)
    \<and> fire_timer act t tm e = Some (tm', e') \<and> timer_wf tm'
    \<and> tm_timers tm' = map Some (if 0 < te_interval t
        then place (t\<lparr>te_fire_count := te_fire_count t + 1, te_next := te_next t + te_interval t * 1000000\<rparr>) ts else ts)"
proof -
  obtain c where c: "te_cb t = Some c" "timer_addr t = cb_addr c" "cb_addr c \<noteq> 0"
    using held by (auto simp: holding_def entry_ok_def timer_addr_def)
  obtain tm1 e1 where act: "act (cb_addr c) tm e = (tm1, e1)" by force
  have "timer_env sys (timer_addr t) tm tm1" using env act c(2) by simp
  then have "holding t tm1" using held by (rule timer_env_holding) simp
  then obtain ts where ts: "tm_timers tm1 = map Some ts"
    and ok: "timers_ok (tm_next_id tm1) (set (cr_cbs (tm_registry tm1))) ts" "entry_ok (tm_next_id tm1) t"
      "timer_addr t \<in> set (cr_cbs (tm_registry tm1))" "te_id t \<notin> te_id ` set ts" "timer_addr t \<notin> timer_addr ` set ts"
    by (auto simp: holding_def)
  have dist: "distinct (map te_id ts)" "sorted (map te_next ts)" using ok(1) by (simp_all add: timers_ok_def)
  let ?t = "t\<lparr>te_fire_count := te_fire_count t + 1, te_next := te_next t + te_interval t * 1000000\<rparr>"
  show ?thesis
  proof (cases "0 < te_interval t")
    case True
    let ?tm = "tm1\<lparr>tm_timers := map Some (place ?t ts)\<rparr>"
    have fire: "fire_timer act t tm e = Some (?tm, e1)"
      using True int [OF True] c act ts ok(2)
      by (simp add: fire_timer_def Let_def i64_add_def reinsert_sorted_place entry_ok_def)
    have "entry_ok (tm_next_id tm1) ?t" using ok(2) int [OF True] True by (simp add: entry_ok_def)
    moreover have "timer_addr ?t = timer_addr t" by (simp add: timer_addr_def)
    ultimately have "timers_ok (tm_next_id tm1) (set (cr_cbs (tm_registry tm1))) (place ?t ts)"
      using ok dist(2) by (simp add: timers_ok_place)
    then have "timer_wf ?tm" by (auto simp: timer_wf_def)
    with fire True ts dist(1) act c(2) show ?thesis by auto
  next
    case False
    let ?tm = "tm1\<lparr>tm_registry := registry_remove (tm_registry tm1) (timer_addr t)\<rparr>"
    have fire: "fire_timer act t tm e = Some (?tm, e1)"
      using False c act ok(2) by (auto simp: fire_timer_def Let_def entry_ok_def)
    have "timers_ok (tm_next_id tm1) (set (cr_cbs (tm_registry tm1)) - {timer_addr t}) ts"
      using ok(1,5) unfolding timers_ok_def by (metis DiffI image_eqI singletonD)
    then have "timer_wf ?tm" using ts c by (auto simp: timer_wf_def)
    with fire False ts dist(1) act c(2) show ?thesis by auto
  qed
qed

lemmas check_loop_induct = check_loop.raw_induct [rotated 1, consumes 1, case_names step]

text \<open>
  Callbacks that may register timers, none of them due before \<open>limit\<close>, on a clock that stays below it.
\<close>

definition late_registrations ::
    "'k pipe_sys \<Rightarrow> int \<Rightarrow> (nat \<Rightarrow> timer_manager \<Rightarrow> 'e \<Rightarrow> timer_manager \<times> 'e) \<Rightarrow> bool" where
  "late_registrations sys limit act \<longleftrightarrow>
     (\<forall>a tm e. timer_wf tm \<longrightarrow> timer_env sys a tm (fst (act a tm e))
        \<and> (\<forall>t. Some t \<in> set (tm_timers (fst (act a tm e))) \<longrightarrow> Some t \<in> set (tm_timers tm) \<or> limit \<le> te_next t))"

text \<open>What is left to do before \<open>limit\<close> decreases with every firing.\<close>

definition backlog :: "int \<Rightarrow> timer_entry list \<Rightarrow> nat" where
  "backlog limit ts = sum_list (map (\<lambda>t. nat (limit - te_next t)) ts)"

lemma backlog_late:
  assumes "distinct ts'" and "distinct ts" and "\<forall>t \<in> set ts'. t \<in> set ts \<or> limit \<le> te_next t"
  shows "backlog limit ts' \<le> backlog limit ts"
proof -
  let ?f = "\<lambda>t. nat (limit - te_next t)"
  have "backlog limit ts' = sum ?f (set ts')" unfolding backlog_def by (rule sum_list_distinct_conv_sum_set [OF assms(1)])
  also have "\<dots> = sum ?f (set ts' \<inter> set ts)"
    using assms(3) by (intro sum.mono_neutral_right) auto
  also have "\<dots> \<le> sum ?f (set ts)" by (intro sum_mono2) auto
  also have "\<dots> = backlog limit ts" unfolding backlog_def by (rule sum_list_distinct_conv_sum_set [OF assms(2), symmetric])
  finally show ?thesis .
qed

text \<open>Timers due before \<open>limit\<close> have room for one more period.\<close>

definition room :: "int \<Rightarrow> timer_entry list \<Rightarrow> bool" where
  "room limit ts \<longleftrightarrow> (\<forall>t \<in> set ts. te_next t < limit \<longrightarrow> limit + te_interval t * 1000000 \<le> 9223372036854775807)"

lemma fire_timer_progress:
  assumes late: "late_registrations sys limit act" and ok: "timers_ok (tm_next_id tm) (set (cr_cbs (tm_registry tm))) (t # us)"
    and due: "te_next t < limit" and room: "room limit (t # us)"
  shows "\<exists>ws tm' e'. fire_timer act t (tm\<lparr>tm_timers := map Some us\<rparr>) e = Some (tm', e') \<and> timer_wf tm'
    \<and> tm_timers tm' = map Some ws \<and> backlog limit ws < backlog limit (t # us) \<and> room limit ws"
proof -
  let ?tm = "tm\<lparr>tm_timers := map Some us\<rparr>"
  let ?t = "t\<lparr>te_fire_count := te_fire_count t + 1, te_next := te_next t + te_interval t * 1000000\<rparr>"
  have held: "holding t ?tm" using ok by (auto simp: holding_def timers_ok_Cons)
  have env: "timer_env sys (timer_addr t) ?tm (fst (act (timer_addr t) ?tm e))"
    and new: "\<forall>x. Some x \<in> set (tm_timers (fst (act (timer_addr t) ?tm e))) \<longrightarrow> x \<in> set us \<or> limit \<le> te_next x"
    using late holding_wf [OF held] unfolding late_registrations_def by fastforce+
  have int: "is_int64 (te_next t + te_interval t * 1000000)"
    using room due ok by (auto simp: room_def is_int64_def entry_ok_def timers_ok_Cons)
  obtain vs tm2 e2 where vs: "tm_timers (fst (act (timer_addr t) ?tm e)) = map Some vs" "distinct (map te_id vs)"
    and fire: "fire_timer act t ?tm e = Some (tm2, e2)" "timer_wf tm2"
    and tm2: "tm_timers tm2 = map Some (if 0 < te_interval t then place ?t vs else vs)"
    using fire_timer_runs [of t ?tm sys act e, OF held env int] by blast
  have sub: "\<forall>x \<in> set vs. x \<in> set us \<or> limit \<le> te_next x" using new vs(1) by auto
  have "distinct vs" "distinct us" using vs(2) ok by (auto simp: timers_ok_Cons timers_ok_def distinct_map)
  from backlog_late [OF this sub] have "backlog limit (if 0 < te_interval t then place ?t vs else vs) < backlog limit (t # us)"
    using due by (auto simp: backlog_def sum_place)
  moreover have "room limit (if 0 < te_interval t then place ?t vs else vs)"
    using sub room due by (auto simp: room_def)
  ultimately show ?thesis using fire tm2 by blast
qed

lemma check_loop_runs:
  assumes clock: "\<forall>e. 0 \<le> fst (clock e) \<and> fst (clock e) \<le> limit" and late: "late_registrations sys limit act"
    and tv: "timeval_ok timeout"
  shows "timer_wf tm \<Longrightarrow> room limit (map the (tm_timers tm)) \<Longrightarrow>
    \<exists>tm' e' tv. check_loop clock act tm e timeout = Some (tm', e', tv) \<and> timer_wf tm' \<and> timeval_ok tv"
proof (induction "backlog limit (map the (tm_timers tm))" arbitrary: tm e rule: less_induct)
  case less
  obtain ts where ts: "tm_timers tm = map Some ts" and ok: "timers_ok (tm_next_id tm) (set (cr_cbs (tm_registry tm))) ts"
    using less(2) by (auto simp: timer_wf_def)
  show ?case
  proof (cases "tm_cleaned_up tm \<or> ts = []")
    case True
    with less(2) tv ts show ?thesis by (auto simp: check_loop.simps [of clock act tm])
  next
    case False
    then obtain t us where us: "ts = t # us" by (auto simp: neq_Nil_conv)
    obtain now e1 where now: "clock e = (now, e1)" by force
    have n: "0 \<le> now" "now \<le> limit" using clock now by (metis fst_conv)+
    show ?thesis
    proof (cases "te_next t < now")
      case True
      have "room limit (t # us)" using less(3) ts us by (simp add: comp_def)
      then obtain ws tm2 e2 where fire: "fire_timer act t (tm\<lparr>tm_timers := map Some us\<rparr>) e1 = Some (tm2, e2)" and wf: "timer_wf tm2"
        and ws: "tm_timers tm2 = map Some ws" "backlog limit ws < backlog limit (t # us)" "room limit ws"
        using fire_timer_progress [OF late ok [unfolded us], of e1] True n by auto
      from less(1) [OF _ wf, of e2] ws ts us
      obtain tm' e' tv where "check_loop clock act tm2 e2 timeout = Some (tm', e', tv)" "timer_wf tm'" "timeval_ok tv"
        by (auto simp: comp_def)
      with False ts us now True fire show ?thesis by (simp add: check_loop.simps [of clock act tm])
    next
      case notdue: False
      have "is_int64 (te_next t)" using ok by (simp add: us timers_ok_Cons entry_ok_def)
      then obtain tv where "set_timeout_until (te_next t) now = Some tv" "timeval_ok tv"
        using set_timeout_until_exact [of now "te_next t"] n notdue by auto
      with False ts us now notdue less(2) show ?thesis by (simp add: check_loop.simps [of clock act tm])
    qed
  qed
qed

section \<open>Which timers fire, and when\<close>

text \<open>
  A world for callbacks that leave the manager alone: a state the clock is read from, and the
  addresses of the callbacks activated so far.
\<close>

definition logging_clock :: "('w \<Rightarrow> int \<times> 'w) \<Rightarrow> ('w \<times> nat list) clock" where
  "logging_clock c e = (case c (fst e) of (now, w) \<Rightarrow> (now, (w, snd e)))"

definition logging_act :: "nat \<Rightarrow> timer_manager \<Rightarrow> 'w \<times> nat list \<Rightarrow> timer_manager \<times> 'w \<times> nat list" where
  "logging_act a tm e = (tm, (fst e, snd e @ [a]))"

definition period_ns :: "timer_entry \<Rightarrow> int" where
  "period_ns t = te_interval t * 1000000"

text \<open>A firing is the address of the callback with the time it was planned for.\<close>

definition fired :: "timer_entry \<Rightarrow> (nat \<times> int) list \<Rightarrow> nat" where
  "fired t fs = length (filter (\<lambda>f. fst f = timer_addr t) fs)"

definition advance :: "timer_entry \<Rightarrow> nat \<Rightarrow> timer_entry" where
  "advance t n = t\<lparr>te_next := te_next t + int n * period_ns t, te_fire_count := te_fire_count t + of_nat n\<rparr>"

text \<open>The timers left: a single-shot timer that has fired is gone.\<close>

definition survivors :: "timer_entry set \<Rightarrow> (nat \<times> int) list \<Rightarrow> timer_entry set" where
  "survivors T fs = (\<lambda>t. advance t (fired t fs)) ` {t \<in> T. 0 < te_interval t \<or> fired t fs = 0}"

definition served :: "timer_entry list \<Rightarrow> (nat \<times> int) list \<Rightarrow> timer_entry list \<Rightarrow> bool" where
  "served ts fs ts' \<longleftrightarrow>
     sorted (map snd fs) \<and> fst ` set fs \<subseteq> timer_addr ` set ts \<and>
     (\<forall>t \<in> set ts. filter (\<lambda>f. fst f = timer_addr t) fs
          = map (\<lambda>i. (timer_addr t, te_next t + int i * period_ns t)) [0..<fired t fs]
        \<and> (te_interval t = 0 \<longrightarrow> fired t fs \<le> 1)) \<and>
     set ts' = survivors (set ts) fs"

lemma timer_addr_advance [simp]: "timer_addr (advance t n) = timer_addr t"
  by (simp add: timer_addr_def advance_def)

lemma period_ns_advance [simp]: "period_ns (advance t n) = period_ns t" "te_interval (advance t n) = te_interval t"
  by (simp_all add: period_ns_def advance_def)

lemma te_next_advance [simp]: "te_next (advance t n) = te_next t + int n * period_ns t"
  by (simp add: advance_def)

lemma advance_0 [simp]: "advance t 0 = t"
  by (simp add: advance_def)

lemma advance_advance [simp]: "advance (advance t m) n = advance t (m + n)"
  by (simp add: advance_def period_ns_def algebra_simps)

lemma fired_simps:
  "fired t [] = 0" "timer_addr t = fst f \<Longrightarrow> fired t (f # fs) = Suc (fired t fs)"
  "timer_addr t \<noteq> fst f \<Longrightarrow> fired t (f # fs) = fired t fs" "fired (advance t n) fs = fired t fs"
  by (auto simp: fired_def)

lemma survivors_insert:
  "survivors (insert t T) fs =
     (if 0 < te_interval t \<or> fired t fs = 0 then insert (advance t (fired t fs)) (survivors T fs) else survivors T fs)"
proof -
  have "{x \<in> insert t T. 0 < te_interval x \<or> fired x fs = 0} =
      (if 0 < te_interval t \<or> fired t fs = 0 then insert t {x \<in> T. 0 < te_interval x \<or> fired x fs = 0}
       else {x \<in> T. 0 < te_interval x \<or> fired x fs = 0})" by auto
  then show ?thesis by (simp add: survivors_def)
qed

lemma survivors_cong: "(\<And>t. t \<in> T \<Longrightarrow> fired t fs = fired t fs') \<Longrightarrow> survivors T fs = survivors T fs'"
  unfolding survivors_def by (intro image_cong) auto

lemma served_Nil: "served ts [] ts"
  by (auto simp: served_def fired_simps survivors_def)

lemma served_times:
  assumes "served ts fs ts'" and "f \<in> set fs" and "\<forall>t \<in> set ts. 0 \<le> te_interval t"
  shows "\<exists>t \<in> set ts. te_next t \<le> snd f"
proof -
  obtain t where t: "t \<in> set ts" "fst f = timer_addr t" using assms(1,2) by (auto simp: served_def)
  then have "f \<in> set (filter (\<lambda>f. fst f = timer_addr t) fs)" using assms(2) by simp
  then have "f \<in> set (map (\<lambda>i. (timer_addr t, te_next t + int i * period_ns t)) [0..<fired t fs])"
    using assms(1) t(1) unfolding served_def by metis
  then obtain i where "snd f = te_next t + int i * period_ns t" by fastforce
  moreover have "0 \<le> int i * period_ns t" using assms(3) t(1) by (simp add: period_ns_def)
  ultimately show ?thesis using t(1) by (intro bexI [of _ t]) auto
qed

text \<open>The earliest timer fires and, if it recurs, is placed again one period later.\<close>

lemma served_recurring:
  assumes ok: "timers_ok n R (t # ts)" and rec: "0 < te_interval t"
    and rest: "served (place (advance t 1) ts) fs ts'"
  shows "served (t # ts) ((timer_addr t, te_next t) # fs) ts'"
proof -
  let ?f = "(timer_addr t, te_next t)"
  have new: "timer_addr t \<notin> timer_addr ` set ts" and first: "\<forall>x \<in> set ts. te_next t \<le> te_next x"
    and nonneg: "\<forall>x \<in> set (t # ts). 0 \<le> te_interval x"
    using ok by (auto simp: timers_ok_Cons timers_ok_def entry_ok_def)
  have others: "timer_addr x \<noteq> timer_addr t" if "x \<in> set ts" for x using new that by (metis image_eqI)
  have "te_next t \<le> snd f" if "f \<in> set fs" for f
    using served_times [OF rest that] nonneg first rec by (auto simp: period_ns_def)
  then have "sorted (map snd (?f # fs))" using rest by (auto simp: served_def)
  moreover have "fst ` set (?f # fs) \<subseteq> timer_addr ` set (t # ts)" using rest by (auto simp: served_def)
  moreover have "filter (\<lambda>f. fst f = timer_addr x) (?f # fs)
        = map (\<lambda>i. (timer_addr x, te_next x + int i * period_ns x)) [0..<fired x (?f # fs)]
      \<and> (te_interval x = 0 \<longrightarrow> fired x (?f # fs) \<le> 1)" if x: "x \<in> set (t # ts)" for x
  proof (cases "x = t")
    case True
    have "filter (\<lambda>f. fst f = timer_addr t) fs
        = map (\<lambda>i. (timer_addr t, te_next t + int (Suc i) * period_ns t)) [0..<fired t fs]"
      using rest by (auto simp: served_def fired_simps algebra_simps)
    then show ?thesis using True rec
      by (simp add: fired_simps map_upt_Suc del: upt_Suc)
  next
    case False
    with x have "x \<in> set ts" by simp
    with others [OF this] rest show ?thesis by (auto simp: served_def fired_simps)
  qed
  moreover have "set ts' = survivors (set (t # ts)) (?f # fs)"
  proof -
    have "set ts' = survivors (insert (advance t 1) (set ts)) fs" using rest by (simp add: served_def)
    also have "\<dots> = insert (advance t (Suc (fired t fs))) (survivors (set ts) fs)"
      using rec by (simp add: survivors_insert fired_simps)
    also have "survivors (set ts) fs = survivors (set ts) (?f # fs)"
      using others by (intro survivors_cong) (simp add: fired_simps)
    finally show ?thesis using rec by (simp add: survivors_insert fired_simps)
  qed
  ultimately show ?thesis unfolding served_def by blast
qed

lemma served_once:
  assumes ok: "timers_ok n R (t # ts)" and once: "te_interval t = 0" and rest: "served ts fs ts'"
  shows "served (t # ts) ((timer_addr t, te_next t) # fs) ts'"
proof -
  let ?f = "(timer_addr t, te_next t)"
  have new: "timer_addr t \<notin> timer_addr ` set ts" and first: "\<forall>x \<in> set ts. te_next t \<le> te_next x"
    and nonneg: "\<forall>x \<in> set ts. 0 \<le> te_interval x"
    using ok by (auto simp: timers_ok_Cons timers_ok_def entry_ok_def)
  have others: "timer_addr x \<noteq> timer_addr t" if "x \<in> set ts" for x using new that by (metis image_eqI)
  have none: "filter (\<lambda>f. fst f = timer_addr t) fs = []"
    using rest new by (auto simp: served_def filter_empty_conv)
  then have zero: "fired t fs = 0" by (simp add: fired_def)
  have "te_next t \<le> snd f" if "f \<in> set fs" for f
    using served_times [OF rest that nonneg] first by fastforce
  then have "sorted (map snd (?f # fs))" using rest by (auto simp: served_def)
  moreover have "fst ` set (?f # fs) \<subseteq> timer_addr ` set (t # ts)" using rest by (auto simp: served_def)
  moreover have "filter (\<lambda>f. fst f = timer_addr x) (?f # fs)
        = map (\<lambda>i. (timer_addr x, te_next x + int i * period_ns x)) [0..<fired x (?f # fs)]
      \<and> (te_interval x = 0 \<longrightarrow> fired x (?f # fs) \<le> 1)" if x: "x \<in> set (t # ts)" for x
  proof (cases "x = t")
    case True
    then show ?thesis using none zero by (simp add: fired_simps)
  next
    case False
    with x have "x \<in> set ts" by simp
    with others [OF this] rest show ?thesis by (auto simp: served_def fired_simps)
  qed
  moreover have "set ts' = survivors (set (t # ts)) (?f # fs)"
  proof -
    have "set ts' = survivors (set ts) fs" using rest by (simp add: served_def)
    also have "\<dots> = survivors (set ts) (?f # fs)"
      using others by (intro survivors_cong) (simp add: fired_simps)
    finally show ?thesis using once by (simp add: survivors_insert fired_simps)
  qed
  ultimately show ?thesis unfolding served_def by blast
qed

lemma timers_ok_again:
  assumes "timers_ok n R (t # ts)" and "is_int64 (te_next t + period_ns t)"
  shows "timers_ok n R (place (advance t 1) ts)"
proof -
  have t: "timers_ok n R ts" "entry_ok n t" "timer_addr t \<in> R" "te_id t \<notin> te_id ` set ts"
      "timer_addr t \<notin> timer_addr ` set ts"
    using assms(1) by (simp_all add: timers_ok_Cons)
  have "entry_ok n (advance t 1)"
    using t(2) assms(2) by (simp add: entry_ok_def advance_def period_ns_def)
  moreover have "te_id (advance t 1) = te_id t" by (simp add: advance_def)
  moreover have "sorted (map te_next ts)" using t(1) by (simp add: timers_ok_def)
  ultimately show ?thesis using t by (simp add: timers_ok_place)
qed

lemma timers_ok_drop: "timers_ok n R (t # ts) \<Longrightarrow> timers_ok n (R - {timer_addr t}) ts"
  by (auto simp: timers_ok_def image_iff)

lemma fire_timer_logging:
  assumes ok: "timers_ok n R (t # ts)" and tm: "tm_timers tm = map Some ts" and int: "is_int64 (te_next t + period_ns t)"
  shows "fire_timer logging_act t tm (w, log) =
    (if 0 < te_interval t
     then Some (tm\<lparr>tm_timers := map Some (place (advance t 1) ts)\<rparr>, (w, log @ [timer_addr t]))
     else Some (tm\<lparr>tm_registry := registry_remove (tm_registry tm) (timer_addr t)\<rparr>, (w, log @ [timer_addr t])))"
proof -
  obtain c where c: "te_cb t = Some c" "\<not> 0 < te_interval t \<longrightarrow> \<not> cb_async c"
    "0 < te_interval t \<longleftrightarrow> has_flag (te_flags t) TIMER_RECURRING"
    using ok by (auto simp: timers_ok_Cons entry_ok_def)
  have adv: "t\<lparr>te_fire_count := te_fire_count t + 1, te_next := te_next t + te_interval t * 1000000\<rparr> = advance t 1"
    by (simp add: advance_def period_ns_def)
  show ?thesis
    using c int tm adv by (auto simp: fire_timer_def logging_act_def Let_def timer_addr_def i64_add_def period_ns_def
      reinsert_sorted_place)
qed

text \<open>What the remaining work of a check is bounded by, when the clock stays below \<open>limit\<close>.\<close>

definition weight :: "int \<Rightarrow> timer_entry \<Rightarrow> nat" where
  "weight limit t = (if te_interval t = 0 then 1 else nat (limit - te_next t))"

lemma weight_advance: "0 < te_interval t \<Longrightarrow> te_next t < limit \<Longrightarrow> weight limit (advance t 1) < weight limit t"
  by (simp add: weight_def period_ns_def)

definition check_result ::
    "int \<Rightarrow> ('w \<Rightarrow> int \<times> 'w) \<Rightarrow> timer_manager \<Rightarrow> timer_entry list \<Rightarrow> nat list \<Rightarrow> timeval
     \<Rightarrow> (timer_manager \<times> ('w \<times> nat list) \<times> timeval) option \<Rightarrow> bool" where
  "check_result limit c tm ts log timeout res \<longleftrightarrow>
     (\<exists>fs ts' r w tv. res = Some (tm\<lparr>tm_timers := map Some ts', tm_registry := r\<rparr>, (w, log @ map fst fs), tv)
        \<and> served ts fs ts' \<and> timers_ok (tm_next_id tm) (set (cr_cbs r)) ts' \<and> (\<forall>f \<in> set fs. snd f < limit)
        \<and> (if ts' = [] then tv = timeout
           else \<exists>v. fst (c v) \<le> te_next (hd ts') \<and> set_timeout_until (te_next (hd ts')) (fst (c v)) = Some tv))"

lemma check_result_step:
  assumes "check_result limit c tm1 ts1 (log @ [a]) timeout res"
    and "tm_next_id tm1 = tm_next_id tm" "tm_cleaned_up tm1 = tm_cleaned_up tm" and "d < limit"
    and "\<And>fs ts'. served ts1 fs ts' \<Longrightarrow> served ts ((a, d) # fs) ts'"
  shows "check_result limit c tm ts log timeout res"
proof -
  obtain fs ts' r w tv where fs: "res = Some (tm1\<lparr>tm_timers := map Some ts', tm_registry := r\<rparr>, (w, (log @ [a]) @ map fst fs), tv)"
      "served ts1 fs ts'" "timers_ok (tm_next_id tm1) (set (cr_cbs r)) ts'" "\<forall>f \<in> set fs. snd f < limit"
      "if ts' = [] then tv = timeout
       else \<exists>v. fst (c v) \<le> te_next (hd ts') \<and> set_timeout_until (te_next (hd ts')) (fst (c v)) = Some tv"
    using assms(1) unfolding check_result_def by blast
  have "tm1\<lparr>tm_timers := map Some ts', tm_registry := r\<rparr> = tm\<lparr>tm_timers := map Some ts', tm_registry := r\<rparr>"
    using assms(2,3) by simp
  then have "res = Some (tm\<lparr>tm_timers := map Some ts', tm_registry := r\<rparr>, (w, log @ map fst ((a, d) # fs)), tv)"
    using fs(1) by simp
  moreover have "\<forall>f \<in> set ((a, d) # fs). snd f < limit" using fs(4) assms(4) by simp
  ultimately show ?thesis
    using assms(5) [OF fs(2)] fs(3,5) unfolding check_result_def assms(2) by blast
qed

lemma check_result_stop:
  assumes "tm_timers tm = map Some ts" and "timers_ok (tm_next_id tm) (set (cr_cbs (tm_registry tm))) ts"
    and "if ts = [] then tv = timeout
         else \<exists>v. fst (c v) \<le> te_next (hd ts) \<and> set_timeout_until (te_next (hd ts)) (fst (c v)) = Some tv"
  shows "check_result limit c tm ts log timeout (Some (tm, (w, log), tv))"
proof -
  have "(tm, (w, log), tv) = (tm\<lparr>tm_timers := map Some ts, tm_registry := tm_registry tm\<rparr>, (w, log @ map fst []), tv)"
    using assms(1) by simp
  with assms(2,3) served_Nil [of ts] show ?thesis
    unfolding check_result_def by (metis empty_iff list.set(1))
qed

lemma check_loop_served:
  assumes clk: "\<And>w. 0 \<le> fst (c w) \<and> fst (c w) \<le> limit"
  shows "tm_timers tm = map Some ts \<Longrightarrow> \<not> tm_cleaned_up tm
    \<Longrightarrow> timers_ok (tm_next_id tm) (set (cr_cbs (tm_registry tm))) ts
    \<Longrightarrow> (\<forall>t \<in> set ts. limit + period_ns t \<le> 9223372036854775807)
    \<Longrightarrow> check_result limit c tm ts log timeout (check_loop (logging_clock c) logging_act tm (w, log) timeout)"
proof (induction "sum_list (map (weight limit) ts)" arbitrary: tm ts w log rule: less_induct)
  case less
  note loop = check_loop.simps [of "logging_clock c" logging_act tm "(w, log)" timeout]
  show ?case
  proof (cases ts)
    case Nil
    then have "check_loop (logging_clock c) logging_act tm (w, log) timeout = Some (tm, (w, log), timeout)"
      using less(2,3) by (simp add: loop)
    with check_result_stop [OF less(2,4), of timeout timeout c] Nil show ?thesis by simp
  next
    case (Cons t us)
    obtain now w1 where now: "c w = (now, w1)" by force
    then have lim: "0 \<le> now" "now \<le> limit" using clk [of w] by simp_all
    have t: "entry_ok (tm_next_id tm) t" using less(4) Cons by (simp add: timers_ok_Cons)
    show ?thesis
    proof (cases "te_next t < now")
      case False
      have "is_int64 (te_next t)" using t by (simp add: entry_ok_def)
      then obtain tv where tv: "set_timeout_until (te_next t) now = Some tv"
        using set_timeout_until_exact [of now "te_next t"] lim False by auto
      have "check_loop (logging_clock c) logging_act tm (w, log) timeout = Some (tm, (w1, log), tv)"
        using less(2,3) Cons now False tv by (simp add: loop logging_clock_def)
      moreover have "fst (c w) \<le> te_next (hd ts) \<and> set_timeout_until (te_next (hd ts)) (fst (c w)) = Some tv"
        using Cons now False tv by simp
      then have "\<exists>v. fst (c v) \<le> te_next (hd ts) \<and> set_timeout_until (te_next (hd ts)) (fst (c v)) = Some tv" by blast
      ultimately show ?thesis using check_result_stop [OF less(2,4), of tv timeout c] Cons by simp
    next
      case True
      let ?tm = "tm\<lparr>tm_timers := map Some us\<rparr>"
      have ok: "timers_ok (tm_next_id tm) (set (cr_cbs (tm_registry tm))) (t # us)" using less(4) Cons by simp
      have "0 \<le> te_next t" "0 \<le> te_interval t" using t by (simp_all add: entry_ok_def)
      then have int: "is_int64 (te_next t + period_ns t)"
        using less(5) Cons True lim by (auto simp: is_int64_def period_ns_def)
      have tl: "te_next t < limit" using True lim by simp
      note fire = fire_timer_logging [OF ok _ int, of ?tm w1 log, simplified]
      have go: "check_loop (logging_clock c) logging_act tm (w, log) timeout =
          (case fire_timer logging_act t ?tm (w1, log) of None \<Rightarrow> None
           | Some (tm, e) \<Rightarrow> check_loop (logging_clock c) logging_act tm e timeout)"
        using less(2,3) Cons now True by (simp add: loop logging_clock_def)
      show ?thesis
      proof (cases "0 < te_interval t")
        case rec: True
        let ?ts = "place (advance t 1) us"
        have "check_result limit c (tm\<lparr>tm_timers := map Some ?ts\<rparr>) ?ts (log @ [timer_addr t]) timeout
            (check_loop (logging_clock c) logging_act (tm\<lparr>tm_timers := map Some ?ts\<rparr>) (w1, log @ [timer_addr t]) timeout)"
          using weight_advance [OF rec tl] less(3,5) timers_ok_again [OF ok int] Cons
          by (intro less(1)) (auto simp: sum_place)
        from check_result_step [OF this _ _ tl served_recurring [OF ok rec]] show ?thesis
          unfolding go fire using rec Cons by simp
      next
        case once: False
        let ?tm1 = "tm\<lparr>tm_timers := map Some us, tm_registry := registry_remove (tm_registry tm) (timer_addr t)\<rparr>"
        have z: "te_interval t = 0" using once \<open>0 \<le> te_interval t\<close> by simp
        have "timer_addr t \<noteq> 0" using t by (auto simp: entry_ok_def timer_addr_def)
        then have "check_result limit c ?tm1 us (log @ [timer_addr t]) timeout
            (check_loop (logging_clock c) logging_act ?tm1 (w1, log @ [timer_addr t]) timeout)"
          using less(3,5) timers_ok_drop [OF ok] Cons z by (intro less(1)) (auto simp: weight_def)
        from check_result_step [OF this _ _ tl served_once [OF ok z]] show ?thesis
          unfolding go fire using once Cons by simp
      qed
    qed
  qed
qed

text \<open>How often a timer is due before \<open>now\<close>.\<close>

definition ticks :: "int \<Rightarrow> timer_entry \<Rightarrow> nat" where
  "ticks now t =
     (if te_interval t = 0 then (if te_next t < now then 1 else 0)
      else nat ((now - te_next t + period_ns t - 1) div period_ns t))"

lemma ticks_unique:
  assumes "0 < te_interval t" and "now \<le> te_next t + int k * period_ns t"
    and "0 < k \<Longrightarrow> te_next t + int (k - 1) * period_ns t < now"
  shows "k = ticks now t"
proof -
  let ?p = "period_ns t" and ?d = "now - te_next t"
  have p: "0 < ?p" using assms(1) by (simp add: period_ns_def)
  show ?thesis
  proof (cases k)
    case 0
    then have "?d + ?p - 1 < ?p" using assms(2) by simp
    then have "(?d + ?p - 1) div ?p \<le> 0" using p by (simp add: pos_imp_zdiv_pos_iff not_less [symmetric])
    with 0 assms(1) show ?thesis by (simp add: ticks_def)
  next
    case (Suc j)
    then have j: "int j * ?p < ?d" "?d \<le> int j * ?p + ?p" using assms(2,3) by (simp_all add: algebra_simps)
    have "?d + ?p - 1 = ?p * (int j + 1) + (?d - int j * ?p - 1)" by (simp add: algebra_simps)
    then have "(?d + ?p - 1) div ?p = int j + 1" by (rule int_div_pos_eq) (use j in simp_all)
    with Suc assms(1) show ?thesis by (simp add: ticks_def)
  qed
qed

lemma fired_ticks:
  assumes srv: "served ts fs ts'" and t: "t \<in> set ts" "0 \<le> te_interval t"
    and past: "\<forall>f \<in> set fs. snd f < now" and ahead: "\<forall>x \<in> set ts'. now \<le> te_next x"
  shows "fired t fs = ticks now t"
proof -
  let ?k = "fired t fs"
  have times: "filter (\<lambda>f. fst f = timer_addr t) fs = map (\<lambda>i. (timer_addr t, te_next t + int i * period_ns t)) [0..<?k]"
    and once: "te_interval t = 0 \<longrightarrow> ?k \<le> 1" and left: "set ts' = survivors (set ts) fs"
    using srv t(1) by (auto simp: served_def)
  have last: "te_next t + int (?k - 1) * period_ns t < now" if "0 < ?k"
  proof -
    have "(timer_addr t, te_next t + int (?k - 1) * period_ns t) \<in> set (filter (\<lambda>f. fst f = timer_addr t) fs)"
      unfolding times using that by (auto simp: of_nat_diff intro!: image_eqI [of _ _ "?k - 1"])
    then show ?thesis using past by auto
  qed
  have keep: "now \<le> te_next t + int ?k * period_ns t" if "0 < te_interval t \<or> ?k = 0"
  proof -
    have "advance t ?k \<in> set ts'" unfolding left survivors_def using that t(1) by blast
    then have "now \<le> te_next (advance t ?k)" using ahead by blast
    then show ?thesis by simp
  qed
  show ?thesis
  proof (cases "te_interval t = 0")
    case True
    then have "?k = 0 \<or> ?k = 1" using once by auto
    then show ?thesis using True keep last by (auto simp: ticks_def period_ns_def)
  next
    case False
    then show ?thesis using ticks_unique [OF _ keep last] t(2) by simp
  qed
qed

section \<open>Properties\<close>

text \<open>
  C8. Checking the timers fires exactly what is due, in order and without drift. While the
  clock shows \<open>now\<close> and the callbacks leave the manager alone, a check returns; the firings are
  in the order of their planned times; each timer fires once for every planned time before
  \<open>now\<close>, and the planned times of a recurring timer are its deadline plus the multiples of its
  interval, however late it is. Single-shot timers that fired are gone, all others are kept in
  order with their next deadline not before \<open>now\<close>. The timeout is a second without timers, and
  otherwise the time to the first deadline rounded up to microseconds: never too short, and
  less than a microsecond too long.
\<close>

theorem timer_check_exact:
  assumes "timer_wf tm" and "\<not> tm_cleaned_up tm" and "0 \<le> now"
    and "\<forall>t \<in> set (map the (tm_timers tm)). now + period_ns t \<le> 9223372036854775807"
  shows "\<exists>fs ts' r tv. timer_check (logging_clock (\<lambda>w. (now, w))) logging_act tm ((), [])
      = Some (tm\<lparr>tm_timers := map Some ts', tm_registry := r\<rparr>, ((), map fst fs), tv)
    \<and> sorted (map snd fs) \<and> fst ` set fs \<subseteq> timer_addr ` the ` set (tm_timers tm)
    \<and> (\<forall>t \<in> the ` set (tm_timers tm). filter (\<lambda>f. fst f = timer_addr t) fs
         = map (\<lambda>i. (timer_addr t, te_next t + int i * period_ns t)) [0..<ticks now t])
    \<and> set ts' = (\<lambda>t. advance t (ticks now t)) ` {t \<in> the ` set (tm_timers tm). 0 < te_interval t \<or> now \<le> te_next t}
    \<and> sorted (map te_next ts') \<and> (\<forall>t \<in> set ts'. now \<le> te_next t) \<and> timeval_ok tv
    \<and> (if ts' = [] then tv = \<lparr>tv_sec = 1, tv_usec = 0\<rparr>
       else te_next (hd ts') - now \<le> 1000 * timeval_us tv \<and> 1000 * timeval_us tv < te_next (hd ts') - now + 1000)"
proof -
  obtain ts where ts: "tm_timers tm = map Some ts" and ok: "timers_ok (tm_next_id tm) (set (cr_cbs (tm_registry tm))) ts"
    using assms(1) by (auto simp: timer_wf_def)
  let ?c = "\<lambda>w :: unit. (now, w)"
  have lim: "\<forall>t \<in> set ts. now + period_ns t \<le> 9223372036854775807" using assms(4) ts by auto
  have "check_result now ?c tm ts [] set_idle_timeout (timer_check (logging_clock ?c) logging_act tm ((), []))"
    unfolding timer_check_def by (rule check_loop_served [OF _ ts assms(2) ok lim]) (use assms(3) in simp)
  then obtain fs ts' r w tv where res0: "timer_check (logging_clock ?c) logging_act tm ((), [])
        = Some (tm\<lparr>tm_timers := map Some ts', tm_registry := r\<rparr>, (w, [] @ map fst fs), tv)"
      and srv: "served ts fs ts'" and ok': "timers_ok (tm_next_id tm) (set (cr_cbs r)) ts'"
      and past: "\<forall>f \<in> set fs. snd f < now"
      and tv0: "if ts' = [] then tv = set_idle_timeout
        else \<exists>v. fst (?c v) \<le> te_next (hd ts') \<and> set_timeout_until (te_next (hd ts')) (fst (?c v)) = Some tv"
    unfolding check_result_def by blast
  have res: "timer_check (logging_clock ?c) logging_act tm ((), [])
        = Some (tm\<lparr>tm_timers := map Some ts', tm_registry := r\<rparr>, ((), map fst fs), tv)" using res0 by simp
  have tv: "if ts' = [] then tv = set_idle_timeout
        else now \<le> te_next (hd ts') \<and> set_timeout_until (te_next (hd ts')) now = Some tv"
    using tv0 by (auto split: if_split_asm)
  have sorted: "sorted (map te_next ts')" using ok' by (simp add: timers_ok_def)
  have ahead: "\<forall>x \<in> set ts'. now \<le> te_next x" using sorted tv by (cases ts') auto
  have fired: "fired t fs = ticks now t" if "t \<in> set ts" for t
    using fired_ticks [OF srv that _ past ahead] ok that by (auto simp: timers_ok_def entry_ok_def)
  have zero: "ticks now t = 0 \<longleftrightarrow> now \<le> te_next t" if "t \<in> set ts" "te_interval t = 0" for t
    using that by (auto simp: ticks_def)
  have "set ts' = (\<lambda>t. advance t (ticks now t)) ` {t \<in> set ts. 0 < te_interval t \<or> now \<le> te_next t}"
  proof -
    have "{t \<in> set ts. 0 < te_interval t \<or> fired t fs = 0} = {t \<in> set ts. 0 < te_interval t \<or> now \<le> te_next t}"
      using fired zero ok by (fastforce simp: timers_ok_def entry_ok_def)
    then show ?thesis using srv fired by (auto simp: served_def survivors_def)
  qed
  moreover have "timeval_ok tv \<and> (if ts' = [] then tv = \<lparr>tv_sec = 1, tv_usec = 0\<rparr>
       else te_next (hd ts') - now \<le> 1000 * timeval_us tv \<and> 1000 * timeval_us tv < te_next (hd ts') - now + 1000)"
  proof (cases ts')
    case Nil
    with tv show ?thesis by (simp add: set_idle_timeout_def timeval_ok_def)
  next
    case (Cons t us)
    then have "is_int64 (te_next t)" using ok' by (simp add: timers_ok_Cons entry_ok_def)
    with tv Cons set_timeout_until_exact [OF assms(3), of "te_next t"] show ?thesis by auto
  qed
  moreover have "the ` set (tm_timers tm) = set ts" using ts by (simp add: image_image)
  ultimately show ?thesis
    using res srv sorted ahead fired unfolding served_def by (intro exI [of _ fs] exI [of _ ts']) auto
qed

text \<open>A manager with a recurring and a single-shot timer.\<close>

definition two_timers :: timer_manager where
  "two_timers =
     \<lparr>tm_registry = \<lparr>cr_cbs = [5, 6]\<rparr>,
      tm_timers =
        [Some \<lparr>te_id = 1, te_flags = TIMER_RECURRING, te_next = 1000000, te_interval = 1, te_fire_count = 0,
               te_cb = Some \<lparr>cb_addr = 5, cb_async = False\<rparr>\<rparr>,
         Some \<lparr>te_id = 2, te_flags = TIMER_ONCE, te_next = 1500000, te_interval = 0, te_fire_count = 0,
               te_cb = Some \<lparr>cb_addr = 6, cb_async = False\<rparr>\<rparr>],
      tm_next_id = 3, tm_cleaned_up = False\<rparr>"

lemma two_timers_wf: "timer_wf two_timers"
proof -
  let ?ts = "map the (tm_timers two_timers)"
  have "timers_ok 3 {5, 6} ?ts"
    by (simp add: two_timers_def timers_ok_def entry_ok_def timer_addr_def is_int64_def is_valid_timer_flags_def
        has_flag_def TIMER_RECURRING_def TIMER_ONCE_def TIMER_WORKER_def)
  then show ?thesis unfolding timer_wf_def by (intro exI [of _ ?ts]) (simp add: two_timers_def)
qed

theorem timer_check_exact_witness:
  "\<exists>(fs :: (nat \<times> int) list) e tv tm. timer_check (logging_clock (\<lambda>w. (2500000, w))) logging_act two_timers ((), [])
      = Some (tm, e, tv) \<and> snd e = [5, 6, 5] \<and> map fst fs = [5, 6, 5] \<and> sorted (map snd fs)
      \<and> filter (\<lambda>f. fst f = 5) fs = [(5, 1000000), (5, 2000000)] \<and> timeval_ok tv"
proof -
  let ?run = "timer_check (logging_clock (\<lambda>w. (2500000, w))) logging_act two_timers ((), [])"
  have run: "map_option (\<lambda>r. snd (fst (snd r))) ?run = Some [5, 6, 5]" by code_simp
  have lim: "\<forall>t \<in> set (map the (tm_timers two_timers)). 2500000 + period_ns t \<le> 9223372036854775807"
    by (simp add: two_timers_def period_ns_def)
  have "\<not> tm_cleaned_up two_timers" by (simp add: two_timers_def)
  from timer_check_exact [OF two_timers_wf this _ lim] obtain fs ts' r tv where
      res: "?run = Some (two_timers\<lparr>tm_timers := map Some ts', tm_registry := r\<rparr>, ((), map fst fs), tv)"
    and order: "sorted (map snd fs)" "timeval_ok tv"
    and each: "\<forall>t \<in> the ` set (tm_timers two_timers). filter (\<lambda>f. fst f = timer_addr t) fs
         = map (\<lambda>i. (timer_addr t, te_next t + int i * period_ns t)) [0..<ticks 2500000 t]"
    by auto
  have "filter (\<lambda>f. fst f = 5) fs = [(5, 1000000), (5, 2000000)]"
    using each by (simp add: two_timers_def timer_addr_def period_ns_def ticks_def upt_rec)
  then show ?thesis using run res order by (intro exI [of _ fs]) auto
qed



text \<open>
  C36. The timer manager is always well formed: no null entries, timers in the order of their
  deadlines, identifiers and callbacks distinct, flags agreeing with the interval and the worker,
  and every callback of a timer registered. A new manager is; a registration that returns keeps it
  and is atomic, leaving the manager as it was when it gives no handle and otherwise adding exactly
  the requested timer under a new non-zero handle; cleaning up keeps it. A check runs to the end,
  with no failed assertion and no overflow, keeps the manager well formed and yields a valid timeout, while
  callbacks and other threads register timers, provided that the clock stays below a limit, that
  the new timers are not due before it, and that one more period of the timers due fits.
\<close>

theorem timer_manager_type:
  assumes "timer_wf tm"
  shows "timer_wf (new_timer_manager r) \<and> timer_wf (timer_cleanup tm) \<and>
    (addr \<notin> set (cr_cbs (tm_registry tm)) \<and> addr \<noteq> 0 \<and> 0 \<le> now \<and> is_int64 now \<and>
       timer_add sys alloc addr now tm pipe k mcb flags delay = Some (tm', k', h) \<longrightarrow>
     timer_wf tm' \<and> (case h of
         None \<Rightarrow> tm' = tm
       | Some i \<Rightarrow> i \<noteq> 0 \<and> i \<notin> te_id ` the ` set (tm_timers tm) \<and>
           the ` set (tm_timers tm') = insert (new_timer tm addr now flags delay) (the ` set (tm_timers tm)))) \<and>
    (late_registrations sys limit act \<and> (\<forall>e. 0 \<le> fst (clock e) \<and> fst (clock e) \<le> limit) \<and>
       (\<forall>t \<in> the ` set (tm_timers tm). te_next t < limit \<longrightarrow> limit + period_ns t \<le> 9223372036854775807) \<longrightarrow>
     (\<exists>tm'' e' tv. timer_check clock act tm e = Some (tm'', e', tv) \<and> timer_wf tm'' \<and> timeval_ok tv))"
proof (intro conjI impI)
  show "timer_wf (new_timer_manager r)" by (simp add: timer_wf_def new_timer_manager_def timers_ok_def)
  show "timer_wf (timer_cleanup tm)" by (rule timer_cleanup_wf [OF assms])
next
  assume a: "addr \<notin> set (cr_cbs (tm_registry tm)) \<and> addr \<noteq> 0 \<and> 0 \<le> now \<and> is_int64 now \<and>
       timer_add sys alloc addr now tm pipe k mcb flags delay = Some (tm', k', h)"
  then have "addr \<notin> set (cr_cbs (tm_registry tm))" "addr \<noteq> 0" "0 \<le> now" "is_int64 now"
    "timer_add sys alloc addr now tm pipe k mcb flags delay = Some (tm', k', h)" by blast+
  note sound = timer_add_sound [OF assms this]
  show "timer_wf tm'" by (rule sound(1))
  show "case h of None \<Rightarrow> tm' = tm
       | Some i \<Rightarrow> i \<noteq> 0 \<and> i \<notin> te_id ` the ` set (tm_timers tm) \<and>
           the ` set (tm_timers tm') = insert (new_timer tm addr now flags delay) (the ` set (tm_timers tm))"
  proof (cases h)
    case None
    with sound(2) show ?thesis by simp
  next
    case (Some i)
    have "te_id (the x) < tm_next_id tm" if "x \<in> set (tm_timers tm)" "tm_next_id tm \<noteq> 0" for x
      using assms that by (auto simp: timer_wf_def timers_ok_def entry_ok_def)
    then have "i \<notin> te_id ` the ` set (tm_timers tm)" if "i = tm_next_id tm" "i \<noteq> 0" using that by fastforce
    with sound(3) [OF Some] Some show ?thesis by (auto simp: add_accepts_def image_image)
  qed
next
  assume a: "late_registrations sys limit act \<and> (\<forall>e. 0 \<le> fst (clock e) \<and> fst (clock e) \<le> limit) \<and>
       (\<forall>t \<in> the ` set (tm_timers tm). te_next t < limit \<longrightarrow> limit + period_ns t \<le> 9223372036854775807)"
  then have "room limit (map the (tm_timers tm))" by (simp add: room_def period_ns_def)
  moreover have "timeval_ok set_idle_timeout" by (simp add: timeval_ok_def set_idle_timeout_def)
  ultimately show "\<exists>tm'' e' tv. timer_check clock act tm e = Some (tm'', e', tv) \<and> timer_wf tm'' \<and> timeval_ok tv"
    unfolding timer_check_def using a assms by (intro check_loop_runs) auto
qed

text \<open>A kernel whose pipe takes every byte, and a callback that registers a timer each time it runs.\<close>

definition ready_sys :: "nat pipe_sys" where
  "ready_sys = \<lparr>sys_pipe = (\<lambda>k. (Some (3, 4), k)), sys_fcntl = (\<lambda>_ _ k. (0, k)),
     sys_write = (\<lambda>_ bs k. (IO_DONE (length bs), Suc k)), sys_read = (\<lambda>_ n k. (IO_ERROR EAGAIN, k)), sys_close = (\<lambda>_ k. k)\<rparr>"

definition add_once :: "nat \<Rightarrow> int \<Rightarrow> timer_manager \<Rightarrow> (timer_manager \<times> nat \<times> u64 option) option" where
  "add_once addr now tm =
     timer_add ready_sys (\<lambda>_. True) addr now tm \<lparr>wp_read_fd = 3, wp_write_fd = 4, wp_state = PIPE_READY\<rparr> 0
       (\<lparr>mc_name = ''t'', mc_cb = Some (\<lambda>k. (Some 0, k)), mc_asynchronous = False\<rparr> :: nat mon_callback) TIMER_ONCE 2"

definition adding_act :: "nat \<Rightarrow> timer_manager \<Rightarrow> nat list \<Rightarrow> timer_manager \<times> nat list" where
  "adding_act a tm log =
     (case add_once (Suc (sum_list (cr_cbs (tm_registry tm)))) 2500000 tm of
        Some (tm', _) \<Rightarrow> (tm', log @ [a])
      | None \<Rightarrow> (tm, log @ [a]))"

lemma adding_act_late: "late_registrations ready_sys 2500000 adding_act"
proof -
  have "timer_env ready_sys a tm (fst (adding_act a tm e))
      \<and> (\<forall>t. Some t \<in> set (tm_timers (fst (adding_act a tm e))) \<longrightarrow> Some t \<in> set (tm_timers tm) \<or> 2500000 \<le> te_next t)"
    if wf: "timer_wf tm" for a tm and e :: "nat list"
  proof -
    let ?addr = "Suc (sum_list (cr_cbs (tm_registry tm)))"
    have fresh: "?addr \<notin> set (cr_cbs (tm_registry tm))" using member_le_sum_list [of ?addr "cr_cbs (tm_registry tm)"] by auto
    show ?thesis
    proof (cases "add_once ?addr 2500000 tm")
      case None
      then show ?thesis by (simp add: adding_act_def env_refl)
    next
      case (Some r)
      obtain tm' k' h where r: "r = (tm', k', h)" by (metis prod.exhaust)
      note add = Some [unfolded r add_once_def]
      have tm': "fst (adding_act a tm e) = tm'" using Some r by (simp add: adding_act_def)
      have "timer_env ready_sys a tm tm'"
        by (rule env_add [OF env_refl add fresh]) (simp_all add: is_int64_def)
      moreover have "Some t \<in> set (tm_timers tm) \<or> 2500000 \<le> te_next t" if "Some t \<in> set (tm_timers tm')" for t
      proof -
        note sound = timer_add_sound [OF wf fresh _ _ _ add]
        show ?thesis
        proof (cases h)
          case None
          then show ?thesis using sound(2) that by (simp add: is_int64_def)
        next
          case (Some i)
          have "t \<in> insert (new_timer tm ?addr 2500000 TIMER_ONCE 2) (set (map the (tm_timers tm)))"
            using sound(3) [OF _ _ _ Some] that by (auto simp: is_int64_def)
          moreover have "x \<noteq> None" if "x \<in> set (tm_timers tm)" for x using wf that by (auto simp: timer_wf_def)
          ultimately show ?thesis by (force simp: new_timer_def)
        qed
      qed
      ultimately show ?thesis unfolding tm' by blast
    qed
  qed
  then show ?thesis unfolding late_registrations_def by blast
qed

theorem timer_manager_type_witness:
  "\<exists>tm' k' tm'' tv. add_once 7 100 two_timers = Some (tm', k', Some 3) \<and> timer_wf tm'
     \<and> timer_check (\<lambda>e. (2500000, e)) adding_act two_timers [] = Some (tm'', [5, 6, 5], tv) \<and> timer_wf tm'' \<and> timeval_ok tv
     \<and> length (tm_timers tm'') = 4"
proof -
  have "map_option (\<lambda>r. snd (snd r)) (add_once 7 100 two_timers) = Some (Some 3)" by code_simp
  then obtain tm' k' where run: "add_once 7 100 two_timers = Some (tm', k', Some 3)" by auto
  have pre: "7 \<notin> set (cr_cbs (tm_registry two_timers))" "(7 :: nat) \<noteq> 0" "(0 :: int) \<le> 100" "is_int64 100"
    by (simp_all add: two_timers_def is_int64_def)
  have "timer_wf tm'"
    using timer_manager_type [OF two_timers_wf, THEN conjunct2, THEN conjunct2, THEN conjunct1, THEN mp,
        OF conjI [OF pre(1) conjI [OF pre(2) conjI [OF pre(3) conjI [OF pre(4) run [unfolded add_once_def]]]]]] by blast
  moreover have chk: "map_option (\<lambda>r. (fst (snd r), length (tm_timers (fst r))))
      (timer_check (\<lambda>e. (2500000, e)) adding_act two_timers []) = Some ([5, 6, 5], 4)" by code_simp
  have "\<forall>t \<in> the ` set (tm_timers two_timers). te_next t < 2500000 \<longrightarrow> 2500000 + period_ns t \<le> 9223372036854775807"
    by (simp add: two_timers_def period_ns_def)
  then have "\<exists>tm'' e' tv. timer_check (\<lambda>e. (2500000, e)) adding_act two_timers [] = Some (tm'', e', tv) \<and> timer_wf tm'' \<and> timeval_ok tv"
    using timer_manager_type [OF two_timers_wf, THEN conjunct2, THEN conjunct2, THEN conjunct2,
      of ready_sys 2500000 adding_act "\<lambda>e. (2500000, e)" "[]"] adding_act_late by simp
  then obtain tm'' e' tv where "timer_check (\<lambda>e. (2500000, e)) adding_act two_timers [] = Some (tm'', e', tv)" "timer_wf tm''" "timeval_ok tv"
    by blast
  ultimately show ?thesis using run chk by auto
qed

end
