(* ===== verification/Aio_Manager.thy ===== *)
theory Aio_Manager
  imports Timer_Manager
begin

text \<open>
  The file descriptors watched by the event loop (\<^verbatim>\<open>src/monitor/aio_manager.cpp\<close>). The list of
  \<^verbatim>\<open>unique_ptr\<close> to entries keeps null pointers as \<^term>\<open>None\<close>; a pointer to an entry is its
  identifier, a pointer to a callback its address, and following one whose entry has been
  destroyed has no result. \<^verbatim>\<open>select\<close> is the kernel's: while it waits, other threads may change the
  manager. An exception that leaves a function is no result either.
\<close>

section \<open>The manager\<close>

record aio_entry =
  ae_id :: u64
  ae_fd :: int
  ae_pending_remove :: bool
  ae_cb :: "nat option"

record aio_manager =
  am_registry :: callback_registry
  am_entries :: "aio_entry option list"
  am_next_id :: u64
  am_cleaned_up :: bool

definition new_aio_manager :: "callback_registry \<Rightarrow> aio_manager" where
  "new_aio_manager r = \<lparr>am_registry = r, am_entries = [], am_next_id = 1, am_cleaned_up = False\<rparr>"

definition FD_SETSIZE :: int where "FD_SETSIZE = 1024"

fun unregister_entries :: "callback_registry \<Rightarrow> aio_entry option list \<Rightarrow> callback_registry" where
  "unregister_entries r [] = r"
| "unregister_entries r (x # xs) =
     unregister_entries (case x of
                           Some x \<Rightarrow> (case ae_cb x of Some cb \<Rightarrow> registry_remove r cb | None \<Rightarrow> r)
                         | None \<Rightarrow> r) xs"

definition aio_cleanup :: "aio_manager \<Rightarrow> aio_manager" where
  "aio_cleanup am =
     (if am_cleaned_up am then am
      else am\<lparr>am_cleaned_up := True, am_entries := [], am_registry := unregister_entries (am_registry am) (am_entries am)\<rparr>)"

text \<open>\<open>addr\<close> is the address of the callback the call allocates.\<close>

definition aio_add ::
    "'k pipe_sys \<Rightarrow> (timer_site \<Rightarrow> bool) \<Rightarrow> nat \<Rightarrow> aio_manager \<Rightarrow> wake_pipe \<Rightarrow> 'k \<Rightarrow> int \<Rightarrow> 'e mon_callback
     \<Rightarrow> (aio_manager \<times> 'k \<times> u64 option) option" where
  "aio_add sys alloc addr am pipe k fd cb =
     (if fd < 0 \<or> fd \<ge> FD_SETSIZE then Some (am, k, None)
      else if wp_state pipe \<noteq> PIPE_READY then Some (am, k, None)
      else if mc_cb cb = None then Some (am, k, None)
      else if \<not> alloc Entry_Alloc then Some (am, k, None)
      else if am_cleaned_up am then Some (am, k, None)
      else if am_next_id am = 0 then Some (am, k, None)
      else if \<not> alloc Node_Alloc then Some (am, k, None)
      else
        let entry = \<lparr>ae_id = am_next_id am, ae_fd = fd, ae_pending_remove = False, ae_cb = Some addr\<rparr>;
            entries = Some entry # am_entries am
        in case registry_add (alloc Registry_Grow) (am_registry am) addr of
             None \<Rightarrow> Some (am\<lparr>am_entries := tl entries\<rparr>, k, None)
           | Some r \<Rightarrow>
               (case wakeup sys pipe k of
                  None \<Rightarrow> None
                | Some (st, k) \<Rightarrow>
                    if st \<noteq> PIPE_SUCCESSFUL
                    then Some (am\<lparr>am_entries := tl entries, am_registry := registry_remove r addr\<rparr>, k, None)
                    else Some (am\<lparr>am_entries := entries, am_registry := r, am_next_id := am_next_id am + 1\<rparr>, k,
                               Some (am_next_id am))))"

text \<open>The first entry with the identifier; the position is the length when there is none.\<close>

fun find_entry :: "u64 \<Rightarrow> aio_entry option list \<Rightarrow> nat" where
  "find_entry i [] = 0"
| "find_entry i (x # xs) = (if (case x of Some x \<Rightarrow> ae_id x = i | None \<Rightarrow> False) then 0 else Suc (find_entry i xs))"

definition aio_remove ::
    "'k pipe_sys \<Rightarrow> aio_manager \<Rightarrow> wake_pipe \<Rightarrow> 'k \<Rightarrow> u64 \<Rightarrow> (aio_manager \<times> 'k \<times> bool) option" where
  "aio_remove sys am pipe k handle =
     (if handle = 0 then Some (am, k, False)
      else if am_cleaned_up am then Some (am, k, False)
      else let pos = find_entry handle (am_entries am)
      in if pos = length (am_entries am) then Some (am, k, False)
      else case am_entries am ! pos of
        None \<Rightarrow> None
      | Some x \<Rightarrow>
          if ae_pending_remove x then Some (am, k, False)
          else (case wakeup sys pipe k of
                  None \<Rightarrow> None
                | Some (st, k) \<Rightarrow>
                    if st \<noteq> PIPE_SUCCESSFUL
                    then Some (am\<lparr>am_entries := (am_entries am)[pos := Some (x\<lparr>ae_pending_remove := False\<rparr>)]\<rparr>, k, False)
                    else Some (am\<lparr>am_entries := (am_entries am)[pos := Some (x\<lparr>ae_pending_remove := True\<rparr>)]\<rparr>, k, True)))"

section \<open>One round of the event loop\<close>

text \<open>
  The entries are gone through once: those to be removed are taken out, the others are armed.
  Setting a descriptor outside the set is undefined.
\<close>

fun arm_entries ::
    "aio_entry option list \<Rightarrow> (aio_entry option list \<times> aio_entry option list \<times> u64 list \<times> int list) option" where
  "arm_entries [] = Some ([], [], [], [])"
| "arm_entries (x # xs) =
     (case arm_entries xs of
        None \<Rightarrow> None
      | Some (kept, retired, armed, fds) \<Rightarrow>
          (case x of
             None \<Rightarrow> Some (kept, x # retired, armed, fds)
           | Some y \<Rightarrow>
               if ae_pending_remove y then Some (kept, x # retired, armed, fds)
               else if ae_fd y < 0 \<or> ae_fd y \<ge> FD_SETSIZE then None
               else Some (x # kept, retired, ae_id y # armed, ae_fd y # fds)))"

datatype select_result = SELECT_ERROR errno | SELECT_READY "int list"

text \<open>The object behind a pointer to an entry.\<close>

definition entry_at :: "u64 \<Rightarrow> aio_entry option list \<Rightarrow> aio_entry option" where
  "entry_at i xs = (let pos = find_entry i xs in if pos < length xs then xs ! pos else None)"

fun ready_callbacks :: "aio_entry option list \<Rightarrow> int list \<Rightarrow> u64 list \<Rightarrow> nat list option" where
  "ready_callbacks entries ready [] = Some []"
| "ready_callbacks entries ready (i # armed) =
     (case entry_at i entries of
        None \<Rightarrow> None
      | Some x \<Rightarrow>
          (case ready_callbacks entries ready armed of
             None \<Rightarrow> None
           | Some cbs \<Rightarrow>
               (case ae_cb x of
                  None \<Rightarrow> Some cbs
                | Some cb \<Rightarrow>
                    if ae_pending_remove x then Some cbs
                    else if ae_fd x \<in> set ready then Some (cb # cbs) else Some cbs)))"

text \<open>The callback at an address exists as long as the entry that owns it.\<close>

definition callback_alive :: "aio_manager \<Rightarrow> nat \<Rightarrow> bool" where
  "callback_alive am cb \<longleftrightarrow> list_ex (\<lambda>x. case x of Some y \<Rightarrow> ae_cb y = Some cb | None \<Rightarrow> False) (am_entries am)"

fun activate_ready ::
    "(nat \<Rightarrow> aio_manager \<Rightarrow> 'k \<Rightarrow> aio_manager \<times> 'k) \<Rightarrow> nat list \<Rightarrow> aio_manager \<Rightarrow> 'k \<Rightarrow> (aio_manager \<times> 'k) option" where
  "activate_ready act [] am k = Some (am, k)"
| "activate_ready act (cb # cbs) am k =
     (if cb = 0 then activate_ready act cbs am k
      else if \<not> callback_alive am cb then None
      else let (am, k) = act cb am k in activate_ready act cbs am k)"

text \<open>
  \<open>wait\<close> is the call of \<^verbatim>\<open>select\<close> on the armed descriptors with what other threads do to the manager
  meanwhile; \<open>act\<close> is the activation of a callback, likewise; \<open>alloc\<close> tells whether each of the
  two reservations of memory succeeds. No timeout is the null pointer, which lets \<^verbatim>\<open>select\<close> wait for ever.
\<close>

definition aio_process ::
    "(bool \<Rightarrow> bool) \<Rightarrow> (timeval option \<Rightarrow> int list \<Rightarrow> aio_manager \<Rightarrow> 'k \<Rightarrow> select_result \<times> aio_manager \<times> 'k)
     \<Rightarrow> (nat \<Rightarrow> aio_manager \<Rightarrow> 'k \<Rightarrow> aio_manager \<times> 'k) \<Rightarrow> timeval option \<Rightarrow> aio_manager \<Rightarrow> 'k \<Rightarrow> (aio_manager \<times> 'k \<times> int) option" where
  "aio_process alloc wait act timeout am k =
     (if am_cleaned_up am then Some (am, k, 0)
      else if \<not> alloc False then None
      else case arm_entries (am_entries am) of
        None \<Rightarrow> None
      | Some (kept, retired, armed, fds) \<Rightarrow>
          let am = am\<lparr>am_entries := kept, am_registry := unregister_entries (am_registry am) retired\<rparr>
          in case wait timeout fds am k of
               (SELECT_ERROR e, am, k) \<Rightarrow> Some (am, k, if e = EINTR then 0 else -1)
             | (SELECT_READY ready, am, k) \<Rightarrow>
                 if ready = [] then Some (am, k, 0)
                 else if \<not> alloc True then Some (am, k, -1)
                 else case ready_callbacks (am_entries am) ready armed of
                        None \<Rightarrow> None
                      | Some cbs \<Rightarrow>
                          (case activate_ready act cbs am k of
                             None \<Rightarrow> None
                           | Some (am, k) \<Rightarrow> Some (am, k, 0)))"

section \<open>Well-formed managers\<close>

definition aio_entry_ok :: "u64 \<Rightarrow> nat set \<Rightarrow> aio_entry \<Rightarrow> bool" where
  "aio_entry_ok next_id registered x \<longleftrightarrow>
     ae_id x \<noteq> 0 \<and> (next_id = 0 \<or> ae_id x < next_id) \<and> 0 \<le> ae_fd x \<and> ae_fd x < FD_SETSIZE
     \<and> (\<exists>cb. ae_cb x = Some cb \<and> cb \<noteq> 0 \<and> cb \<in> registered)"

definition entries_ok :: "u64 \<Rightarrow> nat set \<Rightarrow> aio_entry list \<Rightarrow> bool" where
  "entries_ok next_id registered es \<longleftrightarrow>
     distinct (map ae_id es) \<and> distinct (map ae_cb es) \<and> (\<forall>x \<in> set es. aio_entry_ok next_id registered x)"

definition aio_wf :: "aio_manager \<Rightarrow> bool" where
  "aio_wf am \<longleftrightarrow>
     (\<exists>es. am_entries am = map Some es \<and> entries_ok (am_next_id am) (set (cr_cbs (am_registry am))) es)"

lemma aio_wf_new: "aio_wf (new_aio_manager r)"
  by (simp add: aio_wf_def new_aio_manager_def entries_ok_def)

lemma aio_wf_cleanup: "aio_wf am \<Longrightarrow> aio_wf (aio_cleanup am)"
  by (auto simp: aio_wf_def aio_cleanup_def entries_ok_def)

lemma aio_entry_ok_Suc: "aio_entry_ok n R x \<Longrightarrow> n \<noteq> 0 \<Longrightarrow> R \<subseteq> R' \<Longrightarrow> aio_entry_ok (n + 1) R' x"
  using word_less_Suc [OF order.strict_implies_order, of "ae_id x" n] unfolding aio_entry_ok_def by blast

text \<open>Entries are never taken away by other threads, only marked.\<close>

definition keeps_entries :: "aio_manager \<Rightarrow> aio_manager \<Rightarrow> bool" where
  "keeps_entries am am' \<longleftrightarrow>
     (\<forall>x. Some x \<in> set (am_entries am) \<longrightarrow> (\<exists>p. Some (x\<lparr>ae_pending_remove := p\<rparr>) \<in> set (am_entries am')))"

lemma keeps_entries_refl: "keeps_entries am am"
  unfolding keeps_entries_def
proof (intro allI impI)
  fix x assume "Some x \<in> set (am_entries am)"
  then have "Some (x\<lparr>ae_pending_remove := ae_pending_remove x\<rparr>) \<in> set (am_entries am)" by simp
  then show "\<exists>p. Some (x\<lparr>ae_pending_remove := p\<rparr>) \<in> set (am_entries am)" ..
qed

lemma keeps_entries_trans: "keeps_entries am am1 \<Longrightarrow> keeps_entries am1 am2 \<Longrightarrow> keeps_entries am am2"
  unfolding keeps_entries_def by fastforce

lemma find_entry_map:
  "distinct (map ae_id es) \<Longrightarrow> i < length es \<Longrightarrow> find_entry (ae_id (es ! i)) (map Some es) = i"
proof (induction es arbitrary: i)
  case (Cons x es)
  then show ?case by (cases i) (auto simp: nth_mem)
qed simp

lemma find_entry_bound: "find_entry i xs \<le> length xs"
  by (induction xs) auto

lemma entry_at_mem:
  assumes "entries_ok n R es" and "x \<in> set es"
  shows "entry_at (ae_id x) (map Some es) = Some x"
proof -
  obtain i where "i < length es" "x = es ! i" using assms(2) by (auto simp: in_set_conv_nth)
  with assms(1) show ?thesis by (simp add: entry_at_def entries_ok_def find_entry_map)
qed

lemma find_entry_found:
  "find_entry i (map Some es) < length es \<Longrightarrow> ae_id (es ! find_entry i (map Some es)) = i"
  by (induction es) auto

lemma entries_ok_mark:
  assumes "entries_ok n R es" and "i < length es"
  shows "entries_ok n R (es[i := (es ! i)\<lparr>ae_pending_remove := p\<rparr>])"
proof -
  let ?es = "es[i := (es ! i)\<lparr>ae_pending_remove := p\<rparr>]"
  have "map ae_id ?es = map ae_id es" "map ae_cb ?es = map ae_cb es"
    using assms(2) by (simp_all add: map_update list_update_same_conv)
  moreover have "aio_entry_ok n R ((es ! i)\<lparr>ae_pending_remove := p\<rparr>)"
    using assms by (auto simp: entries_ok_def aio_entry_ok_def dest: nth_mem)
  then have "\<forall>x \<in> set ?es. aio_entry_ok n R x"
    using assms(1) by (auto simp: entries_ok_def dest!: set_update_subset_insert [THEN subsetD])
  ultimately show ?thesis using assms(1) by (simp add: entries_ok_def)
qed

lemma keeps_entries_mark:
  assumes "am_entries am = map Some es" and "i < length es" and "am_entries am' = map Some (es[i := (es ! i)\<lparr>ae_pending_remove := p\<rparr>])"
  shows "keeps_entries am am'"
  unfolding keeps_entries_def
proof (intro allI impI)
  fix x assume "Some x \<in> set (am_entries am)"
  then obtain j where j: "j < length es" "x = es ! j" using assms(1) by (auto simp: in_set_conv_nth)
  show "\<exists>q. Some (x\<lparr>ae_pending_remove := q\<rparr>) \<in> set (am_entries am')"
  proof (cases "j = i")
    case True
    then have "x\<lparr>ae_pending_remove := p\<rparr> \<in> set (es[i := (es ! i)\<lparr>ae_pending_remove := p\<rparr>])"
      using j assms(2) by (auto intro: set_update_memI)
    then show ?thesis unfolding assms(3) by auto
  next
    case False
    then have "(es[i := (es ! i)\<lparr>ae_pending_remove := p\<rparr>]) ! j = x\<lparr>ae_pending_remove := ae_pending_remove x\<rparr>" using j by simp
    moreover have "j < length (es[i := (es ! i)\<lparr>ae_pending_remove := p\<rparr>])" using j by simp
    ultimately have "x\<lparr>ae_pending_remove := ae_pending_remove x\<rparr> \<in> set (es[i := (es ! i)\<lparr>ae_pending_remove := p\<rparr>])"
      by (metis nth_mem)
    then have "Some (x\<lparr>ae_pending_remove := ae_pending_remove x\<rparr>) \<in> set (am_entries am')" unfolding assms(3) by simp
    then show ?thesis ..
  qed
qed

lemma aio_add_sound:
  assumes wf: "aio_wf am" and fresh: "addr \<notin> set (cr_cbs (am_registry am))" "addr \<noteq> 0"
    and add: "aio_add sys alloc addr am pipe k fd cb = Some (am', k', h)"
  shows "aio_wf am' \<and> keeps_entries am am' \<and> (h = None \<longrightarrow> am' = am)
    \<and> (\<forall>i. h = Some i \<longrightarrow> am_entries am' = Some \<lparr>ae_id = i, ae_fd = fd, ae_pending_remove = False, ae_cb = Some addr\<rparr> # am_entries am)"
proof -
  let ?x = "\<lparr>ae_id = am_next_id am, ae_fd = fd, ae_pending_remove = False, ae_cb = Some addr\<rparr>"
  consider "am' = am" "h = None" | r where "registry_add (alloc Registry_Grow) (am_registry am) addr = Some r"
      "am' = am\<lparr>am_registry := registry_remove r addr\<rparr>" "h = None"
    | r where "registry_add (alloc Registry_Grow) (am_registry am) addr = Some r" "0 \<le> fd" "fd < FD_SETSIZE"
      "am_next_id am \<noteq> 0" "h = Some (am_next_id am)"
      "am' = am\<lparr>am_entries := Some ?x # am_entries am, am_registry := r, am_next_id := am_next_id am + 1\<rparr>"
  proof (cases "fd < 0 \<or> fd \<ge> FD_SETSIZE \<or> wp_state pipe \<noteq> PIPE_READY \<or> mc_cb cb = None \<or> \<not> alloc Entry_Alloc
      \<or> am_cleaned_up am \<or> am_next_id am = 0 \<or> \<not> alloc Node_Alloc")
    case True
    then have "aio_add sys alloc addr am pipe k fd cb = Some (am, k, None)" unfolding aio_add_def by presburger
    with add that(1) show ?thesis by simp
  next
    case False
    then have eq: "aio_add sys alloc addr am pipe k fd cb =
        (case registry_add (alloc Registry_Grow) (am_registry am) addr of
           None \<Rightarrow> Some (am\<lparr>am_entries := am_entries am\<rparr>, k, None)
         | Some r \<Rightarrow>
             (case wakeup sys pipe k of
                None \<Rightarrow> None
              | Some (st, k) \<Rightarrow>
                  if st \<noteq> PIPE_SUCCESSFUL
                  then Some (am\<lparr>am_entries := am_entries am, am_registry := registry_remove r addr\<rparr>, k, None)
                  else Some (am\<lparr>am_entries := Some ?x # am_entries am, am_registry := r, am_next_id := am_next_id am + 1\<rparr>, k,
                             Some (am_next_id am))))"
      unfolding aio_add_def Let_def list.sel by presburger
    show ?thesis
    proof (cases "registry_add (alloc Registry_Grow) (am_registry am) addr")
      case None
      with add eq that(1) show ?thesis by simp
    next
      case (Some r)
      with add eq obtain st k1 where "wakeup sys pipe k = Some (st, k1)" by (auto split: option.split_asm)
      with add eq Some that(2) [OF Some] that(3) [OF Some] False show ?thesis by (cases "st = PIPE_SUCCESSFUL") auto
    qed
  qed
  then show ?thesis
  proof cases
    case 1
    with wf show ?thesis by (simp add: keeps_entries_refl)
  next
    case 2
    with registry_add_remove [OF 2(1) fresh(1)] wf show ?thesis by (simp add: keeps_entries_refl)
  next
    case 3
    obtain es where es: "am_entries am = map Some es" "entries_ok (am_next_id am) (set (cr_cbs (am_registry am))) es"
      using wf by (auto simp: aio_wf_def)
    have R: "set (cr_cbs r) = insert addr (set (cr_cbs (am_registry am)))" by (rule registry_add_set [OF 3(1) fresh(2)])
    have "ae_id x \<noteq> am_next_id am \<and> ae_cb x \<noteq> Some addr \<and> aio_entry_ok (am_next_id am + 1) (set (cr_cbs r)) x" if "x \<in> set es" for x
    proof -
      have x: "aio_entry_ok (am_next_id am) (set (cr_cbs (am_registry am))) x" using es(2) that by (simp add: entries_ok_def)
      then show ?thesis using aio_entry_ok_Suc [OF x 3(4), of "set (cr_cbs r)"] R 3(4) fresh by (auto simp: aio_entry_ok_def)
    qed
    moreover have "aio_entry_ok (am_next_id am + 1) (set (cr_cbs r)) ?x"
      using 3 fresh(2) R word_less_Suc [of "am_next_id am" "am_next_id am"] by (auto simp: aio_entry_ok_def)
    ultimately have "entries_ok (am_next_id am + 1) (set (cr_cbs r)) (?x # es)"
      using es(2) by (force simp: entries_ok_def)
    then have "aio_wf am'" unfolding aio_wf_def 3(6) using es(1) by (intro exI [of _ "?x # es"]) simp
    moreover have "keeps_entries am am'"
      using keeps_entries_refl [of am] by (auto simp: keeps_entries_def 3(6))
    ultimately show ?thesis using 3 by simp
  qed
qed

lemma aio_remove_sound:
  assumes wf: "aio_wf am" and rem: "aio_remove sys am pipe k h = Some (am', k', ok)"
  shows "aio_wf am' \<and> keeps_entries am am' \<and> (\<not> ok \<longrightarrow> am' = am)"
proof -
  obtain es where es: "am_entries am = map Some es" "entries_ok (am_next_id am) (set (cr_cbs (am_registry am))) es"
    using wf by (auto simp: aio_wf_def)
  let ?i = "find_entry h (am_entries am)"
  show ?thesis
  proof (cases "am' = am")
    case True
    then show ?thesis using wf keeps_entries_refl by simp
  next
    case False
    have i: "?i < length es \<or> ?i = length es" using find_entry_bound [of h "am_entries am"] es(1) by auto
    have "am'\<lparr>am_entries := am_entries am\<rparr> = am \<and> am_entries am' = map Some (es[?i := (es ! ?i)\<lparr>ae_pending_remove := ok\<rparr>])
        \<and> ?i < length es \<and> \<not> ae_pending_remove (es ! ?i)"
      using rem False i es(1) by (auto simp: aio_remove_def Let_def map_update split: if_split_asm option.split_asm)
    then have eq: "am_next_id am' = am_next_id am" "am_registry am' = am_registry am" "?i < length es" "\<not> ae_pending_remove (es ! ?i)"
      "am_entries am' = map Some (es[?i := (es ! ?i)\<lparr>ae_pending_remove := ok\<rparr>])" "am'\<lparr>am_entries := am_entries am\<rparr> = am"
      by (auto dest: arg_cong [of _ _ am_next_id] arg_cong [of _ _ am_registry])
    have "am' = am" if "\<not> ok"
    proof -
      have "(es ! ?i)\<lparr>ae_pending_remove := ok\<rparr> = es ! ?i" using eq(4) that by simp
      then have "am_entries am' = am_entries am" using eq(5) es(1) by simp
      then have "am'\<lparr>am_entries := am_entries am\<rparr> = am'" by simp
      with eq(6) show ?thesis by simp
    qed
    moreover have "aio_wf am'" unfolding aio_wf_def eq(1,2,5) using entries_ok_mark [OF es(2) eq(3)] by blast
    ultimately show ?thesis using keeps_entries_mark [OF es(1) eq(3,5)] by simp
  qed
qed

lemma callback_alive_iff: "callback_alive am cb \<longleftrightarrow> (\<exists>x. Some x \<in> set (am_entries am) \<and> ae_cb x = Some cb)"
  by (force simp: callback_alive_def list_ex_iff split: option.split_asm)

text \<open>
  What other threads, and callbacks, may do to the manager outside its lock: register and
  remove descriptors, and add to or remove from the registry what belongs to others.
\<close>

inductive aio_env :: "'k pipe_sys \<Rightarrow> aio_manager \<Rightarrow> aio_manager \<Rightarrow> bool" for sys :: "'k pipe_sys" where
  aio_refl: "aio_env sys am am"
| aio_add: "aio_env sys am am1 \<Longrightarrow> aio_add sys alloc addr am1 pipe k fd (cb :: 'k mon_callback) = Some (am2, k', h) \<Longrightarrow>
     addr \<notin> set (cr_cbs (am_registry am1)) \<Longrightarrow> addr \<noteq> 0 \<Longrightarrow> aio_env sys am am2"
| aio_remove: "aio_env sys am am1 \<Longrightarrow> aio_remove sys am1 pipe k h = Some (am2, k', ok) \<Longrightarrow> aio_env sys am am2"
| aio_registry: "aio_env sys am am1 \<Longrightarrow> {cb. callback_alive am1 cb} \<subseteq> set (cr_cbs r) \<Longrightarrow> aio_env sys am (am1\<lparr>am_registry := r\<rparr>)"

lemma aio_env_sound: "aio_env sys am am' \<Longrightarrow> aio_wf am \<Longrightarrow> aio_wf am' \<and> keeps_entries am am'"
proof (induction rule: aio_env.induct)
  case (aio_refl am)
  then show ?case by (simp add: keeps_entries_refl)
next
  case (aio_add am am1 alloc addr pipe k fd cb am2 k' h)
  then show ?case using aio_add_sound [OF _ aio_add(3,4,2)] keeps_entries_trans by blast
next
  case (aio_remove am am1 pipe k h am2 k' ok)
  then show ?case using aio_remove_sound [OF _ aio_remove(2)] keeps_entries_trans by blast
next
  case (aio_registry am am1 r)
  then obtain es where es: "am_entries am1 = map Some es" "entries_ok (am_next_id am1) (set (cr_cbs (am_registry am1))) es"
    by (auto simp: aio_wf_def)
  have "aio_entry_ok (am_next_id am1) (set (cr_cbs r)) x" if x: "x \<in> set es" for x
  proof -
    have ok: "aio_entry_ok (am_next_id am1) (set (cr_cbs (am_registry am1))) x" using es(2) x by (simp add: entries_ok_def)
    then obtain cb where cb: "ae_cb x = Some cb" by (auto simp: aio_entry_ok_def)
    then have "callback_alive am1 cb" using es(1) x by (auto simp: callback_alive_iff)
    then show ?thesis using ok cb aio_registry(2) by (auto simp: aio_entry_ok_def)
  qed
  with es have "aio_wf (am1\<lparr>am_registry := r\<rparr>)" by (auto simp: aio_wf_def entries_ok_def)
  moreover have "keeps_entries am (am1\<lparr>am_registry := r\<rparr>)" using aio_registry by (simp add: keeps_entries_def)
  ultimately show ?case by blast
qed

section \<open>A round\<close>

lemma arm_entries_map:
  assumes "\<forall>x \<in> set es. 0 \<le> ae_fd x \<and> ae_fd x < FD_SETSIZE"
  shows "arm_entries (map Some es) =
    (let kept = filter (\<lambda>x. \<not> ae_pending_remove x) es
     in Some (map Some kept, map Some (filter ae_pending_remove es), map ae_id kept, map ae_fd kept))"
  using assms by (induction es) (auto simp: Let_def)

lemma set_unregister_entries:
  "(\<forall>x \<in> set es. ae_cb x \<noteq> Some 0 \<and> ae_cb x \<noteq> None) \<Longrightarrow>
     set (cr_cbs (unregister_entries r (map Some es))) = set (cr_cbs r) - {cb. Some cb \<in> ae_cb ` set es}"
  by (induction es arbitrary: r) auto

lemma entries_ok_retire:
  assumes "entries_ok n (set (cr_cbs r)) es"
  shows "entries_ok n (set (cr_cbs (unregister_entries r (map Some (filter ae_pending_remove es)))))
    (filter (\<lambda>x. \<not> ae_pending_remove x) es)"
proof -
  let ?gone = "filter ae_pending_remove es"
  have "\<forall>x \<in> set ?gone. ae_cb x \<noteq> Some 0 \<and> ae_cb x \<noteq> None"
    using assms by (auto simp: entries_ok_def aio_entry_ok_def)
  then have R: "set (cr_cbs (unregister_entries r (map Some ?gone))) = set (cr_cbs r) - {cb. Some cb \<in> ae_cb ` set ?gone}"
    by (rule set_unregister_entries)
  have "aio_entry_ok n (set (cr_cbs r) - {cb. Some cb \<in> ae_cb ` set ?gone}) x"
    if x: "x \<in> set es" "\<not> ae_pending_remove x" for x
  proof -
    have "inj_on ae_cb (set es)" using assms by (simp add: entries_ok_def distinct_map)
    then have "ae_cb x \<notin> ae_cb ` set ?gone" using x by (auto dest: inj_onD)
    then show ?thesis using assms x by (auto simp: entries_ok_def aio_entry_ok_def)
  qed
  then show ?thesis using assms unfolding R by (auto simp: entries_ok_def distinct_map_filter)
qed

lemma ready_callbacks_alive:
  assumes wf: "aio_wf am" and armed: "\<forall>i \<in> set armed. \<exists>x. Some x \<in> set (am_entries am) \<and> ae_id x = i"
  shows "\<exists>cbs. ready_callbacks (am_entries am) ready armed = Some cbs \<and> (\<forall>cb \<in> set cbs. callback_alive am cb)"
  using armed
proof (induction armed)
  case (Cons i armed)
  obtain es where es: "am_entries am = map Some es" "entries_ok (am_next_id am) (set (cr_cbs (am_registry am))) es"
    using wf by (auto simp: aio_wf_def)
  obtain x where x: "x \<in> set es" "ae_id x = i" using Cons(2) es(1) by auto
  have at: "entry_at i (am_entries am) = Some x" using entry_at_mem [OF es(2) x(1)] x(2) es(1) by simp
  obtain cb where cb: "ae_cb x = Some cb" using es(2) x(1) unfolding entries_ok_def aio_entry_ok_def by blast
  have "callback_alive am cb" using x(1) cb es(1) by (auto simp: callback_alive_iff)
  with Cons at cb show ?case by auto
qed simp

lemma callback_alive_keeps: "keeps_entries am am' \<Longrightarrow> callback_alive am cb \<Longrightarrow> callback_alive am' cb"
proof -
  assume k: "keeps_entries am am'" "callback_alive am cb"
  then obtain x where x: "Some x \<in> set (am_entries am)" "ae_cb x = Some cb" by (auto simp: callback_alive_iff)
  then obtain p where "Some (x\<lparr>ae_pending_remove := p\<rparr>) \<in> set (am_entries am')" using k(1) by (auto simp: keeps_entries_def)
  moreover have "ae_cb (x\<lparr>ae_pending_remove := p\<rparr>) = Some cb" using x(2) by simp
  ultimately show ?thesis unfolding callback_alive_iff by blast
qed

lemma activate_ready_safe:
  assumes env: "\<And>cb am k. aio_env sys am (fst (act cb am k))"
  shows "aio_wf am \<Longrightarrow> \<forall>cb \<in> set cbs. callback_alive am cb \<Longrightarrow>
    \<exists>am' k'. activate_ready act cbs am k = Some (am', k') \<and> aio_wf am' \<and> keeps_entries am am'"
proof (induction cbs arbitrary: am k)
  case Nil
  then show ?case by (simp add: keeps_entries_refl)
next
  case (Cons cb cbs)
  obtain am1 k1 where act: "act cb am k = (am1, k1)" by force
  then have am1: "aio_wf am1" "keeps_entries am am1" using aio_env_sound [OF env [of am cb k]] Cons(2) by auto
  then have alive: "\<forall>cb \<in> set cbs. callback_alive am1 cb" using Cons(3) callback_alive_keeps by auto
  have "\<forall>cb \<in> set cbs. callback_alive am cb" using Cons(3) by simp
  from Cons(1) [OF Cons(2) this, of k] Cons(1) [OF am1(1) alive, of k1] Cons(3) act keeps_entries_trans [OF am1(2)]
  show ?case by auto
qed

section \<open>Properties\<close>

text \<open>
  C38. The event loop never touches a destroyed entry or callback. Whatever other threads register
  and remove while the loop waits, and whatever the callbacks of the same round register and
  remove, a round (given its first reservation of memory) runs to the end: every armed entry it
  looks at again still exists and every callback it activates is still owned by an entry. The
  manager stays well formed: entries with distinct non-zero handles and descriptors within the
  set, and every callback registered. Entries not marked for removal are kept.
\<close>

theorem aio_round_safe:
  assumes "aio_wf am" and "alloc False"
    and "\<forall>timeout fds am k. aio_env sys am (fst (snd (wait timeout fds am k)))"
    and "\<forall>cb am k. aio_env sys am (fst (act cb am k))"
  shows "\<exists>am' k' r. aio_process alloc wait act timeout am k = Some (am', k', r) \<and> aio_wf am' \<and> r \<in> {0, -1} \<and>
    (\<forall>x. Some x \<in> set (am_entries am) \<and> \<not> ae_pending_remove x \<longrightarrow>
       (\<exists>p. Some (x\<lparr>ae_pending_remove := p\<rparr>) \<in> set (am_entries am')))"
proof -
  obtain es where es: "am_entries am = map Some es" "entries_ok (am_next_id am) (set (cr_cbs (am_registry am))) es"
    using assms(1) by (auto simp: aio_wf_def)
  let ?kept = "filter (\<lambda>x. \<not> ae_pending_remove x) es"
  let ?am = "am\<lparr>am_entries := map Some ?kept,
      am_registry := unregister_entries (am_registry am) (map Some (filter ae_pending_remove es))\<rparr>"
  have keep: "\<exists>p. Some (x\<lparr>ae_pending_remove := p\<rparr>) \<in> set (am_entries am')"
    if "keeps_entries ?am am'" "Some x \<in> set (am_entries am)" "\<not> ae_pending_remove x" for x am'
    using that es(1) by (auto simp: keeps_entries_def)
  show ?thesis
  proof (cases "am_cleaned_up am")
    case True
    then have "aio_process alloc wait act timeout am k = Some (am, k, 0)" by (simp add: aio_process_def)
    with assms(1) keeps_entries_refl [of am] show ?thesis by (auto simp: keeps_entries_def)
  next
    case False
    have arm: "arm_entries (am_entries am) =
        Some (map Some ?kept, map Some (filter ae_pending_remove es), map ae_id ?kept, map ae_fd ?kept)"
      unfolding es(1) by (subst arm_entries_map) (use es(2) in \<open>auto simp: entries_ok_def aio_entry_ok_def Let_def\<close>)
    have wf: "aio_wf ?am" using entries_ok_retire [OF es(2)] by (auto simp: aio_wf_def)
    obtain s am1 k1 where wait: "wait timeout (map ae_fd ?kept) ?am k = (s, am1, k1)" by (metis prod.exhaust)
    have am1: "aio_wf am1" "keeps_entries ?am am1"
      using aio_env_sound [OF assms(3) [rule_format, of ?am timeout "map ae_fd ?kept" k] wf] wait by simp_all
    have armed: "\<forall>i \<in> set (map ae_id ?kept). \<exists>x. Some x \<in> set (am_entries am1) \<and> ae_id x = i"
    proof
      fix i assume "i \<in> set (map ae_id ?kept)"
      then obtain x where "x \<in> set ?kept" "i = ae_id x" by auto
      moreover from this(1) obtain p where "Some (x\<lparr>ae_pending_remove := p\<rparr>) \<in> set (am_entries am1)"
        using am1(2) by (auto simp: keeps_entries_def)
      ultimately show "\<exists>x. Some x \<in> set (am_entries am1) \<and> ae_id x = i" by (intro exI [of _ "x\<lparr>ae_pending_remove := p\<rparr>"]) simp
    qed
    have go: "aio_process alloc wait act timeout am k =
        (case (s, am1, k1) of
           (SELECT_ERROR e, am, k) \<Rightarrow> Some (am, k, if e = EINTR then 0 else -1)
         | (SELECT_READY ready, am, k) \<Rightarrow>
             if ready = [] then Some (am, k, 0)
             else if \<not> alloc True then Some (am, k, -1)
             else case ready_callbacks (am_entries am) ready (map ae_id ?kept) of
                    None \<Rightarrow> None
                  | Some cbs \<Rightarrow> (case activate_ready act cbs am k of None \<Rightarrow> None | Some (am, k) \<Rightarrow> Some (am, k, 0)))"
      using False assms(2) wait unfolding aio_process_def arm by (simp add: Let_def)
    show ?thesis
    proof (cases s)
      case (SELECT_ERROR e)
      with go am1 keep [OF am1(2)] show ?thesis by auto
    next
      case (SELECT_READY ready)
      obtain cbs where cbs: "ready_callbacks (am_entries am1) ready (map ae_id ?kept) = Some cbs"
          "\<forall>cb \<in> set cbs. callback_alive am1 cb"
        using ready_callbacks_alive [OF am1(1) armed] by blast
      obtain am2 k2 where am2: "activate_ready act cbs am1 k1 = Some (am2, k2)" "aio_wf am2" "keeps_entries am1 am2"
        using activate_ready_safe [of sys act, OF _ am1(1) cbs(2), of k1] assms(4) by blast
      show ?thesis
        using go SELECT_READY cbs(1) am2 am1 keep [OF am1(2)] keep [OF keeps_entries_trans [OF am1(2) am2(3)]]
        by (cases "ready = []"; cases "alloc True") auto
    qed
  qed
qed

definition watched_descriptor :: aio_manager where
  "watched_descriptor =
     \<lparr>am_registry = \<lparr>cr_cbs = [5]\<rparr>,
      am_entries = [Some \<lparr>ae_id = 1, ae_fd = 3, ae_pending_remove = False, ae_cb = Some 5\<rparr>],
      am_next_id = 2, am_cleaned_up = False\<rparr>"

theorem aio_round_safe_witness:
  "\<exists>am' r. aio_process (\<lambda>_. True) (\<lambda>_ fds am k. (SELECT_READY fds, am, k)) (\<lambda>cb am k. (am, k @ [cb]))
      (Some \<lparr>tv_sec = 1, tv_usec = 0\<rparr>) watched_descriptor [] = Some (am', [5], r) \<and> aio_wf am'"
proof -
  let ?wait = "\<lambda>(_ :: timeval option) (fds :: int list) (am :: aio_manager) (k :: nat list). (SELECT_READY fds, am, k)"
  let ?act = "\<lambda>cb (am :: aio_manager) (k :: nat list). (am, k @ [cb])"
  let ?run = "aio_process (\<lambda>_. True) ?wait ?act (Some \<lparr>tv_sec = 1, tv_usec = 0\<rparr>) watched_descriptor []"
  have wf: "aio_wf watched_descriptor"
    by (auto simp: aio_wf_def watched_descriptor_def entries_ok_def aio_entry_ok_def FD_SETSIZE_def Cons_eq_map_conv)
  have "map_option (\<lambda>r. fst (snd r)) ?run = Some [5]" by code_simp
  moreover have "\<exists>am' k' r. ?run = Some (am', k', r) \<and> aio_wf am' \<and> r \<in> {0, -1} \<and>
    (\<forall>x. Some x \<in> set (am_entries watched_descriptor) \<and> \<not> ae_pending_remove x \<longrightarrow>
       (\<exists>p. Some (x\<lparr>ae_pending_remove := p\<rparr>) \<in> set (am_entries am')))"
    by (rule aio_round_safe [OF wf]) (auto intro: aio_env.aio_refl)
  ultimately show ?thesis by auto
qed

end
