(* ===== verification/Monitor_Data.thy ===== *)
theory Monitor_Data
  imports TLSS_Prelude
begin

text \<open>
  The data model of the monitoring subsystem, \<^verbatim>\<open>inc/monitor/monitor_data.h\<close> and
  \<^verbatim>\<open>inc/monitor/monitor_error.h\<close>: the four-field record key with its
  lexicographic order, the two-armed value, stored records and update results.
  \<^verbatim>\<open>MonitorTimestamp\<close> is the signed 64-bit nanosecond count of the system clock,
  an \<^typ>\<open>int\<close> within \<^const>\<open>is_int64\<close>.
\<close>

datatype monitor_key = MonitorKey (key_mid: u32) (key_level: u32) (key_fid: u32) (key_eid: u32)

record monitor_filter =
  flt_module_id :: "u32 option"
  flt_level :: "u32 option"
  flt_function_id :: "u32 option"
  flt_event_id :: "u32 option"

record numeric_value =
  num_value :: u32
  num_state :: u32

text \<open>
  \<^verbatim>\<open>std::variant<NumericValue, std::string>\<close>; \<open>Valueless\<close> is the state of a variant
  that lost its value to an exception (\<^verbatim>\<open>valueless_by_exception\<close>).
\<close>

datatype monitor_value = VNumeric numeric_value | VString string | Valueless

record monitor_data =
  md_key :: monitor_key
  md_description :: string
  md_value :: monitor_value

record stored_record =
  sr_data :: monitor_data
  sr_changed_at :: int

datatype update_status =
  INSERTED | UPDATED | UNCHANGED | IGNORED_INITIAL_ZERO | INVALID | DURABILITY_FAILED

record update_result =
  upd_status :: update_status
  upd_record :: "stored_record option"

definition update_changed :: "update_result \<Rightarrow> bool" where
  "update_changed r \<longleftrightarrow> upd_status r = INSERTED \<or> upd_status r = UPDATED"

section \<open>Key order\<close>

text \<open>
  \<^verbatim>\<open>std::tie(...) < std::tie(...)\<close>: module, level, function, event. The instance
  makes the library's sorting and ordered-list facts available for keys.
\<close>

fun key_less :: "monitor_key \<Rightarrow> monitor_key \<Rightarrow> bool" where
  "key_less (MonitorKey m l f e) (MonitorKey m' l' f' e') \<longleftrightarrow>
     m < m' \<or> m = m' \<and> (l < l' \<or> l = l' \<and> (f < f' \<or> f = f' \<and> e < e'))"

instantiation monitor_key :: linorder
begin

definition less_monitor_key :: "monitor_key \<Rightarrow> monitor_key \<Rightarrow> bool" where
  "less_monitor_key = key_less"

definition less_eq_monitor_key :: "monitor_key \<Rightarrow> monitor_key \<Rightarrow> bool" where
  "less_eq_monitor_key a b \<longleftrightarrow> key_less a b \<or> a = b"

instance
proof
  fix x y z :: monitor_key
  show "x < y \<longleftrightarrow> x \<le> y \<and> \<not> y \<le> x"
    by (cases x; cases y) (auto simp: less_monitor_key_def less_eq_monitor_key_def)
  show "x \<le> x"
    by (simp add: less_eq_monitor_key_def)
  show "x \<le> y \<Longrightarrow> y \<le> z \<Longrightarrow> x \<le> z"
    by (cases x; cases y; cases z) (auto simp: less_eq_monitor_key_def)
  show "x \<le> y \<Longrightarrow> y \<le> x \<Longrightarrow> x = y"
    by (cases x; cases y) (auto simp: less_eq_monitor_key_def)
  show "x \<le> y \<or> y \<le> x"
    by (cases x; cases y) (auto simp: less_eq_monitor_key_def)
qed

end

section \<open>Severity levels\<close>

datatype monitor_level = INFO | WARN | SOFT_STOP | EMERGENCY_STOP

fun level_code :: "monitor_level \<Rightarrow> u32" where
  "level_code INFO = 0"
| "level_code WARN = 1"
| "level_code SOFT_STOP = 2"
| "level_code EMERGENCY_STOP = 3"

record monitor_error_info =
  err_level :: u32
  err_description :: string

definition is_valid_monitor_level :: "u32 \<Rightarrow> bool" where
  "is_valid_monitor_level l \<longleftrightarrow>
     l = level_code INFO \<or> l = level_code WARN \<or> l = level_code SOFT_STOP
     \<or> l = level_code EMERGENCY_STOP"

definition monitor_level_name :: "u32 \<Rightarrow> string" where
  "monitor_level_name l =
     (if l = level_code INFO then ''info''
      else if l = level_code WARN then ''warn''
      else if l = level_code SOFT_STOP then ''sstop''
      else if l = level_code EMERGENCY_STOP then ''estop''
      else ''?'')"

lemma monitor_level_name_valid: "is_valid_monitor_level l \<longleftrightarrow> monitor_level_name l \<noteq> ''?''"
  by (simp add: is_valid_monitor_level_def monitor_level_name_def)

end
