(* ===== verification/Monitor_Store.thy ===== *)
theory Monitor_Store
  imports Monitor_Data Ordered_Map
begin

text \<open>
  The record store of \<^verbatim>\<open>src/monitor/monitor_store.cpp\<close>: the last record under every key,
  written only when the value changes and, when a persistence callback is given, only after
  that callback has accepted the candidate. The callback is code of the caller: a function
  on a state of its own that answers with a bool or throws. Running out of memory is a
  parameter too, per place of allocation of an update; the model then leaves with
  \<^verbatim>\<open>std::bad_alloc\<close>. The copies that lookups and queries return are assumed to succeed.
  The mutex is left out: one operation runs at a time.
\<close>

section \<open>State and operations\<close>

record monitor_store =
  ms_records :: "(monitor_key, stored_record) omap"

definition new_store :: monitor_store where
  "new_store = \<lparr>ms_records = []\<rparr>"

definition same_monitor_value :: "monitor_data \<Rightarrow> stored_record \<Rightarrow> bool" where
  "same_monitor_value incoming stored =
     (case md_value incoming of
        VNumeric n \<Rightarrow> (case md_value (sr_data stored) of VNumeric m \<Rightarrow> num_value m = num_value n | _ \<Rightarrow> False)
      | VString t \<Rightarrow> (case md_value (sr_data stored) of VString u \<Rightarrow> t = u | _ \<Rightarrow> False)
      | Valueless \<Rightarrow> False)"

text \<open>
  The callback: absent (a null pointer), an empty \<^verbatim>\<open>std::function\<close>, or a function that
  turns its own state and the candidate into a new state and an answer, \<^term>\<open>None\<close> when it
  throws.
\<close>

datatype 'e prepare_update = No_Prepare | Empty_Prepare | Prepare "'e \<Rightarrow> stored_record \<Rightarrow> 'e \<times> bool option"

definition run_prepare :: "'e prepare_update \<Rightarrow> 'e \<Rightarrow> stored_record \<Rightarrow> 'e \<times> bool" where
  "run_prepare prep e candidate =
     (case prep of
        No_Prepare \<Rightarrow> (e, True)
      | Empty_Prepare \<Rightarrow> (e, False)
      | Prepare f \<Rightarrow> (case f e candidate of (e', Some b) \<Rightarrow> (e', b) | (e', None) \<Rightarrow> (e', False)))"

definition store_find :: "monitor_store \<Rightarrow> monitor_key \<Rightarrow> stored_record option" where
  "store_find s key = map_of (ms_records s) key"

definition store_size :: "monitor_store \<Rightarrow> nat" where
  "store_size s = length (ms_records s)"

definition store_clear :: "monitor_store \<Rightarrow> monitor_store" where
  "store_clear s = s\<lparr>ms_records := []\<rparr>"

text \<open>The allocations of an update: the copy returned to the caller and the map node.\<close>

datatype alloc_site = Result_Copy | Map_Node

text \<open>The result is \<^term>\<open>None\<close> when \<^verbatim>\<open>std::bad_alloc\<close> leaves the function.\<close>

definition store_update_impl ::
    "(alloc_site \<Rightarrow> bool) \<Rightarrow> monitor_store \<Rightarrow> 'e \<Rightarrow> monitor_data \<Rightarrow> bool \<Rightarrow> int \<Rightarrow> 'e prepare_update
     \<Rightarrow> monitor_store \<times> 'e \<times> update_result option" where
  "store_update_impl alloc s e data force timestamp prep =
     (if md_value data = Valueless
      then (s, e, Some \<lparr>upd_status = INVALID, upd_record = None\<rparr>)
      else
        let key = md_key data
        in case map_of (ms_records s) key of
             None \<Rightarrow>
               if (case md_value data of VNumeric n \<Rightarrow> num_value n = 0 | _ \<Rightarrow> False) \<and> \<not> force
               then (s, e, Some \<lparr>upd_status = IGNORED_INITIAL_ZERO, upd_record = None\<rparr>)
               else
                 let candidate = \<lparr>sr_data = data, sr_changed_at = timestamp\<rparr>
                 in if \<not> alloc Result_Copy then (s, e, None)
                    else
                      let committed_result = \<lparr>upd_status = INSERTED, upd_record = Some candidate\<rparr>
                      in if \<not> alloc Map_Node then (s, e, None)
                         else
                           let (records, inserted) = omap_emplace key candidate (ms_records s);
                               s = s\<lparr>ms_records := records\<rparr>
                           in if \<not> inserted
                              then (s, e, Some \<lparr>upd_status = INVALID, upd_record = None\<rparr>)
                              else
                                let (e, prepared) = run_prepare prep e candidate
                                in if \<not> prepared
                                   then (s\<lparr>ms_records := AList.delete key (ms_records s)\<rparr>, e,
                                         Some \<lparr>upd_status = DURABILITY_FAILED, upd_record = None\<rparr>)
                                   else (s, e, Some committed_result)
           | Some existing \<Rightarrow>
               if same_monitor_value data existing
               then (s, e, if alloc Result_Copy then Some \<lparr>upd_status = UNCHANGED, upd_record = Some existing\<rparr>
                           else None)
               else
                 let candidate = \<lparr>sr_data = data, sr_changed_at = timestamp\<rparr>
                 in if \<not> alloc Result_Copy then (s, e, None)
                    else
                      let committed_result = \<lparr>upd_status = UPDATED, upd_record = Some candidate\<rparr>;
                          (e, prepared) = run_prepare prep e candidate
                      in if \<not> prepared
                         then (s, e, Some \<lparr>upd_status = DURABILITY_FAILED, upd_record = None\<rparr>)
                         else (s\<lparr>ms_records := omap_set key candidate (ms_records s)\<rparr>, e, Some committed_result))"

definition store_update ::
    "(alloc_site \<Rightarrow> bool) \<Rightarrow> monitor_store \<Rightarrow> monitor_data \<Rightarrow> bool \<Rightarrow> int \<Rightarrow> monitor_store \<times> update_result option" where
  "store_update alloc s data force timestamp =
     (let (s, e, r) = store_update_impl alloc s () data force timestamp No_Prepare in (s, r))"

definition store_update_prepared ::
    "(alloc_site \<Rightarrow> bool) \<Rightarrow> monitor_store \<Rightarrow> 'e \<Rightarrow> monitor_data \<Rightarrow> bool \<Rightarrow> int
     \<Rightarrow> ('e \<Rightarrow> stored_record \<Rightarrow> 'e \<times> bool option) option \<Rightarrow> monitor_store \<times> 'e \<times> update_result option" where
  "store_update_prepared alloc s e data force timestamp f =
     store_update_impl alloc s e data force timestamp (case f of None \<Rightarrow> Empty_Prepare | Some f \<Rightarrow> Prepare f)"

text \<open>The filter conditions in source order; each absent condition admits every key.\<close>

definition filter_skips :: "monitor_filter \<Rightarrow> monitor_key \<Rightarrow> bool" where
  "filter_skips flt key \<longleftrightarrow>
     (case flt_module_id flt of None \<Rightarrow> False | Some m \<Rightarrow> key_mid key \<noteq> m)
     \<or> (case flt_level flt of None \<Rightarrow> False | Some l \<Rightarrow> key_level key \<noteq> l)
     \<or> (case flt_function_id flt of None \<Rightarrow> False | Some f \<Rightarrow> key_fid key \<noteq> f)
     \<or> (case flt_event_id flt of None \<Rightarrow> False | Some i \<Rightarrow> key_eid key \<noteq> i)"

fun query_loop :: "monitor_filter \<Rightarrow> stored_record list \<Rightarrow> (monitor_key, stored_record) omap \<Rightarrow> stored_record list" where
  "query_loop flt result [] = result"
| "query_loop flt result ((key, r) # rest) =
     (if filter_skips flt key then query_loop flt result rest else query_loop flt (result @ [r]) rest)"

definition store_query :: "monitor_store \<Rightarrow> monitor_filter \<Rightarrow> stored_record list" where
  "store_query s flt = query_loop flt [] (ms_records s)"

section \<open>Invariant\<close>

abbreviation record_key :: "stored_record \<Rightarrow> monitor_key" where
  "record_key r \<equiv> md_key (sr_data r)"

definition store_inv :: "monitor_store \<Rightarrow> bool" where
  "store_inv s \<longleftrightarrow> omap_ok (ms_records s)
     \<and> (\<forall>(k, r) \<in> set (ms_records s). record_key r = k \<and> md_value (sr_data r) \<noteq> Valueless)"

lemma store_inv_new: "store_inv new_store"
  by (simp add: store_inv_def new_store_def)

lemma store_inv_clear: "store_inv (store_clear s)"
  by (simp add: store_inv_def store_clear_def)

lemma omap_set_entries: "set (omap_set k v m) \<subseteq> insert (k, v) (set m)"
  by (induction k v m rule: omap_set.induct) auto

lemma store_inv_set:
  assumes "store_inv s" and "record_key r = k" and "md_value (sr_data r) \<noteq> Valueless"
  shows "store_inv (s\<lparr>ms_records := omap_set k r (ms_records s)\<rparr>)"
  using assms omap_set_entries [of k r "ms_records s"] by (auto simp: store_inv_def omap_ok_set)

text \<open>What an update does, as one atomic step.\<close>

definition wants_write :: "monitor_store \<Rightarrow> monitor_data \<Rightarrow> bool \<Rightarrow> bool" where
  "wants_write s data force \<longleftrightarrow> md_value data \<noteq> Valueless \<and>
     (case store_find s (md_key data) of
        None \<Rightarrow> force \<or> (\<forall>n. md_value data = VNumeric n \<longrightarrow> num_value n \<noteq> 0)
      | Some r \<Rightarrow> \<not> same_monitor_value data r)"

lemma store_update_impl_idle:
  assumes "\<not> wants_write s data force"
  shows "\<exists>r. store_update_impl alloc s e data force ts prep = (s, e, r)
    \<and> (r = None \<or> (\<exists>u. r = Some u \<and> upd_status u \<in> {INVALID, IGNORED_INITIAL_ZERO, UNCHANGED}))"
  using assms
  by (auto simp: wants_write_def store_update_impl_def store_find_def Let_def split: option.split monitor_value.split)

lemma store_update_impl_write:
  fixes ts :: int
  assumes inv: "store_inv s" and w: "wants_write s data force"
  defines "c \<equiv> \<lparr>sr_data = data, sr_changed_at = ts\<rparr>"
  defines "new \<equiv> (store_find s (md_key data) = None)"
  shows "store_update_impl alloc s e data force ts prep =
    (if \<not> alloc Result_Copy \<or> new \<and> \<not> alloc Map_Node then (s, e, None)
     else case run_prepare prep e c of
       (e', True) \<Rightarrow> (s\<lparr>ms_records := omap_set (md_key data) c (ms_records s)\<rparr>, e',
          Some \<lparr>upd_status = (if new then INSERTED else UPDATED), upd_record = Some c\<rparr>)
     | (e', False) \<Rightarrow> (s, e', Some \<lparr>upd_status = DURABILITY_FAILED, upd_record = None\<rparr>))"
proof -
  obtain e' b where rp: "run_prepare prep e c = (e', b)" by force
  have ok: "omap_ok (ms_records s)" using inv by (simp add: store_inv_def)
  show ?thesis
  proof (cases "map_of (ms_records s) (md_key data)")
    case None
    have undo: "AList.delete (md_key data) (omap_set (md_key data) c (ms_records s)) = ms_records s"
      by (rule omap_delete_set [OF ok None])
    have "(case md_value data of VNumeric n \<Rightarrow> num_value n = 0 | _ \<Rightarrow> False) \<longrightarrow> force"
      "md_value data \<noteq> Valueless"
      using w None by (auto simp: wants_write_def store_find_def split: monitor_value.split)
    then show ?thesis
      using None rp undo
      by (cases b) (auto simp: store_update_impl_def new_def store_find_def Let_def omap_emplace_def c_def)
  next
    case (Some r)
    then show ?thesis
      using w rp
      by (cases b) (auto simp: wants_write_def store_update_impl_def new_def store_find_def Let_def c_def)
  qed
qed

section \<open>Queries\<close>

lemma query_loop_filter: "query_loop flt acc m = acc @ map snd (filter (\<lambda>(k, r). \<not> filter_skips flt k) m)"
  by (induction flt acc m rule: query_loop.induct) auto

definition key_matches :: "monitor_filter \<Rightarrow> monitor_key \<Rightarrow> bool" where
  "key_matches flt k \<longleftrightarrow>
     (flt_module_id flt = None \<or> flt_module_id flt = Some (key_mid k))
     \<and> (flt_level flt = None \<or> flt_level flt = Some (key_level k))
     \<and> (flt_function_id flt = None \<or> flt_function_id flt = Some (key_fid k))
     \<and> (flt_event_id flt = None \<or> flt_event_id flt = Some (key_eid k))"

lemma filter_skips_matches: "filter_skips flt k \<longleftrightarrow> \<not> key_matches flt k"
  by (auto simp: filter_skips_def key_matches_def split: option.split)

section \<open>Logs\<close>

text \<open>
  A callback that appends the candidate to a log when it accepts it. Whether it accepts,
  refuses or throws is free: \<open>answer\<close> may depend on the log and the candidate.
\<close>

definition log_prepare ::
    "(stored_record list \<Rightarrow> stored_record \<Rightarrow> bool option)
     \<Rightarrow> stored_record list \<Rightarrow> stored_record \<Rightarrow> stored_record list \<times> bool option" where
  "log_prepare answer log r = (if answer log r = Some True then log @ [r] else log, answer log r)"

fun run_updates ::
    "(stored_record list \<Rightarrow> stored_record \<Rightarrow> bool option)
     \<Rightarrow> ((alloc_site \<Rightarrow> bool) \<times> monitor_data \<times> bool \<times> int) list
     \<Rightarrow> monitor_store \<Rightarrow> stored_record list \<Rightarrow> monitor_store \<times> stored_record list" where
  "run_updates answer [] s log = (s, log)"
| "run_updates answer ((alloc, data, force, ts) # ups) s log =
     (let (s', log', _) = store_update_prepared alloc s log data force ts (Some (log_prepare answer))
      in run_updates answer ups s' log')"

definition replay :: "stored_record list \<Rightarrow> monitor_key \<Rightarrow> stored_record option" where
  "replay log = foldl (\<lambda>m r. m(record_key r \<mapsto> r)) Map.empty log"

lemma replay_snoc: "replay (log @ [r]) = (replay log)(record_key r \<mapsto> r)"
  by (simp add: replay_def)

lemma run_prepare_log:
  "run_prepare (Prepare (log_prepare answer)) log c =
     (if answer log c = Some True then (log @ [c], True) else (log, False))"
  by (auto simp: run_prepare_def log_prepare_def split: option.split)

lemma store_step_log:
  fixes alloc :: "alloc_site \<Rightarrow> bool"
  assumes inv: "store_inv s" and rep: "store_find s = replay log"
    and step: "store_update_prepared alloc s log data force ts (Some (log_prepare answer)) = (s', log', r)"
  shows "store_inv s' \<and> store_find s' = replay log'"
proof (cases "wants_write s data force")
  case False
  with step store_update_impl_idle [OF False, of alloc log ts "Prepare (log_prepare answer)"] inv rep
  show ?thesis by (auto simp: store_update_prepared_def)
next
  case True
  let ?c = "\<lparr>sr_data = data, sr_changed_at = ts\<rparr>"
  have "md_value data \<noteq> Valueless" using True by (simp add: wants_write_def)
  then have "store_inv (s\<lparr>ms_records := omap_set (md_key data) ?c (ms_records s)\<rparr>)"
    using inv by (intro store_inv_set) simp_all
  moreover have "store_find (s\<lparr>ms_records := omap_set (md_key data) ?c (ms_records s)\<rparr>) = replay (log @ [?c])"
    using rep by (simp add: replay_snoc store_find_def fun_eq_iff)
  ultimately show ?thesis
    using step inv rep
    unfolding store_update_prepared_def option.case store_update_impl_write [OF inv True] run_prepare_log
    by (auto split: if_split_asm)
qed

lemma run_updates_log:
  "store_inv s \<Longrightarrow> store_find s = replay log \<Longrightarrow>
     store_inv (fst (run_updates answer ups s log))
     \<and> store_find (fst (run_updates answer ups s log)) = replay (snd (run_updates answer ups s log))"
proof (induction answer ups s log rule: run_updates.induct)
  case (2 answer alloc data force ts ups s log)
  obtain s' log' r where st: "store_update_prepared alloc s log data force ts (Some (log_prepare answer)) = (s', log', r)"
    by (metis prod.exhaust)
  from store_step_log [OF 2(2,3) st] 2(1) [OF st [symmetric]] st show ?case by simp
qed simp

section \<open>One update\<close>

lemma store_prepared_step:
  assumes "store_inv s" and "store_update_prepared alloc s e data force ts f = (s', e', r)"
  shows "store_inv s' \<and>
    (if \<exists>u. r = Some u \<and> update_changed u
     then \<exists>g. f = Some g \<and> g e \<lparr>sr_data = data, sr_changed_at = ts\<rparr> = (e', Some True)
       \<and> store_find s' = (store_find s)(md_key data \<mapsto> \<lparr>sr_data = data, sr_changed_at = ts\<rparr>)
     else s' = s)
    \<and> (wants_write s data force \<or> e' = e)"
proof (cases "wants_write s data force")
  case False
  with assms store_update_impl_idle [OF False, of alloc e ts "case f of None \<Rightarrow> Empty_Prepare | Some f \<Rightarrow> Prepare f"]
  show ?thesis by (auto simp: store_update_prepared_def update_changed_def)
next
  case True
  let ?c = "\<lparr>sr_data = data, sr_changed_at = ts\<rparr>"
  have "md_value data \<noteq> Valueless" using True by (simp add: wants_write_def)
  then have "store_inv (s\<lparr>ms_records := omap_set (md_key data) ?c (ms_records s)\<rparr>)"
    using assms(1) by (intro store_inv_set) simp_all
  moreover have "store_find (s\<lparr>ms_records := omap_set (md_key data) ?c (ms_records s)\<rparr>)
      = (store_find s)(md_key data \<mapsto> ?c)" by (simp add: store_find_def fun_eq_iff)
  ultimately show ?thesis
    using assms True
    unfolding store_update_prepared_def store_update_impl_write [OF assms(1) True] run_prepare_def
    by (cases f) (auto simp: update_changed_def split: if_split_asm prod.split_asm option.split_asm bool.split_asm)
qed

section \<open>Properties\<close>

text \<open>
  C26. A prepared update is atomic and durable first. Whatever the callback and memory do,
  the invariant holds afterwards; either the result reports a change, and then the callback
  was given exactly the candidate record, accepted it, and the store differs from before in
  that record only; or nothing was written and the store is exactly as before, the inserted
  map node rolled back included. Without a change of value the callback is not called.
\<close>

theorem store_update_atomic:
  assumes "store_inv s" and "store_update_prepared alloc s e data force ts f = (s', e', r)"
  shows "store_inv s' \<and>
    (if \<exists>u. r = Some u \<and> update_changed u
     then \<exists>g. f = Some g \<and> g e \<lparr>sr_data = data, sr_changed_at = ts\<rparr> = (e', Some True)
       \<and> store_find s' = (store_find s)(md_key data \<mapsto> \<lparr>sr_data = data, sr_changed_at = ts\<rparr>)
     else s' = s)
    \<and> (wants_write s data force \<or> e' = e)"
  using store_prepared_step [OF assms] .

theorem store_update_atomic_witness:
  "\<exists>s' e' r. store_update_prepared (\<lambda>_. True) new_store (0 :: nat)
       \<lparr>md_key = MonitorKey 1 2 3 4, md_description = ''d'', md_value = VString ''v''\<rparr> False 9
       (Some (\<lambda>e r. (e + 1, Some False))) = (s', e', r) \<and> s' = new_store \<and> e' = 1"
proof -
  let ?d = "\<lparr>md_key = MonitorKey 1 2 3 4, md_description = ''d'', md_value = VString ''v''\<rparr>"
  have eq: "store_update_prepared (\<lambda>_. True) new_store (0 :: nat) ?d False 9 (Some (\<lambda>e r. (e + 1, Some False)))
      = (new_store, 1, Some \<lparr>upd_status = DURABILITY_FAILED, upd_record = None\<rparr>)"
    by code_simp
  from store_update_atomic [OF store_inv_new eq] eq show ?thesis by simp
qed

text \<open>
  C27. The accepted records are the store. Over any sequence of updates on an empty store,
  with a callback that logs what it accepts and may refuse or throw at will, and with memory
  failing at will, replaying the log gives exactly the content of the store.
\<close>

theorem store_replays_log:
  "store_find (fst (run_updates answer ups new_store [])) = replay (snd (run_updates answer ups new_store []))"
proof -
  have "store_find new_store = replay []" by (simp add: store_find_def new_store_def replay_def fun_eq_iff)
  then show ?thesis using run_updates_log [OF store_inv_new] by blast
qed

text \<open>
  C28. A query returns exactly the stored records whose key matches the filter, each once and
  in the order of their keys.
\<close>

theorem store_query_exact:
  assumes "store_inv s"
  shows "sorted_wrt (<) (map record_key (store_query s flt))
    \<and> set (store_query s flt) = {r. store_find s (record_key r) = Some r \<and> key_matches flt (record_key r)}"
proof
  have keyed: "record_key r = k" if "(k, r) \<in> set (ms_records s)" for k r
    using assms that by (auto simp: store_inv_def)
  have ok: "omap_ok (ms_records s)" using assms by (simp add: store_inv_def)
  let ?m = "filter (\<lambda>(k, r). \<not> filter_skips flt k) (ms_records s)"
  have q: "store_query s flt = map snd ?m" by (simp add: store_query_def query_loop_filter)
  have "map record_key (store_query s flt) = map fst ?m"
    unfolding q map_map by (intro map_cong) (auto dest: keyed)
  with omap_ok_filter [OF ok] show "sorted_wrt (<) (map record_key (store_query s flt))"
    by (simp add: omap_ok_def)
  show "set (store_query s flt) = {r. store_find s (record_key r) = Some r \<and> key_matches flt (record_key r)}"
  proof -
    have "r \<in> snd ` set ?m \<longleftrightarrow> (record_key r, r) \<in> set (ms_records s) \<and> key_matches flt (record_key r)" for r
    proof
      assume "r \<in> snd ` set ?m"
      then obtain k where "(k, r) \<in> set (ms_records s)" "key_matches flt k" by (auto simp: filter_skips_matches)
      with keyed show "(record_key r, r) \<in> set (ms_records s) \<and> key_matches flt (record_key r)" by metis
    next
      assume "(record_key r, r) \<in> set (ms_records s) \<and> key_matches flt (record_key r)"
      then have "(record_key r, r) \<in> set ?m" by (simp add: filter_skips_matches)
      then show "r \<in> snd ` set ?m" by (rule rev_image_eqI) simp
    qed
    then show ?thesis unfolding q store_find_def omap_mem [OF ok, symmetric] by auto
  qed
qed

theorem store_query_exact_witness:
  "let s = fst (run_updates (\<lambda>_ _. Some True)
       [(\<lambda>_. True, \<lparr>md_key = MonitorKey 1 2 3 4, md_description = ''d'', md_value = VString ''v''\<rparr>, False, 9),
        (\<lambda>_. True, \<lparr>md_key = MonitorKey 5 2 3 4, md_description = ''e'', md_value = VString ''w''\<rparr>, False, 9)] new_store [])
   in set (store_query s \<lparr>flt_module_id = Some 5, flt_level = None, flt_function_id = None, flt_event_id = None\<rparr>)
     = {\<lparr>sr_data = \<lparr>md_key = MonitorKey 5 2 3 4, md_description = ''e'', md_value = VString ''w''\<rparr>, sr_changed_at = 9\<rparr>}"
proof -
  define s where "s = fst (run_updates (\<lambda>_ _. Some True)
       [(\<lambda>_. True, \<lparr>md_key = MonitorKey 1 2 3 4, md_description = ''d'', md_value = VString ''v''\<rparr>, False, 9),
        (\<lambda>_. True, \<lparr>md_key = MonitorKey 5 2 3 4, md_description = ''e'', md_value = VString ''w''\<rparr>, False, 9)] new_store [])"
  have "ms_records s =
     [(MonitorKey 1 2 3 4, \<lparr>sr_data = \<lparr>md_key = MonitorKey 1 2 3 4, md_description = ''d'', md_value = VString ''v''\<rparr>, sr_changed_at = 9\<rparr>),
      (MonitorKey 5 2 3 4, \<lparr>sr_data = \<lparr>md_key = MonitorKey 5 2 3 4, md_description = ''e'', md_value = VString ''w''\<rparr>, sr_changed_at = 9\<rparr>)]"
    unfolding s_def by code_simp
  moreover have "store_inv s"
    unfolding s_def using run_updates_log [OF store_inv_new] by (simp add: store_find_def new_store_def replay_def fun_eq_iff del: run_updates.simps)
  ultimately show ?thesis
    unfolding Let_def s_def [symmetric]
    using store_query_exact [of s] by (auto simp: store_find_def key_matches_def split: if_split_asm)
qed

end
