(* ===== verification/Module_Registry.thy ===== *)
theory Module_Registry
  imports Monitor_Data Ordered_Map "HOL-Library.List_Lexorder" "HOL-Library.Char_ord"
begin

text \<open>
  The module registry of \<^verbatim>\<open>src/monitor/monitor_module_registry.cpp\<close> with the module data of
  \<^verbatim>\<open>inc/monitor/monitor_module.h\<close>: two maps, from module numbers to module data and from
  names to numbers, that have to agree. Strings are ordered by their bytes, as
  \<^verbatim>\<open>std::string\<close> orders them. Running out of memory is a parameter per place of
  allocation; the result \<^term>\<open>None\<close> is the exception leaving the function.
\<close>

section \<open>Modules\<close>

definition MONITOR_MODULE_NAME_MAX :: nat where "MONITOR_MODULE_NAME_MAX = 63"

datatype module_register_status =
  REG_SUCCESS | REG_INVALID_NAME | REG_DUPLICATE_ID | REG_DUPLICATE_NAME | REG_INVALID_ERROR_LEVEL | REG_INVALID_PHASE

record monitor_module_info =
  mod_mid :: u32
  mod_name :: string
  mod_description :: string
  mod_errors :: "monitor_error_info list"

definition is_valid_module_name_character :: "u8 \<Rightarrow> bool" where
  "is_valid_module_name_character c =
     (let lowercase = c \<ge> byte_of_char (CHR ''a'') \<and> c \<le> byte_of_char (CHR ''z'');
          uppercase = c \<ge> byte_of_char (CHR ''A'') \<and> c \<le> byte_of_char (CHR ''Z'');
          digit = c \<ge> byte_of_char (CHR ''0'') \<and> c \<le> byte_of_char (CHR ''9'')
      in lowercase \<or> uppercase \<or> digit \<or> c = byte_of_char (CHR ''-'') \<or> c = byte_of_char (CHR ''_'')
         \<or> c = byte_of_char (CHR ''.''))"

fun name_characters_valid :: "string \<Rightarrow> bool" where
  "name_characters_valid [] = True"
| "name_characters_valid (c # cs) =
     (if \<not> is_valid_module_name_character (byte_of_char c) then False else name_characters_valid cs)"

definition is_valid_module_name :: "string \<Rightarrow> bool" where
  "is_valid_module_name name =
     (if name = [] \<or> length name > MONITOR_MODULE_NAME_MAX then False
      else if name = ''all'' then False
      else name_characters_valid name)"

section \<open>The registry\<close>

record monitor_module_registry =
  mr_by_id :: "(u32, monitor_module_info) omap"
  mr_id_by_name :: "(string, u32) omap"

definition new_registry :: monitor_module_registry where
  "new_registry = \<lparr>mr_by_id = [], mr_id_by_name = []\<rparr>"

fun error_levels_valid :: "monitor_error_info list \<Rightarrow> bool" where
  "error_levels_valid [] = True"
| "error_levels_valid (err # errs) =
     (if \<not> is_valid_monitor_level (err_level err) then False else error_levels_valid errs)"

datatype registry_site = Name_Copy | Id_Node | Name_Node

definition register_module ::
    "(registry_site \<Rightarrow> bool) \<Rightarrow> monitor_module_registry \<Rightarrow> monitor_module_info
     \<Rightarrow> monitor_module_registry \<times> module_register_status option" where
  "register_module alloc s m =
     (if \<not> is_valid_module_name (mod_name m) then (s, Some REG_INVALID_NAME)
      else if \<not> error_levels_valid (mod_errors m) then (s, Some REG_INVALID_ERROR_LEVEL)
      else if \<not> alloc Name_Copy then (s, None)
      else
        let mid = mod_mid m; name = mod_name m
        in if map_of (mr_by_id s) mid \<noteq> None then (s, Some REG_DUPLICATE_ID)
           else if map_of (mr_id_by_name s) name \<noteq> None then (s, Some REG_DUPLICATE_NAME)
           else if \<not> alloc Id_Node then (s, None)
           else
             let (by_id, inserted) = omap_emplace mid m (mr_by_id s); s = s\<lparr>mr_by_id := by_id\<rparr>
             in if \<not> inserted then (s, Some REG_DUPLICATE_ID)
                else if \<not> alloc Name_Node then (s\<lparr>mr_by_id := AList.delete mid (mr_by_id s)\<rparr>, None)
                else
                  let (names, inserted) = omap_emplace name mid (mr_id_by_name s); s = s\<lparr>mr_id_by_name := names\<rparr>
                  in if \<not> inserted
                     then (s\<lparr>mr_by_id := AList.delete mid (mr_by_id s)\<rparr>, Some REG_DUPLICATE_NAME)
                     else (s, Some REG_SUCCESS))"

definition find_by_id :: "monitor_module_registry \<Rightarrow> u32 \<Rightarrow> monitor_module_info option" where
  "find_by_id s mid = map_of (mr_by_id s) mid"

definition find_error :: "monitor_module_registry \<Rightarrow> u32 \<Rightarrow> u32 \<Rightarrow> monitor_error_info option" where
  "find_error s mid eid =
     (case map_of (mr_by_id s) mid of
        None \<Rightarrow> None
      | Some m \<Rightarrow> if unat eid \<ge> length (mod_errors m) then None else Some (mod_errors m ! unat eid))"

definition find_by_name :: "monitor_module_registry \<Rightarrow> string \<Rightarrow> monitor_module_info option" where
  "find_by_name s name =
     (case map_of (mr_id_by_name s) name of
        None \<Rightarrow> None
      | Some mid \<Rightarrow> map_of (mr_by_id s) mid)"

fun modules_loop :: "(u32, monitor_module_info) omap \<Rightarrow> monitor_module_info list \<Rightarrow> (string, u32) omap
    \<Rightarrow> monitor_module_info list" where
  "modules_loop by_id snapshot [] = snapshot"
| "modules_loop by_id snapshot ((name, mid) # rest) =
     (case map_of by_id mid of
        None \<Rightarrow> modules_loop by_id snapshot rest
      | Some m \<Rightarrow> modules_loop by_id (snapshot @ [m]) rest)"

definition registry_modules :: "monitor_module_registry \<Rightarrow> monitor_module_info list" where
  "registry_modules s = modules_loop (mr_by_id s) [] (mr_id_by_name s)"

section \<open>Invariant\<close>

text \<open>Both maps hold the same modules, each under its own number and name, and only valid ones.\<close>

definition module_ok :: "monitor_module_info \<Rightarrow> bool" where
  "module_ok m \<longleftrightarrow> is_valid_module_name (mod_name m) \<and> (\<forall>err \<in> set (mod_errors m). is_valid_monitor_level (err_level err))"

definition registry_inv :: "monitor_module_registry \<Rightarrow> bool" where
  "registry_inv s \<longleftrightarrow> omap_ok (mr_by_id s) \<and> omap_ok (mr_id_by_name s)
     \<and> (\<forall>mid m. map_of (mr_by_id s) mid = Some m \<longrightarrow>
          mod_mid m = mid \<and> module_ok m \<and> map_of (mr_id_by_name s) (mod_name m) = Some mid)
     \<and> (\<forall>name mid. map_of (mr_id_by_name s) name = Some mid \<longrightarrow>
          (\<exists>m. map_of (mr_by_id s) mid = Some m \<and> mod_name m = name))"

lemma registry_inv_new: "registry_inv new_registry"
  by (simp add: registry_inv_def new_registry_def)

lemma error_levels_valid_iff: "error_levels_valid errs \<longleftrightarrow> (\<forall>err \<in> set errs. is_valid_monitor_level (err_level err))"
  by (induction errs) auto

lemma name_characters_valid_iff:
  "name_characters_valid cs \<longleftrightarrow> (\<forall>c \<in> set cs. is_valid_module_name_character (byte_of_char c))"
  by (induction cs) auto

text \<open>The six outcomes of a registration; everything but a success leaves the registry alone.\<close>

lemma register_module_cases:
  assumes inv: "registry_inv s"
  shows "register_module alloc s m =
    (if \<not> is_valid_module_name (mod_name m) then (s, Some REG_INVALID_NAME)
     else if \<not> module_ok m then (s, Some REG_INVALID_ERROR_LEVEL)
     else if \<not> alloc Name_Copy then (s, None)
     else if map_of (mr_by_id s) (mod_mid m) \<noteq> None then (s, Some REG_DUPLICATE_ID)
     else if map_of (mr_id_by_name s) (mod_name m) \<noteq> None then (s, Some REG_DUPLICATE_NAME)
     else if \<not> alloc Id_Node \<or> \<not> alloc Name_Node then (s, None)
     else (s\<lparr>mr_by_id := omap_set (mod_mid m) m (mr_by_id s),
             mr_id_by_name := omap_set (mod_name m) (mod_mid m) (mr_id_by_name s)\<rparr>, Some REG_SUCCESS))"
proof -
  have undo: "AList.delete (mod_mid m) (omap_set (mod_mid m) m (mr_by_id s)) = mr_by_id s"
    if "map_of (mr_by_id s) (mod_mid m) = None"
    using inv that by (intro omap_delete_set) (simp_all add: registry_inv_def)
  have ok: "is_valid_module_name (mod_name m) \<Longrightarrow> error_levels_valid (mod_errors m) \<longleftrightarrow> module_ok m"
    by (simp add: module_ok_def error_levels_valid_iff)
  show ?thesis
    using undo ok by (auto simp: register_module_def Let_def omap_emplace_def split: option.split)
qed

lemma registry_by_id:
  "registry_inv s \<Longrightarrow> map_of (mr_by_id s) mid = Some m \<Longrightarrow>
     mod_mid m = mid \<and> module_ok m \<and> map_of (mr_id_by_name s) (mod_name m) = Some mid"
  unfolding registry_inv_def by blast

lemma registry_by_name:
  "registry_inv s \<Longrightarrow> map_of (mr_id_by_name s) name = Some mid \<Longrightarrow>
     \<exists>m. map_of (mr_by_id s) mid = Some m \<and> mod_name m = name"
  unfolding registry_inv_def by blast

lemma registry_inv_insert:
  assumes inv: "registry_inv s" and m: "module_ok m"
    and new: "map_of (mr_by_id s) (mod_mid m) = None" "map_of (mr_id_by_name s) (mod_name m) = None"
  shows "registry_inv (s\<lparr>mr_by_id := omap_set (mod_mid m) m (mr_by_id s),
      mr_id_by_name := omap_set (mod_name m) (mod_mid m) (mr_id_by_name s)\<rparr>)" (is "registry_inv ?t")
  unfolding registry_inv_def
proof (intro conjI allI impI)
  show "omap_ok (mr_by_id ?t)" "omap_ok (mr_id_by_name ?t)"
    using inv by (simp_all add: registry_inv_def omap_ok_set)
next
  fix mid m'
  assume "map_of (mr_by_id ?t) mid = Some m'"
  then consider "mid = mod_mid m" "m' = m" | "mid \<noteq> mod_mid m" "map_of (mr_by_id s) mid = Some m'"
    by (auto split: if_split_asm)
  then have "mod_mid m' = mid \<and> module_ok m' \<and> map_of (mr_id_by_name ?t) (mod_name m') = Some mid"
  proof cases
    case 2
    then show ?thesis using registry_by_id [OF inv 2(2)] new(2) by auto
  qed (simp add: m)
  then show "mod_mid m' = mid" "module_ok m'" "map_of (mr_id_by_name ?t) (mod_name m') = Some mid" by blast+
next
  fix name mid
  assume "map_of (mr_id_by_name ?t) name = Some mid"
  then consider "name = mod_name m" "mid = mod_mid m" | "name \<noteq> mod_name m" "map_of (mr_id_by_name s) name = Some mid"
    by (auto split: if_split_asm)
  then show "\<exists>m'. map_of (mr_by_id ?t) mid = Some m' \<and> mod_name m' = name"
  proof cases
    case 2
    then show ?thesis using registry_by_name [OF inv 2(2)] new(1) by auto
  qed simp
qed

lemma find_by_name_iff:
  assumes inv: "registry_inv s"
  shows "find_by_name s name = Some m \<longleftrightarrow> find_by_id s (mod_mid m) = Some m \<and> mod_name m = name"
proof
  assume "find_by_name s name = Some m"
  then obtain mid where mid: "map_of (mr_id_by_name s) name = Some mid" "map_of (mr_by_id s) mid = Some m"
    by (auto simp: find_by_name_def split: option.split_asm)
  with registry_by_name [OF inv mid(1)] registry_by_id [OF inv mid(2)]
  show "find_by_id s (mod_mid m) = Some m \<and> mod_name m = name" by (auto simp: find_by_id_def)
next
  assume a: "find_by_id s (mod_mid m) = Some m \<and> mod_name m = name"
  with registry_by_id [OF inv, of "mod_mid m" m] show "find_by_name s name = Some m"
    by (auto simp: find_by_name_def find_by_id_def)
qed

section \<open>The snapshot\<close>

lemma modules_loop_map:
  "(\<forall>(name, mid) \<in> set names. map_of by_id mid \<noteq> None) \<Longrightarrow>
     modules_loop by_id acc names = acc @ map (\<lambda>e. the (map_of by_id (snd e))) names"
  by (induction by_id acc names rule: modules_loop.induct) (auto split: option.split)

lemma registry_modules_map:
  assumes "registry_inv s"
  shows "registry_modules s = map (\<lambda>e. the (map_of (mr_by_id s) (snd e))) (mr_id_by_name s)"
    and "map mod_name (registry_modules s) = map fst (mr_id_by_name s)"
proof -
  have ok: "omap_ok (mr_id_by_name s)" using assms by (simp add: registry_inv_def)
  have ex: "\<exists>m. map_of (mr_by_id s) (snd e) = Some m \<and> mod_name m = fst e" if "e \<in> set (mr_id_by_name s)" for e
    using that omap_mem [OF ok, of "fst e" "snd e"] registry_by_name [OF assms] by auto
  then show eq: "registry_modules s = map (\<lambda>e. the (map_of (mr_by_id s) (snd e))) (mr_id_by_name s)"
    unfolding registry_modules_def by (subst modules_loop_map) fastforce+
  show "map mod_name (registry_modules s) = map fst (mr_id_by_name s)"
    unfolding eq map_map by (intro map_cong) (use ex in fastforce)+
qed

section \<open>Properties\<close>

text \<open>
  C32. A registration changes the registry only when it succeeds. It succeeds exactly for a
  valid module whose number and name are both free, unless memory runs out; then the module is
  found under its number and its name and nothing else changed. On every other path, the
  exception after the first of the two insertions included, the registry is exactly as before.
\<close>

theorem registry_register_exact:
  assumes "registry_inv s" and "register_module alloc s m = (s', r)"
  shows "registry_inv s' \<and>
    (if r = Some REG_SUCCESS
     then module_ok m \<and> find_by_id s (mod_mid m) = None \<and> find_by_name s (mod_name m) = None
       \<and> find_by_id s' = (find_by_id s)(mod_mid m \<mapsto> m) \<and> find_by_name s' = (find_by_name s)(mod_name m \<mapsto> m)
     else s' = s \<and> (r = None \<and> (\<exists>site. \<not> alloc site) \<or> \<not> module_ok m \<or> find_by_id s (mod_mid m) \<noteq> None \<or> find_by_name s (mod_name m) \<noteq> None))"
proof -
  have names: "map_of (mr_id_by_name s) n = None \<longleftrightarrow> find_by_name s n = None" for n
    using registry_by_name [OF assms(1), of n] by (auto simp: find_by_name_def split: option.split)
  let ?t = "s\<lparr>mr_by_id := omap_set (mod_mid m) m (mr_by_id s),
      mr_id_by_name := omap_set (mod_name m) (mod_mid m) (mr_id_by_name s)\<rparr>"
  show ?thesis
  proof (cases "r = Some REG_SUCCESS")
    case True
    with assms(2) have new: "module_ok m" "map_of (mr_by_id s) (mod_mid m) = None"
      "map_of (mr_id_by_name s) (mod_name m) = None" and s': "s' = ?t"
      unfolding register_module_cases [OF assms(1)] by (auto split: if_split_asm)
    have inv: "registry_inv ?t" by (rule registry_inv_insert [OF assms(1) new])
    have ids: "find_by_id ?t = (find_by_id s)(mod_mid m \<mapsto> m)" by (simp add: find_by_id_def fun_eq_iff)
    have "find_by_name ?t n = ((find_by_name s)(mod_name m \<mapsto> m)) n" for n
      using registry_by_name [OF assms(1), of n] new(2) by (auto simp: find_by_name_def split: option.split)
    then have "find_by_name ?t = (find_by_name s)(mod_name m \<mapsto> m)" by (rule ext)
    with True inv ids new names s' show ?thesis by (simp add: find_by_id_def)
  next
    case False
    with assms(2) have "s' = s" "r = None \<and> (\<exists>site. \<not> alloc site) \<or> \<not> module_ok m \<or> map_of (mr_by_id s) (mod_mid m) \<noteq> None
        \<or> map_of (mr_id_by_name s) (mod_name m) \<noteq> None"
      unfolding register_module_cases [OF assms(1)] by (auto simp: module_ok_def split: if_split_asm)
    with False assms(1) names show ?thesis by (auto simp: find_by_id_def)
  qed
qed

theorem registry_register_exact_witness:
  "\<exists>s'. register_module (\<lambda>_. True) new_registry
       \<lparr>mod_mid = 7, mod_name = ''net'', mod_description = [], mod_errors = []\<rparr> = (s', Some REG_SUCCESS)
     \<and> find_by_name s' ''net'' = Some \<lparr>mod_mid = 7, mod_name = ''net'', mod_description = [], mod_errors = []\<rparr>"
proof -
  let ?m = "\<lparr>mod_mid = 7, mod_name = ''net'', mod_description = [], mod_errors = []\<rparr> :: monitor_module_info"
  obtain s' where eq: "register_module (\<lambda>_. True) new_registry ?m = (s', Some REG_SUCCESS)"
  proof -
    have "snd (register_module (\<lambda>_. True) new_registry ?m) = Some REG_SUCCESS" by code_simp
    with that show ?thesis by (metis prod.collapse)
  qed
  from registry_register_exact [OF registry_inv_new eq] eq show ?thesis by auto
qed

text \<open>
  C33. The snapshot lists every registered module once, in the order of the names, and both ways
  of finding a module agree with it; an error is found exactly under the number of a registered
  module and an index into its table, and its level is one of the defined levels.
\<close>

theorem registry_snapshot_exact:
  assumes "registry_inv s"
  shows "sorted_wrt (<) (map mod_name (registry_modules s))
    \<and> set (registry_modules s) = {m. find_by_id s (mod_mid m) = Some m}
    \<and> (\<forall>name m. find_by_name s name = Some m \<longleftrightarrow> m \<in> set (registry_modules s) \<and> mod_name m = name)
    \<and> (\<forall>mid eid err. find_error s mid eid = Some err \<longleftrightarrow>
        (\<exists>m. find_by_id s mid = Some m \<and> unat eid < length (mod_errors m) \<and> err = mod_errors m ! unat eid))
    \<and> (\<forall>mid eid err. find_error s mid eid = Some err \<longrightarrow> is_valid_monitor_level (err_level err))"
proof -
  have ok: "omap_ok (mr_id_by_name s)" using assms by (simp add: registry_inv_def)
  have "sorted_wrt (<) (map mod_name (registry_modules s))"
    using ok unfolding registry_modules_map(2) [OF assms] by (simp add: omap_ok_def)
  moreover have mem: "set (registry_modules s) = {m. find_by_id s (mod_mid m) = Some m}"
  proof (intro equalityI subsetI)
    fix m
    assume "m \<in> set (registry_modules s)"
    then obtain name mid where "(name, mid) \<in> set (mr_id_by_name s)" "m = the (map_of (mr_by_id s) mid)"
      unfolding registry_modules_map(1) [OF assms] by auto
    with omap_mem [OF ok] registry_by_name [OF assms] registry_by_id [OF assms]
    show "m \<in> {m. find_by_id s (mod_mid m) = Some m}" by (fastforce simp: find_by_id_def)
  next
    fix m
    assume "m \<in> {m. find_by_id s (mod_mid m) = Some m}"
    then have m: "map_of (mr_by_id s) (mod_mid m) = Some m" by (simp add: find_by_id_def)
    with registry_by_id [OF assms m] omap_mem [OF ok] have "(mod_name m, mod_mid m) \<in> set (mr_id_by_name s)" by blast
    then show "m \<in> set (registry_modules s)" unfolding registry_modules_map(1) [OF assms] using m by force
  qed
  moreover have "find_by_name s name = Some m \<longleftrightarrow> m \<in> set (registry_modules s) \<and> mod_name m = name" for name m
    unfolding mem using find_by_name_iff [OF assms, of name m] by simp
  moreover have err: "find_error s mid eid = Some err \<longleftrightarrow>
        (\<exists>m. find_by_id s mid = Some m \<and> unat eid < length (mod_errors m) \<and> err = mod_errors m ! unat eid)" for mid eid err
    by (auto simp: find_error_def find_by_id_def split: option.split)
  moreover have "is_valid_monitor_level (err_level err)" if "find_error s mid eid = Some err" for mid eid err
    using that registry_by_id [OF assms] unfolding err by (auto simp: find_by_id_def module_ok_def)
  ultimately show ?thesis by blast
qed

theorem registry_snapshot_exact_witness:
  "\<exists>m s. fst (register_module (\<lambda>_. True) new_registry m) = s \<and> registry_modules s = [m] \<and> length (mod_errors m) = 1
     \<and> find_by_name s ''net'' = Some m \<and> find_error s 7 0 = Some (mod_errors m ! 0)
     \<and> is_valid_monitor_level (err_level (mod_errors m ! 0))"
proof -
  let ?m = "\<lparr>mod_mid = 7, mod_name = ''net'', mod_description = [],
      mod_errors = [\<lparr>err_level = level_code WARN, err_description = ''lost''\<rparr>]\<rparr>"
  let ?s = "fst (register_module (\<lambda>_. True) new_registry ?m)"
  have s: "?s = \<lparr>mr_by_id = [(7, ?m)], mr_id_by_name = [(''net'', 7)]\<rparr>" by code_simp
  have "module_ok ?m" by code_simp
  with s have "registry_inv ?s"
    using registry_inv_insert [OF registry_inv_new, of ?m] by (simp add: new_registry_def)
  note exact = registry_snapshot_exact [OF this]
  have mods: "registry_modules ?s = [?m]" "find_by_id ?s 7 = Some ?m" unfolding s by code_simp+
  with exact have "find_by_name ?s ''net'' = Some ?m" by simp
  moreover have err: "find_error ?s 7 0 = Some (mod_errors ?m ! 0)" using exact mods(2) by simp
  moreover from exact err have "is_valid_monitor_level (err_level (mod_errors ?m ! 0))" by blast
  ultimately show ?thesis using mods(1) by (intro exI [of _ ?m] exI [of _ ?s]) simp
qed

end
