(* ===== verification/Monitor_Reporter.thy ===== *)
theory Monitor_Reporter
  imports Monitor_Store Module_Registry
begin

text \<open>
  The reporter of \<^verbatim>\<open>src/monitor/monitor_reporter.cpp\<close>: it completes a sample with the metadata
  of its module, writes it to the store, and hands changed records to a publisher; errors go
  through the reliable alarm publisher instead when there is one, and enter the store only once
  that publisher has made them durable. Publishers are code of the caller: functions on a state
  of their own which may throw, and the plain one may also change the store (it runs unlocked).
  A result \<^term>\<open>None\<close> is an exception that leaves the function.
\<close>

section \<open>Publishers\<close>

datatype alarm_enqueue_status = ENQ_SUCCESS | ENQ_NOT_READY | ENQ_ENCODE_FAILED | ENQ_RANDOM_FAILED | ENQ_SPOOL_FULL | ENQ_IO_ERROR

record alarm_enqueue_result =
  enq_status :: alarm_enqueue_status
  enq_system_error :: int

definition durable :: "alarm_enqueue_result \<Rightarrow> bool" where
  "durable r \<longleftrightarrow> enq_status r = ENQ_SUCCESS"

text \<open>A publisher returns its new state, the store, and whether it returned or threw.\<close>

type_synonym 'e publisher = "monitor_store \<Rightarrow> 'e \<Rightarrow> stored_record \<Rightarrow> monitor_store \<times> 'e \<times> bool"
type_synonym 'e alarm_publisher = "'e \<Rightarrow> stored_record \<Rightarrow> 'e \<times> alarm_enqueue_result option"

record 'e monitor_reporter =
  rp_store :: monitor_store
  rp_modules :: "monitor_module_registry option"
  rp_publisher :: "'e publisher option"
  rp_alarm_publisher :: "'e alarm_publisher option"

definition new_reporter :: "monitor_store \<Rightarrow> monitor_module_registry option \<Rightarrow> 'e monitor_reporter" where
  "new_reporter store modules =
     \<lparr>rp_store = store, rp_modules = modules, rp_publisher = None, rp_alarm_publisher = None\<rparr>"

definition set_publisher :: "'e monitor_reporter \<Rightarrow> 'e publisher option \<Rightarrow> 'e monitor_reporter" where
  "set_publisher s p = s\<lparr>rp_publisher := p\<rparr>"

definition set_alarm_publisher :: "'e monitor_reporter \<Rightarrow> 'e alarm_publisher option \<Rightarrow> 'e monitor_reporter" where
  "set_alarm_publisher s p = s\<lparr>rp_alarm_publisher := p\<rparr>"

section \<open>Operations\<close>

text \<open>
  Places that may throw: the allocations of the store, the copies of strings and records, and
  taking the publisher lock with the copy of a callback.
\<close>

datatype report_site = Store_Site alloc_site | Metadata_Copy | Publisher_Copy | Argument_Copy | Alarm_Publisher_Copy | Prepare_Build

definition reporter_update ::
    "(report_site \<Rightarrow> bool) \<Rightarrow> 'e monitor_reporter \<Rightarrow> 'e \<Rightarrow> monitor_data \<Rightarrow> bool \<Rightarrow> int
     \<Rightarrow> 'e monitor_reporter \<times> 'e \<times> update_result option" where
  "reporter_update alloc s e data force timestamp =
     (let (store, r) = store_update (alloc \<circ> Store_Site) (rp_store s) data force timestamp;
          s = s\<lparr>rp_store := store\<rparr>
      in case r of
           None \<Rightarrow> (s, e, None)
         | Some result \<Rightarrow>
             let should_publish = upd_status result = INSERTED \<or> upd_status result = UPDATED
             in case upd_record result of
                  None \<Rightarrow> (s, e, Some result)
                | Some rec \<Rightarrow>
                    if \<not> should_publish then (s, e, Some result)
                    else if \<not> alloc Publisher_Copy then (s, e, None)
                    else
                      case rp_publisher s of
                        None \<Rightarrow> (s, e, Some result)
                      | Some p \<Rightarrow>
                          if \<not> alloc Argument_Copy then (s, e, Some result)
                          else let (store, e, _) = p (rp_store s) e rec in (s\<lparr>rp_store := store\<rparr>, e, Some result))"

definition enrich ::
    "(report_site \<Rightarrow> bool) \<Rightarrow> 'e monitor_reporter \<Rightarrow> monitor_key \<Rightarrow> string \<Rightarrow> (monitor_key \<times> string) option" where
  "enrich alloc s key description =
     (case rp_modules s of
        None \<Rightarrow> Some (key, description)
      | Some modules \<Rightarrow>
          case find_error modules (key_mid key) (key_eid key) of
            None \<Rightarrow> Some (key, description)
          | Some err \<Rightarrow>
              if \<not> alloc Metadata_Copy then None
              else
                let key = MonitorKey (key_mid key) (err_level err) (key_fid key) (key_eid key)
                in Some (key, if err_description err \<noteq> [] then err_description err else description))"

definition report_count ::
    "(report_site \<Rightarrow> bool) \<Rightarrow> 'e monitor_reporter \<Rightarrow> 'e \<Rightarrow> monitor_key \<Rightarrow> u32 \<Rightarrow> string \<Rightarrow> int
     \<Rightarrow> 'e monitor_reporter \<times> 'e \<times> update_result option" where
  "report_count alloc s e key v description timestamp =
     (case enrich alloc s key description of
        None \<Rightarrow> (s, e, None)
      | Some (key, description) \<Rightarrow>
          reporter_update alloc s e
            \<lparr>md_key = key, md_description = description, md_value = VNumeric \<lparr>num_value = v, num_state = 0\<rparr>\<rparr> False timestamp)"

definition report_string ::
    "(report_site \<Rightarrow> bool) \<Rightarrow> 'e monitor_reporter \<Rightarrow> 'e \<Rightarrow> monitor_key \<Rightarrow> string \<Rightarrow> string \<Rightarrow> int
     \<Rightarrow> 'e monitor_reporter \<times> 'e \<times> update_result option" where
  "report_string alloc s e key v description timestamp =
     (case enrich alloc s key description of
        None \<Rightarrow> (s, e, None)
      | Some (key, description) \<Rightarrow>
          reporter_update alloc s e \<lparr>md_key = key, md_description = description, md_value = VString v\<rparr> False timestamp)"

text \<open>The callback given to the store: it passes the candidate on and asks whether it is durable.\<close>

definition alarm_prepare ::
    "(report_site \<Rightarrow> bool) \<Rightarrow> 'e alarm_publisher \<Rightarrow> 'e \<Rightarrow> stored_record \<Rightarrow> 'e \<times> bool option" where
  "alarm_prepare alloc p e candidate =
     (if \<not> alloc Argument_Copy then (e, None)
      else case p e candidate of (e, r) \<Rightarrow> (e, map_option durable r))"

definition report_error ::
    "(report_site \<Rightarrow> bool) \<Rightarrow> 'e monitor_reporter \<Rightarrow> 'e \<Rightarrow> monitor_key \<Rightarrow> u32 \<Rightarrow> string \<Rightarrow> int
     \<Rightarrow> 'e monitor_reporter \<times> 'e \<times> update_result option" where
  "report_error alloc s e key v description timestamp =
     (case enrich alloc s key description of
        None \<Rightarrow> (s, e, None)
      | Some (key, description) \<Rightarrow>
          let data = \<lparr>md_key = key, md_description = description, md_value = VNumeric \<lparr>num_value = v, num_state = 2\<rparr>\<rparr>
          in if \<not> alloc Alarm_Publisher_Copy
             then (s, e, Some \<lparr>upd_status = DURABILITY_FAILED, upd_record = None\<rparr>)
             else
               case rp_alarm_publisher s of
                 None \<Rightarrow> reporter_update alloc s e data True timestamp
               | Some p \<Rightarrow>
                   if \<not> alloc Prepare_Build
                   then (s, e, Some \<lparr>upd_status = DURABILITY_FAILED, upd_record = None\<rparr>)
                   else
                     let (store, e, r) = store_update_prepared (alloc \<circ> Store_Site) (rp_store s) e data True timestamp
                           (Some (alarm_prepare alloc p))
                     in (s\<lparr>rp_store := store\<rparr>, e, r))"

section \<open>What a report stores and publishes\<close>

definition report_changed :: "update_result option \<Rightarrow> bool" where
  "report_changed r \<longleftrightarrow> (\<exists>u. r = Some u \<and> update_changed u)"

text \<open>A plain update writes the record exactly when it reports a change.\<close>

lemma store_update_step:
  assumes inv: "store_inv s" and up: "store_update alloc s data force ts = (s', r)"
  defines "c \<equiv> \<lparr>sr_data = data, sr_changed_at = ts\<rparr>"
  shows "store_inv s'" and "report_changed r \<Longrightarrow> upd_record (the r) = Some c
      \<and> store_find s' = (store_find s)(md_key data \<mapsto> c)" and "\<not> report_changed r \<Longrightarrow> s' = s"
proof -
  obtain e where impl: "store_update_impl alloc s () data force ts No_Prepare = (s', e, r)"
    using up by (auto simp: store_update_def split: prod.split_asm)
  have "store_inv s' \<and> (report_changed r \<longrightarrow> upd_record (the r) = Some c
      \<and> store_find s' = (store_find s)(md_key data \<mapsto> c)) \<and> (\<not> report_changed r \<longrightarrow> s' = s)"
  proof (cases "wants_write s data force")
    case False
    with impl store_update_impl_idle [OF False, of alloc "()" ts No_Prepare] inv show ?thesis
      by (auto simp: report_changed_def update_changed_def)
  next
    case True
    have "md_value data \<noteq> Valueless" using True by (simp add: wants_write_def)
    then have "store_inv (s\<lparr>ms_records := omap_set (md_key data) c (ms_records s)\<rparr>)"
      using inv by (intro store_inv_set) (simp_all add: c_def)
    moreover have "store_find (s\<lparr>ms_records := omap_set (md_key data) c (ms_records s)\<rparr>) = (store_find s)(md_key data \<mapsto> c)"
      by (simp add: store_find_def fun_eq_iff)
    ultimately show ?thesis
      using impl inv unfolding store_update_impl_write [OF inv True] run_prepare_def c_def
      by (auto simp: report_changed_def update_changed_def split: if_split_asm)
  qed
  then show "store_inv s'" "report_changed r \<Longrightarrow> upd_record (the r) = Some c
      \<and> store_find s' = (store_find s)(md_key data \<mapsto> c)" "\<not> report_changed r \<Longrightarrow> s' = s" by blast+
qed

text \<open>A publisher that keeps what it is given; it may throw at will and does not touch the store.\<close>

definition keeping :: "(stored_record list \<Rightarrow> stored_record \<Rightarrow> bool) \<Rightarrow> stored_record list publisher" where
  "keeping returns store log r = (store, log @ [r], returns log r)"

datatype report =
    Report_Count monitor_key u32 string int
  | Report_String monitor_key string string int
  | Report_Error monitor_key u32 string int

fun run_report :: "report \<Rightarrow> 'e monitor_reporter \<Rightarrow> 'e \<Rightarrow> 'e monitor_reporter \<times> 'e \<times> update_result option" where
  "run_report (Report_Count key v d ts) s e = report_count (\<lambda>_. True) s e key v d ts"
| "run_report (Report_String key v d ts) s e = report_string (\<lambda>_. True) s e key v d ts"
| "run_report (Report_Error key v d ts) s e = report_error (\<lambda>_. True) s e key v d ts"

fun run_reports :: "report list \<Rightarrow> 'e monitor_reporter \<Rightarrow> 'e \<Rightarrow> 'e monitor_reporter \<times> 'e" where
  "run_reports [] s e = (s, e)"
| "run_reports (rep # reps) s e = (let (s, e, _) = run_report rep s e in run_reports reps s e)"

text \<open>
  An alarm publisher that keeps the records it makes durable; it may refuse or throw at will.
\<close>

definition keeping_alarm ::
    "(stored_record list \<Rightarrow> stored_record \<Rightarrow> alarm_enqueue_result option) \<Rightarrow> stored_record list alarm_publisher" where
  "keeping_alarm answer log c = (if map_option durable (answer log c) = Some True then log @ [c] else log, answer log c)"

lemma alarm_prepare_keeping:
  "alarm_prepare (\<lambda>_. True) (keeping_alarm answer) = log_prepare (\<lambda>log c. map_option durable (answer log c))"
  by (simp add: fun_eq_iff alarm_prepare_def keeping_alarm_def log_prepare_def)

definition mirrors ::
    "(stored_record list \<Rightarrow> stored_record \<Rightarrow> bool) \<Rightarrow> (stored_record list \<Rightarrow> stored_record \<Rightarrow> alarm_enqueue_result option)
     \<Rightarrow> stored_record list monitor_reporter \<Rightarrow> stored_record list \<Rightarrow> bool" where
  "mirrors returns answer s log \<longleftrightarrow> store_inv (rp_store s) \<and> store_find (rp_store s) = replay log
     \<and> rp_publisher s = Some (keeping returns) \<and> rp_alarm_publisher s \<in> {None, Some (keeping_alarm answer)}"

lemma reporter_update_mirrors:
  assumes m: "mirrors returns answer s log" and up: "reporter_update (\<lambda>_. True) s log data force ts = (s', log', r)"
  shows "mirrors returns answer s' log'"
proof -
  obtain store r0 where st: "store_update ((\<lambda>_. True) \<circ> Store_Site) (rp_store s) data force ts = (store, r0)" by force
  have inv: "store_inv (rp_store s)" using m by (simp add: mirrors_def)
  note step = store_update_step [OF inv st]
  show ?thesis
  proof (cases "report_changed r0")
    case True
    then obtain u where u: "r0 = Some u" "upd_status u = INSERTED \<or> upd_status u = UPDATED"
      by (auto simp: report_changed_def update_changed_def)
    let ?c = "\<lparr>sr_data = data, sr_changed_at = ts\<rparr>"
    have c: "upd_record u = Some ?c" "store_find store = (store_find (rp_store s))(md_key data \<mapsto> ?c)"
      using step(2) [OF True] u(1) by simp_all
    have "(s', log') = (s\<lparr>rp_store := store\<rparr>, log @ [?c])"
      using up st u c(1) m by (auto simp: reporter_update_def mirrors_def keeping_def)
    then show ?thesis using m step(1) c(2) by (simp add: mirrors_def replay_snoc)
  next
    case False
    then have "store = rp_store s" by (rule step(3))
    moreover have "s' = s\<lparr>rp_store := store\<rparr> \<and> log' = log"
      using up st False
      by (cases r0; cases "upd_record (the r0)")
        (simp_all add: reporter_update_def report_changed_def update_changed_def)
    ultimately show ?thesis using m by (simp add: mirrors_def)
  qed
qed

lemma report_error_mirrors:
  assumes m: "mirrors returns answer s log" and up: "report_error (\<lambda>_. True) s log key v d ts = (s', log', r)"
  shows "mirrors returns answer s' log'"
proof (cases "rp_alarm_publisher s")
  case None
  obtain data force ts where "reporter_update (\<lambda>_. True) s log data force ts = (s', log', r)
      \<or> (s', log') = (s, log)"
    using up None by (auto simp: report_error_def split: option.split_asm)
  with reporter_update_mirrors [OF m] m show ?thesis by auto
next
  case (Some p)
  then have p: "p = keeping_alarm answer" using m by (simp add: mirrors_def)
  show ?thesis
  proof (cases "enrich (\<lambda>_. True) s key d")
    case None
    with up m show ?thesis by (simp add: report_error_def)
  next
    case kd: (Some kd)
    obtain key' d' where kd': "kd = (key', d')" by force
    let ?data = "\<lparr>md_key = key', md_description = d', md_value = VNumeric \<lparr>num_value = v, num_state = 2\<rparr>\<rparr>"
    obtain store e1 r1 where st: "store_update_prepared ((\<lambda>_. True) \<circ> Store_Site) (rp_store s) log ?data True ts
        (Some (log_prepare (\<lambda>log c. map_option durable (answer log c)))) = (store, e1, r1)" by (metis prod.exhaust)
    have eq: "s' = s\<lparr>rp_store := store\<rparr>" "log' = e1"
      using up Some kd kd' st by (auto simp: report_error_def Let_def p alarm_prepare_keeping)
    have "store_inv store \<and> store_find store = replay e1"
      by (rule store_step_log [OF _ _ st]) (use m in \<open>simp_all add: mirrors_def\<close>)
    with m eq show ?thesis by (simp add: mirrors_def)
  qed
qed

lemma run_report_mirrors:
  assumes "mirrors returns answer s log" and "run_report rep s log = (s', log', r)"
  shows "mirrors returns answer s' log'"
proof (cases "\<exists>key v d ts. rep = Report_Error key v d ts")
  case True
  with assms report_error_mirrors show ?thesis by (metis run_report.simps(3))
next
  case False
  then obtain data force ts where "reporter_update (\<lambda>_. True) s log data force ts = (s', log', r)
      \<or> (s', log') = (s, log)"
    using assms(2)
    by (cases rep) (auto simp: report_count_def report_string_def split: option.split_asm)
  with reporter_update_mirrors [OF assms(1)] assms(1) show ?thesis by auto
qed

lemma run_reports_mirrors:
  "mirrors returns answer s log \<Longrightarrow> mirrors returns answer (fst (run_reports reps s log)) (snd (run_reports reps s log))"
proof (induction reps s log rule: run_reports.induct)
  case (2 rep reps s log)
  obtain s' log' r where st: "run_report rep s log = (s', log', r)" by (metis prod.exhaust)
  with run_report_mirrors [OF 2(2) st] 2(1) [OF st [symmetric] refl] show ?case by simp
qed simp

section \<open>Properties\<close>

text \<open>
  C7. A reliable error report is durable before it is visible. With an alarm publisher in place,
  a report that tells of a change was first given, as the complete candidate with the metadata
  of its module, to that publisher, which answered that the record is durable; only then the
  store holds it, and nothing else changed. In every other outcome (memory, a refusal or an
  exception of the publisher) the store is exactly as before, so the same report can be retried.
\<close>

theorem report_error_durable_first:
  assumes "store_inv (rp_store s)" and "rp_alarm_publisher s = Some p"
    and "report_error alloc s e key v d ts = (s', e', r)"
  shows "store_inv (rp_store s') \<and>
    (if report_changed r
     then \<exists>key' d' q. enrich alloc s key d = Some (key', d')
       \<and> (let c = \<lparr>sr_data = \<lparr>md_key = key', md_description = d', md_value = VNumeric \<lparr>num_value = v, num_state = 2\<rparr>\<rparr>,
                    sr_changed_at = ts\<rparr>
          in p e c = (e', Some q) \<and> enq_status q = ENQ_SUCCESS
             \<and> store_find (rp_store s') = (store_find (rp_store s))(key' \<mapsto> c))
     else rp_store s' = rp_store s)"
proof (cases "enrich alloc s key d")
  case None
  with assms show ?thesis by (auto simp: report_error_def report_changed_def)
next
  case (Some kd)
  obtain key' d' where kd: "kd = (key', d')" by force
  let ?data = "\<lparr>md_key = key', md_description = d', md_value = VNumeric \<lparr>num_value = v, num_state = 2\<rparr>\<rparr>"
  show ?thesis
  proof (cases "alloc Alarm_Publisher_Copy \<and> alloc Prepare_Build")
    case False
    then have "s' = s" "r = Some \<lparr>upd_status = DURABILITY_FAILED, upd_record = None\<rparr>"
      using assms(2,3) Some kd
      by (cases "alloc Alarm_Publisher_Copy"; simp add: report_error_def Let_def)+
    with assms(1) show ?thesis by (simp add: report_changed_def update_changed_def)
  next
    case True
    obtain store e1 r1 where st: "store_update_prepared (alloc \<circ> Store_Site) (rp_store s) e ?data True ts
        (Some (alarm_prepare alloc p)) = (store, e1, r1)" by (metis prod.exhaust)
    have eq: "s' = s\<lparr>rp_store := store\<rparr>" "e' = e1" "r = r1"
      using assms(2,3) Some kd True st by (auto simp: report_error_def Let_def)
    note step = store_prepared_step [OF assms(1) st]
    have "\<exists>q. p e c = (e', Some q) \<and> enq_status q = ENQ_SUCCESS" if "alarm_prepare alloc p e c = (e1, Some True)" for c
      using that eq by (auto simp: alarm_prepare_def durable_def split: if_split_asm prod.split_asm)
    with step eq Some kd show ?thesis by (auto simp: report_changed_def Let_def)
  qed
qed

theorem report_error_durable_first_witness:
  "\<exists>s' e' r. report_error (\<lambda>_. True)
       (set_alarm_publisher (new_reporter new_store None) (Some (\<lambda>e c. (e + 1, Some \<lparr>enq_status = ENQ_SPOOL_FULL, enq_system_error = 0\<rparr>))))
       (0 :: nat) (MonitorKey 1 2 3 4) 5 ''disk'' 9 = (s', e', r) \<and> rp_store s' = new_store \<and> e' = 1"
proof -
  let ?s = "set_alarm_publisher (new_reporter new_store None)
      (Some (\<lambda>e c. (e + 1, Some \<lparr>enq_status = ENQ_SPOOL_FULL, enq_system_error = 0\<rparr>))) :: nat monitor_reporter"
  let ?run = "report_error (\<lambda>_. True) ?s (0 :: nat) (MonitorKey 1 2 3 4) 5 ''disk'' 9"
  have e: "fst (snd ?run) = 1" and r: "snd (snd ?run) = Some \<lparr>upd_status = DURABILITY_FAILED, upd_record = None\<rparr>"
    by code_simp+
  obtain s' e' r' where run: "?run = (s', e', r')" by (metis prod.exhaust)
  have "store_inv (rp_store ?s)" by (simp add: set_alarm_publisher_def new_reporter_def store_inv_new)
  moreover have "rp_alarm_publisher ?s = Some (\<lambda>e c. (e + 1, Some \<lparr>enq_status = ENQ_SPOOL_FULL, enq_system_error = 0\<rparr>))"
    by (simp add: set_alarm_publisher_def)
  ultimately have "rp_store s' = rp_store ?s"
    using report_error_durable_first [OF _ _ run] r run by (auto simp: report_changed_def update_changed_def)
  with e run show ?thesis by (simp add: set_alarm_publisher_def new_reporter_def)
qed

text \<open>
  C34. What is published mirrors the store. While memory is available and the publishers do not
  themselves write to the store, over any sequence of counts, strings and errors reported on a
  fresh reporter, the records handed to the plain publisher and those the alarm publisher made
  durable, in the order of the reports, give exactly the content of the store when applied one
  after the other. This holds for every module registry, with and without an alarm publisher,
  whether or not the plain publisher throws, and whatever the alarm publisher refuses.
\<close>

theorem reports_mirror_store:
  fixes reps :: "report list" and modules :: "monitor_module_registry option" and reliable :: bool
    and returns :: "stored_record list \<Rightarrow> stored_record \<Rightarrow> bool"
    and answer :: "stored_record list \<Rightarrow> stored_record \<Rightarrow> alarm_enqueue_result option"
  defines "start \<equiv> set_alarm_publisher (set_publisher (new_reporter new_store modules) (Some (keeping returns)))
      (if reliable then Some (keeping_alarm answer) else None)"
  shows "store_find (rp_store (fst (run_reports reps start []))) = replay (snd (run_reports reps start []))"
proof -
  have "store_find new_store = replay []" by (simp add: store_find_def new_store_def replay_def fun_eq_iff)
  then have "mirrors returns answer start []"
    by (simp add: mirrors_def start_def set_publisher_def set_alarm_publisher_def new_reporter_def store_inv_new)
  from run_reports_mirrors [OF this] show ?thesis by (simp add: mirrors_def)
qed

end
