(* ===== verification/Monitor_Wire.thy ===== *)
theory Monitor_Wire
  imports Byte_Codec Monitor_Data
begin

text \<open>
  The datagram formats of \<^verbatim>\<open>src/monitor/monitor_wire.cpp\<close>: version 1 (18-byte
  header, no description, no time) and version 2 (40-byte header, description,
  value and change time). Encoders and decoders are transcribed with every
  check in source order. A result is an option: \<^term>\<open>None\<close> is an access outside the
  datagram, so the totality lemmas are the memory-safety statements.
\<close>

section \<open>Constants\<close>

definition V1_HEADER_SIZE :: nat where [simp]: "V1_HEADER_SIZE = 18"
definition V1_NUMERIC_DATAGRAM_SIZE :: nat where [simp]: "V1_NUMERIC_DATAGRAM_SIZE = 26"
definition V1_MAX_DATAGRAM_SIZE :: nat where [simp]: "V1_MAX_DATAGRAM_SIZE = 82"
definition V2_HEADER_SIZE :: nat where [simp]: "V2_HEADER_SIZE = 40"
definition V2_MAX_DATAGRAM_SIZE :: nat where [simp]: "V2_MAX_DATAGRAM_SIZE = 1200"

definition V1_VERSION_OFFSET :: nat where [simp]: "V1_VERSION_OFFSET = 0"
definition V1_TYPE_OFFSET :: nat where [simp]: "V1_TYPE_OFFSET = 1"
definition V1_MID_OFFSET :: nat where [simp]: "V1_MID_OFFSET = 2"
definition V1_FID_OFFSET :: nat where [simp]: "V1_FID_OFFSET = 6"
definition V1_EID_OFFSET :: nat where [simp]: "V1_EID_OFFSET = 10"
definition V1_LEVEL_OFFSET :: nat where [simp]: "V1_LEVEL_OFFSET = 14"
definition V1_VALUE_OFFSET :: nat where [simp]: "V1_VALUE_OFFSET = 18"
definition V1_STATE_OFFSET :: nat where [simp]: "V1_STATE_OFFSET = 22"
definition V1_MAX_STRING_CONTENT_SIZE :: nat where
  [simp]: "V1_MAX_STRING_CONTENT_SIZE = V1_MAX_DATAGRAM_SIZE - V1_HEADER_SIZE - 1"

definition V2_VERSION_OFFSET :: nat where [simp]: "V2_VERSION_OFFSET = 0"
definition V2_TYPE_OFFSET :: nat where [simp]: "V2_TYPE_OFFSET = 1"
definition V2_FLAGS_OFFSET :: nat where [simp]: "V2_FLAGS_OFFSET = 2"
definition V2_TOTAL_LENGTH_OFFSET :: nat where [simp]: "V2_TOTAL_LENGTH_OFFSET = 4"
definition V2_HEADER_LENGTH_OFFSET :: nat where [simp]: "V2_HEADER_LENGTH_OFFSET = 6"
definition V2_MID_OFFSET :: nat where [simp]: "V2_MID_OFFSET = 8"
definition V2_LEVEL_OFFSET :: nat where [simp]: "V2_LEVEL_OFFSET = 12"
definition V2_FID_OFFSET :: nat where [simp]: "V2_FID_OFFSET = 16"
definition V2_EID_OFFSET :: nat where [simp]: "V2_EID_OFFSET = 20"
definition V2_SECONDS_OFFSET :: nat where [simp]: "V2_SECONDS_OFFSET = 24"
definition V2_NANOSECONDS_OFFSET :: nat where [simp]: "V2_NANOSECONDS_OFFSET = 32"
definition V2_DESCRIPTION_LENGTH_OFFSET :: nat where
  [simp]: "V2_DESCRIPTION_LENGTH_OFFSET = 36"
definition V2_VALUE_LENGTH_OFFSET :: nat where [simp]: "V2_VALUE_LENGTH_OFFSET = 38"
definition V2_CURRENT_FLAGS :: u16 where [simp]: "V2_CURRENT_FLAGS = 0"
definition V2_NUMERIC_PAYLOAD_SIZE :: nat where [simp]: "V2_NUMERIC_PAYLOAD_SIZE = 8"
definition V2_NUMERIC_VALUE_OFFSET :: nat where [simp]: "V2_NUMERIC_VALUE_OFFSET = 0"
definition V2_NUMERIC_STATE_OFFSET :: nat where [simp]: "V2_NUMERIC_STATE_OFFSET = 4"
definition NANOSECONDS_PER_SECOND :: int where "NANOSECONDS_PER_SECOND = 1000000000"

text \<open>
  \<^verbatim>\<open>WireVersion\<close> and \<^verbatim>\<open>WireValueType\<close> are enumerations over \<^verbatim>\<open>std::uint8_t\<close> that the
  code casts from and to raw bytes; they are their underlying values.
\<close>

type_synonym wire_version = u8
definition V1 :: wire_version where [simp]: "V1 = 1"
definition V2 :: wire_version where [simp]: "V2 = 2"

type_synonym wire_value_type = u8
definition NUMERIC :: wire_value_type where [simp]: "NUMERIC = 0"
definition STRING :: wire_value_type where [simp]: "STRING = 1"

datatype wire_status =
  WIRE_SUCCESS | EMPTY_INPUT | WRONG_VERSION | INVALID_TYPE | INVALID_FLAGS | SHORT_HEADER
  | INVALID_HEADER_LENGTH | INVALID_TOTAL_LENGTH | INVALID_FIELD_LENGTH | INVALID_TIMESTAMP
  | STRING_TOO_LONG | DATAGRAM_TOO_LARGE

record decoded_record =
  dr_version :: wire_version
  dr_data :: monitor_data
  dr_changed_at :: "int option"

record encode_result =
  enc_status :: wire_status
  enc_bytes :: bytes

record decode_result =
  dec_status :: wire_status
  dec_record :: "decoded_record option"

record timestamp_parts =
  tp_seconds :: int
  tp_nanoseconds :: u32

record v2_header =
  h_type :: wire_value_type
  h_flags :: u16
  h_total_length :: u16
  h_header_length :: u16
  h_key :: monitor_key
  h_seconds :: int
  h_nanoseconds :: u32
  h_description_length :: u16
  h_value_length :: u16

record v2_header_result =
  vhr_status :: wire_status
  vhr_header :: "v2_header option"

definition make_encode_error :: "wire_status \<Rightarrow> encode_result" where
  "make_encode_error st = \<lparr>enc_status = st, enc_bytes = []\<rparr>"

definition make_decode_error :: "wire_status \<Rightarrow> decode_result" where
  "make_decode_error st = \<lparr>dec_status = st, dec_record = None\<rparr>"

definition make_v2_header_error :: "wire_status \<Rightarrow> v2_header_result" where
  "make_v2_header_error st = \<lparr>vhr_status = st, vhr_header = None\<rparr>"

section \<open>Timestamps\<close>

definition is_valid_nanoseconds :: "u32 \<Rightarrow> bool" where
  "is_valid_nanoseconds ns \<longleftrightarrow> ns < 1000000000"

definition split_timestamp :: "int \<Rightarrow> timestamp_parts" where
  "split_timestamp total_ns =
     (let seconds = c_div total_ns NANOSECONDS_PER_SECOND;
          nanoseconds = c_mod total_ns NANOSECONDS_PER_SECOND
      in if nanoseconds < 0
         then \<lparr>tp_seconds = seconds - 1,
               tp_nanoseconds = word_of_int (nanoseconds + NANOSECONDS_PER_SECOND)\<rparr>
         else \<lparr>tp_seconds = seconds, tp_nanoseconds = word_of_int nanoseconds\<rparr>)"

definition timestamp_parts_less :: "timestamp_parts \<Rightarrow> timestamp_parts \<Rightarrow> bool" where
  "timestamp_parts_less l r \<longleftrightarrow>
     tp_seconds l < tp_seconds r
     \<or> tp_seconds l = tp_seconds r \<and> tp_nanoseconds l < tp_nanoseconds r"

definition INT64_MIN :: int where "INT64_MIN = - 9223372036854775808"
definition INT64_MAX :: int where "INT64_MAX = 9223372036854775807"

text \<open>
  The outer option is the undefined behaviour of a signed overflow, the inner one the
  \<^verbatim>\<open>std::nullopt\<close> of a pair that is not a timestamp.
\<close>

definition join_timestamp :: "int \<Rightarrow> u32 \<Rightarrow> int option option" where
  "join_timestamp seconds nanoseconds =
     (if \<not> is_valid_nanoseconds nanoseconds then Some None
      else let inp = \<lparr>tp_seconds = seconds, tp_nanoseconds = nanoseconds\<rparr>;
               minimum = split_timestamp INT64_MIN;
               maximum = split_timestamp INT64_MAX
           in if timestamp_parts_less inp minimum \<or> timestamp_parts_less maximum inp then Some None
              else if seconds = tp_seconds minimum
              then let delta = nanoseconds - tp_nanoseconds minimum
                   in map_option Some (i64_add INT64_MIN (uint delta))
              else do {
                total_nanoseconds \<leftarrow> i64_mul seconds NANOSECONDS_PER_SECOND;
                map_option Some (i64_add total_nanoseconds (uint nanoseconds)) })"

section \<open>Version 1\<close>

definition write_v1_header :: "bytes \<Rightarrow> wire_value_type \<Rightarrow> monitor_key \<Rightarrow> bytes option" where
  "write_v1_header b ty key = do {
     b \<leftarrow> set_byte b V1_VERSION_OFFSET V1;
     b \<leftarrow> set_byte b V1_TYPE_OFFSET ty;
     b \<leftarrow> put_u32 b V1_MID_OFFSET (key_mid key);
     b \<leftarrow> put_u32 b V1_FID_OFFSET (key_fid key);
     b \<leftarrow> put_u32 b V1_EID_OFFSET (key_eid key);
     put_u32 b V1_LEVEL_OFFSET (key_level key) }"

definition read_v1_key :: "bytes \<Rightarrow> monitor_key option" where
  "read_v1_key data = do {
     m \<leftarrow> get_u32 data V1_MID_OFFSET;
     l \<leftarrow> get_u32 data V1_LEVEL_OFFSET;
     f \<leftarrow> get_u32 data V1_FID_OFFSET;
     e \<leftarrow> get_u32 data V1_EID_OFFSET;
     Some (MonitorKey m l f e) }"

definition encode_v1 :: "stored_record \<Rightarrow> encode_result option" where
  "encode_v1 r =
     (case md_value (sr_data r) of
        VNumeric numeric \<Rightarrow> do {
          b \<leftarrow> write_v1_header (replicate V1_NUMERIC_DATAGRAM_SIZE 0) NUMERIC (md_key (sr_data r));
          b \<leftarrow> put_u32 b V1_VALUE_OFFSET (num_value numeric);
          b \<leftarrow> put_u32 b V1_STATE_OFFSET (num_state numeric);
          Some \<lparr>enc_status = WIRE_SUCCESS, enc_bytes = b\<rparr> }
      | VString sv \<Rightarrow>
          let terminator = str_find (CHR 0x00) sv;
              content_size = (case terminator of None \<Rightarrow> length sv | Some i \<Rightarrow> i)
          in if content_size > V1_MAX_STRING_CONTENT_SIZE
             then Some (make_encode_error STRING_TOO_LONG)
             else do {
               b \<leftarrow> write_v1_header (replicate (V1_HEADER_SIZE + content_size + 1) 0) STRING
                     (md_key (sr_data r));
               b \<leftarrow> copy_in b V1_HEADER_SIZE (bytes_of_string (take content_size sv));
               b \<leftarrow> set_byte b (V1_HEADER_SIZE + content_size) 0;
               Some \<lparr>enc_status = WIRE_SUCCESS, enc_bytes = b\<rparr> }
      | Valueless \<Rightarrow> Some (make_encode_error INVALID_TYPE))"

definition decode_v1_numeric :: "bytes \<Rightarrow> monitor_key \<Rightarrow> decode_result option" where
  "decode_v1_numeric data key =
     (if length data < V1_NUMERIC_DATAGRAM_SIZE
      then Some (make_decode_error INVALID_FIELD_LENGTH)
      else do {
        v \<leftarrow> get_u32 data V1_VALUE_OFFSET;
        st \<leftarrow> get_u32 data V1_STATE_OFFSET;
        Some \<lparr>dec_status = WIRE_SUCCESS,
              dec_record = Some \<lparr>dr_version = V1,
                dr_data = \<lparr>md_key = key, md_description = [],
                  md_value = VNumeric \<lparr>num_value = v, num_state = st\<rparr>\<rparr>,
                dr_changed_at = None\<rparr>\<rparr> })"

definition decode_v1_string :: "bytes \<Rightarrow> monitor_key \<Rightarrow> decode_result option" where
  "decode_v1_string data key =
     (let content_size = find_idx 0 (drop V1_HEADER_SIZE data)
      in if content_size > V1_MAX_STRING_CONTENT_SIZE
         then Some (make_decode_error STRING_TOO_LONG)
         else do {
           value \<leftarrow> copy_out data V1_HEADER_SIZE content_size;
           Some \<lparr>dec_status = WIRE_SUCCESS,
                 dec_record = Some \<lparr>dr_version = V1,
                   dr_data = \<lparr>md_key = key, md_description = [],
                     md_value = VString (string_of_bytes value)\<rparr>,
                   dr_changed_at = None\<rparr>\<rparr> })"

fun decode_v1 :: "buf \<Rightarrow> decode_result option" where
  "decode_v1 (NullPtr n) = Some (make_decode_error EMPTY_INPUT)"
| "decode_v1 (Ptr data) =
     (if length data = 0 then Some (make_decode_error EMPTY_INPUT)
      else do {
        ver \<leftarrow> byte_at data V1_VERSION_OFFSET;
        if ver \<noteq> V1 then Some (make_decode_error WRONG_VERSION)
        else if length data < V1_HEADER_SIZE then Some (make_decode_error SHORT_HEADER)
        else if length data > V1_MAX_DATAGRAM_SIZE
        then Some (make_decode_error DATAGRAM_TOO_LARGE)
        else do {
          raw_type \<leftarrow> byte_at data V1_TYPE_OFFSET;
          if raw_type \<noteq> NUMERIC \<and> raw_type \<noteq> STRING then Some (make_decode_error INVALID_TYPE)
          else do {
            key \<leftarrow> read_v1_key data;
            if raw_type = NUMERIC then decode_v1_numeric data key
            else decode_v1_string data key } } })"

section \<open>Version 2 header\<close>

text \<open>The writer returns its status and the datagram, which only success changes.\<close>

definition write_v2_header ::
  "bytes \<Rightarrow> stored_record \<Rightarrow> wire_value_type \<Rightarrow> nat \<Rightarrow> (wire_status \<times> bytes) option" where
  "write_v2_header d r ty value_length =
     (let description_length = length (md_description (sr_data r));
          total_length = V2_HEADER_SIZE + description_length + value_length;
          key = md_key (sr_data r);
          timestamp = split_timestamp (sr_changed_at r)
      in if description_length > 65535 \<or> value_length > 65535 then Some (INVALID_FIELD_LENGTH, d)
         else if total_length > V2_MAX_DATAGRAM_SIZE then Some (DATAGRAM_TOO_LARGE, d)
         else if length d \<noteq> total_length then Some (INVALID_TOTAL_LENGTH, d)
         else if ty \<noteq> NUMERIC \<and> ty \<noteq> STRING then Some (INVALID_TYPE, d)
         else if \<not> is_valid_nanoseconds (tp_nanoseconds timestamp)
         then Some (INVALID_TIMESTAMP, d)
         else do {
           d \<leftarrow> set_byte d V2_VERSION_OFFSET V2;
           d \<leftarrow> set_byte d V2_TYPE_OFFSET ty;
           d \<leftarrow> put_u16 d V2_FLAGS_OFFSET V2_CURRENT_FLAGS;
           d \<leftarrow> put_u16 d V2_TOTAL_LENGTH_OFFSET (word_of_nat total_length);
           d \<leftarrow> put_u16 d V2_HEADER_LENGTH_OFFSET (word_of_nat V2_HEADER_SIZE);
           d \<leftarrow> put_u32 d V2_MID_OFFSET (key_mid key);
           d \<leftarrow> put_u32 d V2_LEVEL_OFFSET (key_level key);
           d \<leftarrow> put_u32 d V2_FID_OFFSET (key_fid key);
           d \<leftarrow> put_u32 d V2_EID_OFFSET (key_eid key);
           d \<leftarrow> put_i64_twos_complement d V2_SECONDS_OFFSET (tp_seconds timestamp);
           d \<leftarrow> put_u32 d V2_NANOSECONDS_OFFSET (tp_nanoseconds timestamp);
           d \<leftarrow> put_u16 d V2_DESCRIPTION_LENGTH_OFFSET (word_of_nat description_length);
           d \<leftarrow> put_u16 d V2_VALUE_LENGTH_OFFSET (word_of_nat value_length);
           Some (WIRE_SUCCESS, d) })"

definition read_v2_fields :: "bytes \<Rightarrow> u8 \<Rightarrow> u16 \<Rightarrow> u16 \<Rightarrow> u16 \<Rightarrow> v2_header_result option" where
  "read_v2_fields data raw_type flags total_length header_length = do {
     nanoseconds \<leftarrow> get_u32 data V2_NANOSECONDS_OFFSET;
     if \<not> is_valid_nanoseconds nanoseconds then Some (make_v2_header_error INVALID_TIMESTAMP)
     else do {
       description_length \<leftarrow> get_u16 data V2_DESCRIPTION_LENGTH_OFFSET;
       value_length \<leftarrow> get_u16 data V2_VALUE_LENGTH_OFFSET;
       if unat description_length + unat value_length \<noteq> length data - V2_HEADER_SIZE
       then Some (make_v2_header_error INVALID_FIELD_LENGTH)
       else do {
         m \<leftarrow> get_u32 data V2_MID_OFFSET;
         l \<leftarrow> get_u32 data V2_LEVEL_OFFSET;
         f \<leftarrow> get_u32 data V2_FID_OFFSET;
         e \<leftarrow> get_u32 data V2_EID_OFFSET;
         seconds \<leftarrow> get_i64_twos_complement data V2_SECONDS_OFFSET;
         Some \<lparr>vhr_status = WIRE_SUCCESS,
           vhr_header = Some \<lparr>h_type = raw_type, h_flags = flags,
             h_total_length = total_length, h_header_length = header_length,
             h_key = MonitorKey m l f e, h_seconds = seconds, h_nanoseconds = nanoseconds,
             h_description_length = description_length, h_value_length = value_length\<rparr>\<rparr> } } }"

fun read_v2_header :: "buf \<Rightarrow> v2_header_result option" where
  "read_v2_header (NullPtr n) = Some (make_v2_header_error EMPTY_INPUT)"
| "read_v2_header (Ptr data) =
     (if length data = 0 then Some (make_v2_header_error EMPTY_INPUT)
      else do {
        ver \<leftarrow> byte_at data V2_VERSION_OFFSET;
        if ver \<noteq> V2 then Some (make_v2_header_error WRONG_VERSION)
        else if length data < V2_HEADER_SIZE then Some (make_v2_header_error SHORT_HEADER)
        else if length data > V2_MAX_DATAGRAM_SIZE
        then Some (make_v2_header_error DATAGRAM_TOO_LARGE)
        else do {
          raw_type \<leftarrow> byte_at data V2_TYPE_OFFSET;
          if raw_type \<noteq> NUMERIC \<and> raw_type \<noteq> STRING
          then Some (make_v2_header_error INVALID_TYPE)
          else do {
            flags \<leftarrow> get_u16 data V2_FLAGS_OFFSET;
            if flags \<noteq> V2_CURRENT_FLAGS then Some (make_v2_header_error INVALID_FLAGS)
            else do {
              total_length \<leftarrow> get_u16 data V2_TOTAL_LENGTH_OFFSET;
              header_length \<leftarrow> get_u16 data V2_HEADER_LENGTH_OFFSET;
              if unat header_length \<noteq> V2_HEADER_SIZE
              then Some (make_v2_header_error INVALID_HEADER_LENGTH)
              else if unat total_length > V2_MAX_DATAGRAM_SIZE
              then Some (make_v2_header_error DATAGRAM_TOO_LARGE)
              else if unat total_length < V2_HEADER_SIZE \<or> unat total_length \<noteq> length data
              then Some (make_v2_header_error INVALID_TOTAL_LENGTH)
              else read_v2_fields data raw_type flags total_length header_length } } } })"

section \<open>Version 2 datagrams\<close>

definition encode_v2_body ::
  "stored_record \<Rightarrow> wire_value_type \<Rightarrow> nat \<Rightarrow> (bytes \<Rightarrow> nat \<Rightarrow> bytes option) \<Rightarrow> encode_result option" where
  "encode_v2_body r ty value_length write_payload =
     (let description_length = length (md_description (sr_data r))
      in if description_length > V2_MAX_DATAGRAM_SIZE - V2_HEADER_SIZE
         then Some (make_encode_error DATAGRAM_TOO_LARGE)
         else if value_length > V2_MAX_DATAGRAM_SIZE - V2_HEADER_SIZE - description_length
         then Some (make_encode_error DATAGRAM_TOO_LARGE)
         else do {
           (header_status, b) \<leftarrow> write_v2_header
              (replicate (V2_HEADER_SIZE + description_length + value_length) 0) r ty value_length;
           if header_status \<noteq> WIRE_SUCCESS then Some (make_encode_error header_status)
           else do {
             b \<leftarrow> (if description_length \<noteq> 0
                   then copy_in b V2_HEADER_SIZE (bytes_of_string (md_description (sr_data r)))
                   else Some b);
             b \<leftarrow> write_payload b (V2_HEADER_SIZE + description_length);
             Some \<lparr>enc_status = WIRE_SUCCESS, enc_bytes = b\<rparr> } })"

definition encode_v2 :: "stored_record \<Rightarrow> encode_result option" where
  "encode_v2 r =
     (case md_value (sr_data r) of
        VNumeric numeric \<Rightarrow>
          encode_v2_body r NUMERIC V2_NUMERIC_PAYLOAD_SIZE (\<lambda>b payload. do {
            b \<leftarrow> put_u32 b (payload + V2_NUMERIC_VALUE_OFFSET) (num_value numeric);
            put_u32 b (payload + V2_NUMERIC_STATE_OFFSET) (num_state numeric) })
      | VString sv \<Rightarrow>
          encode_v2_body r STRING (length sv) (\<lambda>b payload.
            if length sv \<noteq> 0 then copy_in b payload (bytes_of_string sv) else Some b)
      | Valueless \<Rightarrow> Some (make_encode_error INVALID_TYPE))"

definition decode_v2_payload :: "bytes \<Rightarrow> v2_header \<Rightarrow> decode_result option" where
  "decode_v2_payload data h =
     (if h_type h = NUMERIC \<and> unat (h_value_length h) \<noteq> V2_NUMERIC_PAYLOAD_SIZE
      then Some (make_decode_error INVALID_FIELD_LENGTH)
      else case join_timestamp (h_seconds h) (h_nanoseconds h) of
        None \<Rightarrow> None
      | Some None \<Rightarrow> Some (make_decode_error INVALID_TIMESTAMP)
      | Some (Some timestamp) \<Rightarrow>
          let description_length = unat (h_description_length h);
              value_length = unat (h_value_length h);
              payload = V2_HEADER_SIZE + description_length;
              finish = (\<lambda>description v. Some \<lparr>dec_status = WIRE_SUCCESS,
                 dec_record = Some \<lparr>dr_version = V2,
                   dr_data = \<lparr>md_key = h_key h, md_description = description, md_value = v\<rparr>,
                   dr_changed_at = Some timestamp\<rparr>\<rparr>)
          in do {
            description \<leftarrow> map_option string_of_bytes
              (copy_out data V2_HEADER_SIZE description_length);
            if h_type h = NUMERIC then do {
              v \<leftarrow> get_u32 data (payload + V2_NUMERIC_VALUE_OFFSET);
              st \<leftarrow> get_u32 data (payload + V2_NUMERIC_STATE_OFFSET);
              finish description (VNumeric \<lparr>num_value = v, num_state = st\<rparr>) }
            else if h_type h = STRING then do {
              v \<leftarrow> copy_out data payload value_length;
              finish description (VString (string_of_bytes v)) }
            else Some (make_decode_error INVALID_TYPE) })"

definition decode_v2 :: "buf \<Rightarrow> decode_result option" where
  "decode_v2 inp = do {
     header_result \<leftarrow> read_v2_header inp;
     if vhr_status header_result \<noteq> WIRE_SUCCESS
     then Some (make_decode_error (vhr_status header_result))
     else case (inp, vhr_header header_result) of
        (Ptr data, Some h) \<Rightarrow> decode_v2_payload data h
      | _ \<Rightarrow> None }"

section \<open>Version dispatch\<close>

definition encode :: "stored_record \<Rightarrow> wire_version \<Rightarrow> encode_result option" where
  "encode r version =
     (if version = V1 then encode_v1 r
      else if version = V2 then encode_v2 r
      else Some (make_encode_error WRONG_VERSION))"

fun decode :: "buf \<Rightarrow> decode_result option" where
  "decode (NullPtr n) = Some (make_decode_error EMPTY_INPUT)"
| "decode (Ptr data) =
     (if length data = 0 then Some (make_decode_error EMPTY_INPUT)
      else do {
        ver \<leftarrow> byte_at data 0;
        if ver = V1 then decode_v1 (Ptr data)
        else if ver = V2 then decode_v2 (Ptr data)
        else Some (make_decode_error WRONG_VERSION) })"

section \<open>Timestamps: the split is Euclidean, the join is exact\<close>

text \<open>The normalisation of negative remainders makes the split Euclidean.\<close>

lemma split_timestamp_euclid:
  "split_timestamp t = \<lparr>tp_seconds = t div 1000000000,
     tp_nanoseconds = word_of_int (t mod 1000000000)\<rparr>"
proof (cases "0 \<le> t")
  case True
  then have "c_div t 1000000000 = t div 1000000000" "c_mod t 1000000000 = t mod 1000000000"
    using c_div_mod_nonneg [of t 1000000000] by simp_all
  then show ?thesis by (simp add: split_timestamp_def NANOSECONDS_PER_SECOND_def Let_def)
next
  case False
  define q where "q = c_div t 1000000000"
  define m where "m = c_mod t 1000000000"
  have q: "q = - ((- t) div 1000000000)"
    using False by (simp add: q_def c_div_neg)
  have m: "m = t - 1000000000 * q" by (simp add: m_def q_def c_mod_def)
  have "m = - ((- t) mod 1000000000)"
    unfolding m q by (simp add: minus_mult_div_eq_mod [symmetric])
  then have rng: "- 1000000000 < m" "m \<le> 0" by simp_all
  have t: "t = 1000000000 * q + m" by (simp add: m)
  show ?thesis
  proof (cases "m < 0")
    case True
    have "t = 1000000000 * (q - 1) + (m + 1000000000)" by (simp add: t)
    moreover have "0 \<le> m + 1000000000" "m + 1000000000 < 1000000000" using True rng by simp_all
    ultimately have "t div 1000000000 = q - 1" "t mod 1000000000 = m + 1000000000"
      by (metis div_mult_self4 mod_mult_self4 div_pos_pos_trivial mod_pos_pos_trivial add.commute
          add_0 zero_neq_numeral)+
    with True show ?thesis
      by (simp add: split_timestamp_def NANOSECONDS_PER_SECOND_def q_def [symmetric] m_def [symmetric])
  next
    case False
    with rng have "m = 0" by simp
    with t have "t div 1000000000 = q" "t mod 1000000000 = 0" by simp_all
    with \<open>m = 0\<close> show ?thesis
      by (simp add: split_timestamp_def NANOSECONDS_PER_SECOND_def q_def [symmetric] m_def [symmetric])
  qed
qed

lemma split_nanoseconds_valid: "is_valid_nanoseconds (tp_nanoseconds (split_timestamp t))"
proof -
  have "0 \<le> t mod 1000000000" "t mod 1000000000 < 1000000000" by simp_all
  then show ?thesis
    by (simp add: is_valid_nanoseconds_def split_timestamp_euclid word_less_def uint_word_of_int)
qed

lemma split_minimum: "split_timestamp INT64_MIN = \<lparr>tp_seconds = - 9223372037, tp_nanoseconds = 145224192\<rparr>"
  and split_maximum: "split_timestamp INT64_MAX = \<lparr>tp_seconds = 9223372036, tp_nanoseconds = 854775807\<rparr>"
  by (simp_all add: split_timestamp_euclid INT64_MIN_def INT64_MAX_def)

text \<open>
  The boundary comparison of the pair representation decides exactly whether
  the exact sum fits \<^verbatim>\<open>std::int64_t\<close>, and both arithmetic branches then give it.
\<close>

lemma timestamp_out_of_range:
  assumes "is_valid_nanoseconds n"
  shows "timestamp_parts_less \<lparr>tp_seconds = s, tp_nanoseconds = n\<rparr> (split_timestamp INT64_MIN)
      \<or> timestamp_parts_less (split_timestamp INT64_MAX) \<lparr>tp_seconds = s, tp_nanoseconds = n\<rparr>
      \<longleftrightarrow> \<not> is_int64 (s * 1000000000 + uint n)"
proof -
  define k where "k = uint n"
  have "0 \<le> k" "k < 1000000000"
    using assms by (simp_all add: k_def is_valid_nanoseconds_def word_less_def)
  then show ?thesis
    by (auto simp: timestamp_parts_less_def split_minimum split_maximum word_less_def
        k_def [symmetric] is_int64_def)
qed

lemma timestamp_minimum_second:
  assumes "is_int64 (- 9223372037 * 1000000000 + uint n)"
  shows "i64_add INT64_MIN (uint (n - 145224192 :: u32)) = Some (- 9223372037 * 1000000000 + uint n)"
proof -
  have "145224192 \<le> uint n" using assms by (simp add: is_int64_def)
  then have "uint (n - 145224192) = uint n - 145224192" by (simp add: uint_sub_if')
  with assms show ?thesis by (simp add: INT64_MIN_def i64_add_def)
qed

lemma timestamp_product:
  assumes "is_int64 (s * 1000000000 + k)" and "0 \<le> k" and "k < 1000000000" and "s \<noteq> - 9223372037"
  shows "is_int64 (s * 1000000000)"
proof -
  have "- 9223372037 \<le> s"
  proof (rule ccontr)
    assume "\<not> - 9223372037 \<le> s"
    then have "s \<le> - 9223372038" by simp
    with assms(1,3) show False unfolding is_int64_def by linarith
  qed
  with assms(4) have "- 9223372036 \<le> s" by simp
  with assms(1,2) show ?thesis unfolding is_int64_def by linarith
qed

lemma join_timestamp_exact:
  "join_timestamp s n = Some
     (if is_valid_nanoseconds n \<and> is_int64 (s * 1000000000 + uint n)
      then Some (s * 1000000000 + uint n) else None)"
proof (cases "is_valid_nanoseconds n \<and> is_int64 (s * 1000000000 + uint n)")
  case False
  with timestamp_out_of_range [of n s] show ?thesis by (auto simp: join_timestamp_def Let_def)
next
  case True
  then have n: "is_valid_nanoseconds n" and r: "is_int64 (s * 1000000000 + uint n)" by blast+
  note out = timestamp_out_of_range [OF n, of s]
  show ?thesis
  proof (cases "s = - 9223372037")
    case minimum: True
    with n r out timestamp_minimum_second [of n] show ?thesis
      by (simp add: join_timestamp_def Let_def split_minimum)
  next
    case False
    have "uint n < 1000000000" using n by (simp add: is_valid_nanoseconds_def word_less_def)
    then have "is_int64 (s * 1000000000)" using timestamp_product [OF r] False by simp
    with False n r out show ?thesis
      by (simp add: join_timestamp_def Let_def split_minimum i64_mul_def i64_add_def NANOSECONDS_PER_SECOND_def)
  qed
qed

lemma join_split_timestamp:
  "is_int64 t \<Longrightarrow>
     join_timestamp (tp_seconds (split_timestamp t)) (tp_nanoseconds (split_timestamp t)) = Some (Some t)"
proof -
  assume t: "is_int64 t"
  have "uint (word_of_int (t mod 1000000000) :: u32) = t mod 1000000000"
    by (simp add: uint_word_of_int)
  then show ?thesis
    using t split_nanoseconds_valid [of t]
    by (simp add: join_timestamp_exact split_timestamp_euclid)
qed

lemma split_join_timestamp:
  "join_timestamp s n = Some (Some t) \<Longrightarrow>
     is_int64 t \<and> split_timestamp t = \<lparr>tp_seconds = s, tp_nanoseconds = n\<rparr>"
proof -
  assume "join_timestamp s n = Some (Some t)"
  then have v: "is_valid_nanoseconds n" and r: "is_int64 t" and t: "t = s * 1000000000 + uint n"
    by (auto simp: join_timestamp_exact split: if_splits)
  have "0 \<le> uint n" "uint n < 1000000000"
    using v by (simp_all add: is_valid_nanoseconds_def word_less_def)
  then have "t div 1000000000 = s" "t mod 1000000000 = uint n"
    unfolding t by simp_all
  with r show ?thesis by (simp add: split_timestamp_euclid)
qed

lemma is_int64_seconds: "is_int64 t \<Longrightarrow> is_int64 (tp_seconds (split_timestamp t))"
proof -
  assume t: "is_int64 t"
  have "t = 1000000000 * (t div 1000000000) + t mod 1000000000"
    "0 \<le> t mod 1000000000" "t mod 1000000000 < 1000000000" by simp_all
  with t show ?thesis unfolding split_timestamp_euclid is_int64_def timestamp_parts.simps
    by linarith
qed

section \<open>Version 2: layout of the encoding\<close>

definition v2_value_type :: "monitor_value \<Rightarrow> wire_value_type" where
  "v2_value_type v = (case v of VNumeric _ \<Rightarrow> NUMERIC | _ \<Rightarrow> STRING)"

definition v2_payload :: "monitor_value \<Rightarrow> bytes" where
  "v2_payload v =
     (case v of VNumeric n \<Rightarrow> be32 (num_value n) @ be32 (num_state n)
      | VString s \<Rightarrow> bytes_of_string s | Valueless \<Rightarrow> [])"

definition v2_header_bytes :: "stored_record \<Rightarrow> wire_value_type \<Rightarrow> nat \<Rightarrow> bytes" where
  "v2_header_bytes r ty vl =
     [V2, ty] @ be16 0 @ be16 (word_of_nat (40 + length (md_description (sr_data r)) + vl))
     @ be16 40 @ be32 (key_mid (md_key (sr_data r))) @ be32 (key_level (md_key (sr_data r)))
     @ be32 (key_fid (md_key (sr_data r))) @ be32 (key_eid (md_key (sr_data r)))
     @ be64 (word_of_int (tp_seconds (split_timestamp (sr_changed_at r))))
     @ be32 (tp_nanoseconds (split_timestamp (sr_changed_at r)))
     @ be16 (word_of_nat (length (md_description (sr_data r)))) @ be16 (word_of_nat vl)"

definition v2_datagram :: "stored_record \<Rightarrow> bytes" where
  "v2_datagram r =
     v2_header_bytes r (v2_value_type (md_value (sr_data r))) (length (v2_payload (md_value (sr_data r))))
     @ bytes_of_string (md_description (sr_data r)) @ v2_payload (md_value (sr_data r))"

lemma length_v2_header_bytes [simp]: "length (v2_header_bytes r ty vl) = 40"
  by (simp add: v2_header_bytes_def)

lemma write_v2_header_layout:
  assumes "length (md_description (sr_data r)) + vl \<le> 1160" and "ty = 0 \<or> ty = 1"
  shows "write_v2_header (zpad [] (40 + length (md_description (sr_data r)) + vl)) r ty vl
    = Some (WIRE_SUCCESS, zpad (v2_header_bytes r ty vl) (length (md_description (sr_data r)) + vl))"
  using assms split_nanoseconds_valid [of "sr_changed_at r"]
  by (simp add: write_v2_header_def Let_def layout_simps put_i64_twos_complement_def v2_header_bytes_def)

lemma encode_v2_body_layout:
  assumes "length (md_description (sr_data r)) + vl \<le> 1160" and "ty = 0 \<or> ty = 1"
    and "\<And>p. length p = 40 + length (md_description (sr_data r)) \<Longrightarrow>
           write_payload (zpad p vl) (40 + length (md_description (sr_data r))) = Some (p @ pay)"
  shows "encode_v2_body r ty vl write_payload
    = Some \<lparr>enc_status = WIRE_SUCCESS,
        enc_bytes = v2_header_bytes r ty vl @ bytes_of_string (md_description (sr_data r)) @ pay\<rparr>"
proof (cases "md_description (sr_data r) = []")
  case True
  with assms(1,2) assms(3) [of "v2_header_bytes r ty vl"] write_v2_header_layout [OF assms(1,2)]
  show ?thesis by (simp add: encode_v2_body_def Let_def zpad_start)
next
  case False
  with assms show ?thesis
    by (simp add: encode_v2_body_def Let_def zpad_start write_v2_header_layout layout_simps)
qed

text \<open>What \<^const>\<open>encode_v2\<close> computes, on every branch.\<close>

lemma encode_v2_eq:
  "encode_v2 r =
     Some (if md_value (sr_data r) = Valueless then make_encode_error INVALID_TYPE
       else if 1160 < length (md_description (sr_data r)) + length (v2_payload (md_value (sr_data r)))
       then make_encode_error DATAGRAM_TOO_LARGE
       else \<lparr>enc_status = WIRE_SUCCESS, enc_bytes = v2_datagram r\<rparr>)"
proof (cases "md_value (sr_data r)")
  case (VNumeric n)
  show ?thesis
  proof (cases "length (md_description (sr_data r)) + 8 \<le> 1160")
    case True
    then show ?thesis
      using VNumeric
      by (simp add: encode_v2_def encode_v2_body_layout [where pay = "be32 (num_value n) @ be32 (num_state n)"]
          layout_simps v2_datagram_def v2_payload_def v2_value_type_def)
  next
    case False
    with VNumeric show ?thesis
      by (auto simp: encode_v2_def encode_v2_body_def Let_def v2_payload_def)
  qed
next
  case (VString s)
  show ?thesis
  proof (cases "length (md_description (sr_data r)) + length s \<le> 1160")
    case True
    then show ?thesis
      using VString
      by (cases "s = []") (simp_all add: encode_v2_def encode_v2_body_layout [where pay = "bytes_of_string s"]
          layout_simps v2_datagram_def v2_payload_def v2_value_type_def)
  next
    case False
    with VString show ?thesis
      by (auto simp: encode_v2_def encode_v2_body_def Let_def v2_payload_def)
  qed
next
  case Valueless
  then show ?thesis by (simp add: encode_v2_def)
qed

lemma read_v2_header_layout:
  assumes "length (md_description (sr_data r)) + vl \<le> 1160" and "ty = 0 \<or> ty = 1"
    and "length rest = length (md_description (sr_data r)) + vl"
    and "is_int64 (sr_changed_at r)"
  shows "read_v2_header (Ptr (v2_header_bytes r ty vl @ rest)) = Some \<lparr>vhr_status = WIRE_SUCCESS,
    vhr_header = Some \<lparr>h_type = ty, h_flags = 0,
      h_total_length = word_of_nat (40 + length (md_description (sr_data r)) + vl),
      h_header_length = 40, h_key = md_key (sr_data r),
      h_seconds = tp_seconds (split_timestamp (sr_changed_at r)),
      h_nanoseconds = tp_nanoseconds (split_timestamp (sr_changed_at r)),
      h_description_length = word_of_nat (length (md_description (sr_data r))),
      h_value_length = word_of_nat vl\<rparr>\<rparr>"
proof -
  have "unat (word_of_nat (40 + length (md_description (sr_data r)) + vl) :: u16)
      = 40 + length (md_description (sr_data r)) + vl"
    using assms(1) by (intro unat_of_nat_u16) simp
  moreover note assms split_nanoseconds_valid [of "sr_changed_at r"] is_int64_seconds [OF assms(4)]
  ultimately show ?thesis
  by (auto simp: v2_header_bytes_def read_v2_fields_def codec_simps get_i64_twos_complement_def
      i64_of_bits_word_of_int)
qed

lemma decode_v2_datagram:
  assumes "length (md_description (sr_data r)) + length (v2_payload (md_value (sr_data r))) \<le> 1160"
    and "is_int64 (sr_changed_at r)" and "md_value (sr_data r) \<noteq> Valueless"
  shows "decode_v2 (Ptr (v2_datagram r)) = Some \<lparr>dec_status = WIRE_SUCCESS,
    dec_record = Some \<lparr>dr_version = V2, dr_data = sr_data r, dr_changed_at = Some (sr_changed_at r)\<rparr>\<rparr>"
proof -
  have ty: "v2_value_type (md_value (sr_data r)) = 0 \<or> v2_value_type (md_value (sr_data r)) = 1"
    by (simp add: v2_value_type_def split: monitor_value.split)
  note hdr = read_v2_header_layout [OF assms(1) ty _ assms(2),
      of "bytes_of_string (md_description (sr_data r)) @ v2_payload (md_value (sr_data r))"]
  show ?thesis
    using assms hdr join_split_timestamp [OF assms(2)]
    by (cases "md_value (sr_data r)")
      (simp_all add: decode_v2_def v2_datagram_def decode_v2_payload_def Let_def v2_payload_def
        v2_value_type_def codec_simps)
qed

section \<open>Version 2: what a decoder accepts\<close>

text \<open>A well-formed header is the layout of the fields read from it.\<close>

definition v2_header_layout :: "v2_header \<Rightarrow> bytes" where
  "v2_header_layout h =
     [V2, h_type h] @ be16 (h_flags h) @ be16 (h_total_length h) @ be16 (h_header_length h)
     @ be32 (key_mid (h_key h)) @ be32 (key_level (h_key h)) @ be32 (key_fid (h_key h))
     @ be32 (key_eid (h_key h)) @ be64 (word_of_int (h_seconds h)) @ be32 (h_nanoseconds h)
     @ be16 (h_description_length h) @ be16 (h_value_length h)"

lemma take_header_slices:
  assumes "40 \<le> length bs"
  shows "take 40 bs = [bs ! 0, bs ! 1] @ take 2 (drop 2 bs) @ take 2 (drop 4 bs) @ take 2 (drop 6 bs)
    @ take 4 (drop 8 bs) @ take 4 (drop 12 bs) @ take 4 (drop 16 bs) @ take 4 (drop 20 bs)
    @ take 8 (drop 24 bs) @ take 4 (drop 32 bs) @ take 2 (drop 36 bs) @ take 2 (drop 38 bs)"
proof -
  have "take 40 bs = take (1 + (1 + (2 + (2 + (2 + (4 + (4 + (4 + (4 + (8 + (4 + (2 + 2)))))))))))) bs"
    by simp
  moreover have "take 1 bs = [bs ! 0]"
    using assms by (cases bs) auto
  moreover have "take 1 (drop 1 bs) = [bs ! 1]"
    using assms slice_Cons [of 1 bs 0] by simp
  ultimately show ?thesis
    by (simp only: take_add drop_drop append_Cons append_Nil append_assoc)
      (simp add: numeral_2_eq_2 [symmetric])
qed

text \<open>The header a datagram declares, read slice by slice.\<close>

definition v2_header_of :: "bytes \<Rightarrow> v2_header" where
  "v2_header_of bs = \<lparr>h_type = bs ! 1, h_flags = dec16 (take 2 (drop 2 bs)),
     h_total_length = dec16 (take 2 (drop 4 bs)), h_header_length = dec16 (take 2 (drop 6 bs)),
     h_key = MonitorKey (dec32 (take 4 (drop 8 bs))) (dec32 (take 4 (drop 12 bs)))
       (dec32 (take 4 (drop 16 bs))) (dec32 (take 4 (drop 20 bs))),
     h_seconds = i64_of_bits (dec64 (take 8 (drop 24 bs))),
     h_nanoseconds = dec32 (take 4 (drop 32 bs)),
     h_description_length = dec16 (take 2 (drop 36 bs)),
     h_value_length = dec16 (take 2 (drop 38 bs))\<rparr>"

lemma v2_header_layout_of:
  assumes "40 \<le> length bs" and "bs ! 0 = V2"
  shows "v2_header_layout (v2_header_of bs) = take 40 bs"
  unfolding take_header_slices [OF assms(1)] using assms
  by (simp add: v2_header_layout_def v2_header_of_def be_dec word_of_int_i64_of_bits)

definition v2_header_checks :: "bytes \<Rightarrow> bool" where
  "v2_header_checks bs \<longleftrightarrow> 40 \<le> length bs \<and> length bs \<le> 1200 \<and> bs ! 0 = V2
     \<and> (h_type (v2_header_of bs) = NUMERIC \<or> h_type (v2_header_of bs) = STRING)
     \<and> h_flags (v2_header_of bs) = V2_CURRENT_FLAGS
     \<and> unat (h_header_length (v2_header_of bs)) = 40
     \<and> unat (h_total_length (v2_header_of bs)) = length bs
     \<and> is_valid_nanoseconds (h_nanoseconds (v2_header_of bs))
     \<and> unat (h_description_length (v2_header_of bs)) + unat (h_value_length (v2_header_of bs))
         = length bs - 40"

lemma read_v2_header_ok:
  assumes "v2_header_checks bs"
  shows "read_v2_header (Ptr bs)
    = Some \<lparr>vhr_status = WIRE_SUCCESS, vhr_header = Some (v2_header_of bs)\<rparr>"
proof -
  from assms have "40 \<le> length bs" "bs \<noteq> []" and "bs ! 1 = 0 \<or> bs ! 1 = 1"
    by (auto simp: v2_header_checks_def v2_header_of_def)
  from this(3) show ?thesis
  proof
    assume "bs ! 1 = 0"
    with assms \<open>40 \<le> length bs\<close> \<open>bs \<noteq> []\<close> show ?thesis
      by (simp add: v2_header_checks_def v2_header_of_def read_v2_fields_def codec_simps
        get_i64_twos_complement_def)
  next
    assume "bs ! 1 = 1"
    with assms \<open>40 \<le> length bs\<close> \<open>bs \<noteq> []\<close> show ?thesis
      by (simp add: v2_header_checks_def v2_header_of_def read_v2_fields_def codec_simps
        get_i64_twos_complement_def)
  qed
qed

definition header_rejected :: "v2_header_result option \<Rightarrow> bool" where
  "header_rejected res \<longleftrightarrow> (\<exists>st. st \<noteq> WIRE_SUCCESS \<and> res = Some (make_v2_header_error st))"

lemma header_rejected_error [simp]:
  "header_rejected (Some (make_v2_header_error st)) \<longleftrightarrow> st \<noteq> WIRE_SUCCESS"
  by (auto simp: header_rejected_def make_v2_header_error_def)

lemma read_v2_header_error:
  assumes "\<not> v2_header_checks bs"
  shows "header_rejected (read_v2_header (Ptr bs))"
proof (cases "bs = [] \<or> bs ! 0 \<noteq> V2 \<or> length bs < 40 \<or> 1200 < length bs")
  case True
  then show ?thesis
    by (elim disjE; cases "bs = []"; cases "bs ! 0 = V2") simp_all
next
  case False
  then have "bs \<noteq> []" "bs ! 0 = V2" "40 \<le> length bs" "length bs \<le> 1200" by simp_all
  with assms show ?thesis
    by (auto simp: v2_header_checks_def v2_header_of_def read_v2_fields_def codec_simps)
qed

lemma decode_v2_cases:
  obtains (rejected) st where "st \<noteq> WIRE_SUCCESS" "decode_v2 b = Some (make_decode_error st)"
  | (accepted) bs where "b = Ptr bs" "v2_header_checks bs"
      "decode_v2 b = decode_v2_payload bs (v2_header_of bs)"
proof (cases b)
  case (NullPtr n)
  then have "decode_v2 b = Some (make_decode_error EMPTY_INPUT)"
    by (simp add: decode_v2_def make_v2_header_error_def)
  then show ?thesis using rejected by blast
next
  case (Ptr bs)
  show ?thesis
  proof (cases "v2_header_checks bs")
    case True
    then show ?thesis
      using accepted Ptr read_v2_header_ok [OF True] by (simp add: decode_v2_def)
  next
    case False
    then show ?thesis
      using rejected Ptr read_v2_header_error [OF False]
      by (auto simp: decode_v2_def header_rejected_def make_v2_header_error_def)
  qed
qed

lemma decode_v2_payload_total:
  assumes "v2_header_checks bs"
  shows "decode_v2_payload bs (v2_header_of bs) \<noteq> None"
proof -
  have "40 + unat (h_description_length (v2_header_of bs))
      + unat (h_value_length (v2_header_of bs)) = length bs"
    using assms unfolding v2_header_checks_def by linarith
  then show ?thesis
    by (auto simp: decode_v2_payload_def Let_def codec_simps join_timestamp_exact split: option.split)
qed

lemma decode_v2_total: "decode_v2 b \<noteq> None"
  by (rule decode_v2_cases [of b]) (use decode_v2_payload_total in auto)

lemma decode_v1_total: "decode_v1 b \<noteq> None"
proof (cases b)
  case (Ptr data)
  have "copy_out data 18 (find_idx 0 (drop 18 data)) \<noteq> None" if "18 \<le> length data"
    using that find_idx_le [of 0 "drop 18 data"] by simp
  with Ptr show ?thesis
    by (auto simp: read_v1_key_def decode_v1_numeric_def decode_v1_string_def Let_def codec_simps)
qed simp

text \<open>A datagram that decodes is the encoding of what it decodes to.\<close>

lemma decode_v2_canonical:
  assumes "decode_v2 (Ptr bs) = Some d" and "dec_status d = WIRE_SUCCESS"
  shows "\<exists>r. dec_record d = Some \<lparr>dr_version = V2, dr_data = sr_data r,
      dr_changed_at = Some (sr_changed_at r)\<rparr> \<and> is_int64 (sr_changed_at r)
    \<and> encode_v2 r = Some \<lparr>enc_status = WIRE_SUCCESS, enc_bytes = bs\<rparr>"
proof (rule decode_v2_cases [of "Ptr bs"])
  fix st assume "st \<noteq> WIRE_SUCCESS" "decode_v2 (Ptr bs) = Some (make_decode_error st)"
  with assms show ?thesis by (auto simp: make_decode_error_def)
next
  fix bs' assume "Ptr bs = Ptr bs'" and chk': "v2_header_checks bs'"
    and dec': "decode_v2 (Ptr bs) = decode_v2_payload bs' (v2_header_of bs')"
  then have chk: "v2_header_checks bs" and dec: "decode_v2_payload bs (v2_header_of bs) = Some d"
    using assms(1) by simp_all
  define h where "h = v2_header_of bs"
  define dl where "dl = unat (h_description_length h)"
  define vl where "vl = unat (h_value_length h)"
  have ty: "h_type h = 0 \<or> h_type h = 1" and len: "length bs = 40 + dl + vl" "length bs \<le> 1200"
    and hdr: "take 40 bs = v2_header_layout h"
    and hf: "h_flags h = 0" "unat (h_total_length h) = length bs" "unat (h_header_length h) = 40"
    using chk v2_header_layout_of [of bs]
    by (auto simp: v2_header_checks_def h_def dl_def vl_def)
  from dec assms(2) obtain t where t: "join_timestamp (h_seconds h) (h_nanoseconds h) = Some (Some t)"
    by (auto simp: decode_v2_payload_def h_def make_decode_error_def split: if_splits option.splits)
  note st = split_join_timestamp [OF t]
  define desc where "desc = take dl (drop 40 bs)"
  define pay where "pay = drop (40 + dl) bs"
  have bs: "bs = v2_header_layout h @ desc @ pay" and lens: "length desc = dl" "length pay = vl"
    using len by (simp_all add: hdr [symmetric] desc_def pay_def) (metis append_take_drop_id drop_drop add.commute)
  define v where "v = (if h_type h = 0
     then VNumeric \<lparr>num_value = dec32 (take 4 pay), num_state = dec32 (take 4 (drop 4 pay))\<rparr>
     else VString (string_of_bytes pay))"
  define r where "r = \<lparr>sr_data = \<lparr>md_key = h_key h, md_description = string_of_bytes desc,
    md_value = v\<rparr>, sr_changed_at = t\<rparr>"
  have num: "vl = 8" if "h_type h = 0"
    using dec assms(2) that
    by (auto simp: decode_v2_payload_def h_def vl_def make_decode_error_def split: if_splits)
  have d: "d = \<lparr>dec_status = WIRE_SUCCESS, dec_record = Some \<lparr>dr_version = V2, dr_data = sr_data r,
      dr_changed_at = Some (sr_changed_at r)\<rparr>\<rparr>"
    using dec ty num t len
    by (auto simp: decode_v2_payload_def h_def [symmetric] dl_def [symmetric] vl_def [symmetric] Let_def
        r_def v_def codec_simps desc_def pay_def)
  have pay: "v2_payload v = pay"
  proof (cases "h_type h = 0")
    case True
    with num lens have "take 4 pay @ take 4 (drop 4 pay) = pay"
      by (metis append_take_drop_id length_drop add_diff_cancel_left' numeral_Bit0 take_all order_refl)
    with True num lens show ?thesis by (simp add: v_def v2_payload_def be_dec)
  qed (simp add: v_def v2_payload_def)
  have "v2_value_type v = h_type h"
    using ty by (auto simp: v_def v2_value_type_def)
  moreover have "word_of_nat (40 + dl + vl) = h_total_length h"
  proof -
    have "word_of_nat (unat (h_total_length h)) = h_total_length h" by simp
    then show ?thesis by (simp only: hf(2) len(1))
  qed
  moreover have "h_header_length h = 40"
    using hf(3) by (simp add: word_unat_eq_iff)
  moreover have "word_of_nat dl = h_description_length h" "word_of_nat vl = h_value_length h"
    by (simp_all add: dl_def vl_def)
  ultimately have "v2_datagram r = bs"
    using pay st lens hf
    by (simp add: v2_datagram_def r_def v2_header_bytes_def v2_header_layout_def bs)
  moreover have "v \<noteq> Valueless" by (simp add: v_def)
  ultimately have "encode_v2 r = Some \<lparr>enc_status = WIRE_SUCCESS, enc_bytes = bs\<rparr>"
    using len lens pay by (simp add: encode_v2_eq r_def)
  with d st show ?thesis by (intro exI [of _ r]) (simp add: r_def)
qed

section \<open>Version 1: layout and decoding\<close>

definition v1_header_bytes :: "wire_value_type \<Rightarrow> monitor_key \<Rightarrow> bytes" where
  "v1_header_bytes ty key =
     [V1, ty] @ be32 (key_mid key) @ be32 (key_fid key) @ be32 (key_eid key) @ be32 (key_level key)"

definition v1_content :: "string \<Rightarrow> string" where
  "v1_content s = take (find_idx (CHR 0x00) s) s"

lemma length_v1_header_bytes [simp]: "length (v1_header_bytes ty key) = 18"
  by (simp add: v1_header_bytes_def)

lemma length_v1_content: "length (v1_content s) = find_idx (CHR 0x00) s"
  by (simp add: v1_content_def find_idx_le)

lemma write_v1_header_layout:
  "18 \<le> n \<Longrightarrow> write_v1_header (zpad [] n) ty key = Some (zpad (v1_header_bytes ty key) (n - 18))"
  by (simp add: write_v1_header_def layout_simps v1_header_bytes_def)

lemma encode_v1_eq:
  "encode_v1 r = Some (case md_value (sr_data r) of
     VNumeric n \<Rightarrow> \<lparr>enc_status = WIRE_SUCCESS,
       enc_bytes = v1_header_bytes NUMERIC (md_key (sr_data r)) @ be32 (num_value n) @ be32 (num_state n)\<rparr>
   | VString s \<Rightarrow> if 63 < length (v1_content s) then make_encode_error STRING_TOO_LONG
       else \<lparr>enc_status = WIRE_SUCCESS,
         enc_bytes = v1_header_bytes STRING (md_key (sr_data r)) @ bytes_of_string (v1_content s) @ [0]\<rparr>
   | Valueless \<Rightarrow> make_encode_error INVALID_TYPE)"
proof (cases "md_value (sr_data r)")
  case (VNumeric n)
  then show ?thesis
    by (simp add: encode_v1_def zpad_start write_v1_header_layout layout_simps)
next
  case (VString s)
  show ?thesis
    using VString length_v1_content [of s]
    by (simp add: encode_v1_def str_find_size zpad_start write_v1_header_layout layout_simps Let_def
        v1_content_def [symmetric])
next
  case Valueless
  then show ?thesis by (simp add: encode_v1_def)
qed

lemma read_v1_key_layout: "read_v1_key (v1_header_bytes ty key @ rest) = Some key"
  by (cases key) (simp add: read_v1_key_def v1_header_bytes_def codec_simps)

lemma nul_notin_content: "0 \<notin> set (bytes_of_string (v1_content s))"
proof -
  have "CHR 0x00 \<notin> set (v1_content s)"
    by (simp add: v1_content_def notin_take_find_idx)
  then show ?thesis by (auto simp: bytes_of_string_def)
qed

lemma decode_v1_datagram:
  assumes "encode_v1 r = Some e" and "enc_status e = WIRE_SUCCESS"
  shows "decode_v1 (Ptr (enc_bytes e)) = Some \<lparr>dec_status = WIRE_SUCCESS,
    dec_record = Some \<lparr>dr_version = V1,
      dr_data = \<lparr>md_key = md_key (sr_data r), md_description = [],
        md_value = (case md_value (sr_data r) of VString s \<Rightarrow> VString (v1_content s) | v \<Rightarrow> v)\<rparr>,
      dr_changed_at = None\<rparr>\<rparr>"
proof -
  have h01: "v1_header_bytes ty key ! 0 = 1" "v1_header_bytes ty key ! Suc 0 = ty"
    "v1_header_bytes ty key \<noteq> []" for ty key
    by (simp_all add: v1_header_bytes_def)
  show ?thesis
  proof (cases "md_value (sr_data r)")
    case (VNumeric n)
    with assms show ?thesis
      by (auto simp: encode_v1_eq read_v1_key_layout decode_v1_numeric_def codec_simps nth_append h01)
  next
    case (VString s)
    with assms have "length (v1_content s) \<le> 63"
      by (auto simp: encode_v1_eq make_encode_error_def split: if_splits)
    with VString assms nul_notin_content [of s] show ?thesis
      by (auto simp: encode_v1_eq read_v1_key_layout decode_v1_string_def nth_append h01 Let_def
          find_idx_append find_idx_notin)
  next
    case Valueless
    with assms show ?thesis by (auto simp: encode_v1_eq make_encode_error_def)
  qed
qed

section \<open>Properties\<close>

definition sample_record :: stored_record where
  "sample_record = \<lparr>sr_data = \<lparr>md_key = MonitorKey 1 2 3 4, md_description = ''cpu'',
     md_value = VNumeric \<lparr>num_value = 7, num_state = 2\<rparr>\<rparr>, sr_changed_at = - 500000000\<rparr>"

lemma encode_v2_sample:
  "encode_v2 sample_record
     = Some \<lparr>enc_status = WIRE_SUCCESS, enc_bytes = v2_datagram sample_record\<rparr>"
  by (simp add: encode_v2_eq sample_record_def v2_payload_def)

lemma v2_datagram_first: "\<exists>rest. v2_datagram r = V2 # rest"
  by (simp add: v2_datagram_def v2_header_bytes_def)

lemma decode_encoded_v2:
  assumes "encode_v2 r = Some e" and "enc_status e = WIRE_SUCCESS"
    and "is_int64 (sr_changed_at r)"
  shows "decode (Ptr (enc_bytes e)) = Some \<lparr>dec_status = WIRE_SUCCESS,
    dec_record = Some \<lparr>dr_version = V2, dr_data = sr_data r,
      dr_changed_at = Some (sr_changed_at r)\<rparr>\<rparr>"
proof -
  from assms(1,2) have "md_value (sr_data r) \<noteq> Valueless"
    and "length (md_description (sr_data r)) + length (v2_payload (md_value (sr_data r))) \<le> 1160"
    and e: "enc_bytes e = v2_datagram r"
    by (auto simp: encode_v2_eq make_encode_error_def split: if_splits)
  with decode_v2_datagram [of r] assms(3) v2_datagram_first [of r] show ?thesis
    by (auto simp del: decode_v1.simps)
qed

lemma encoded_v2_length:
  assumes "encode_v2 r = Some e" and "enc_status e = WIRE_SUCCESS"
  shows "0 < length (enc_bytes e) \<and> length (enc_bytes e) \<le> 1200"
  using assms v2_datagram_first [of r]
  by (auto simp: encode_v2_eq make_encode_error_def v2_datagram_def v2_header_bytes_def split: if_splits)

text \<open>
  C3: a record that version 2 can carry survives the wire unchanged. Whatever
  \<^const>\<open>encode_v2\<close> successfully encodes, the version dispatcher \<^const>\<open>decode\<close> reads
  back with the same key, description (embedded NULs included), value and exact
  nanosecond timestamp, also before the epoch.
\<close>

theorem wire_v2_roundtrip:
  assumes "encode_v2 r = Some e" and "enc_status e = WIRE_SUCCESS"
    and "is_int64 (sr_changed_at r)"
  shows "decode (Ptr (enc_bytes e)) = Some \<lparr>dec_status = WIRE_SUCCESS,
    dec_record = Some \<lparr>dr_version = V2, dr_data = sr_data r,
      dr_changed_at = Some (sr_changed_at r)\<rparr>\<rparr>"
  using assms by (rule decode_encoded_v2)

theorem wire_v2_roundtrip_witness:
  "decode (Ptr (enc_bytes (the (encode_v2 sample_record)))) = Some \<lparr>dec_status = WIRE_SUCCESS,
    dec_record = Some \<lparr>dr_version = V2, dr_data = sr_data sample_record,
      dr_changed_at = Some (- 500000000)\<rparr>\<rparr>"
proof -
  have "sr_changed_at sample_record = - 500000000" by (simp add: sample_record_def)
  then show ?thesis
    using wire_v2_roundtrip [OF encode_v2_sample]
    by (simp add: encode_v2_sample is_int64_def del: decode.simps)
qed

text \<open>
  C13: version 2 is canonical. A datagram that decodes successfully is, byte for
  byte, the encoding of the record it decodes to: no two datagrams mean the
  same record, and relaying a decoded record reproduces the datagram.
\<close>

theorem wire_v2_canonical:
  assumes "decode_v2 (Ptr bs) = Some d" and "dec_status d = WIRE_SUCCESS"
  shows "\<exists>r. dec_record d = Some \<lparr>dr_version = V2, dr_data = sr_data r,
      dr_changed_at = Some (sr_changed_at r)\<rparr> \<and> is_int64 (sr_changed_at r)
    \<and> encode_v2 r = Some \<lparr>enc_status = WIRE_SUCCESS, enc_bytes = bs\<rparr>"
  using assms by (rule decode_v2_canonical)

theorem wire_v2_canonical_witness:
  "\<exists>r. Some \<lparr>dr_version = V2, dr_data = sr_data sample_record, dr_changed_at = Some (- 500000000)\<rparr>
      = Some \<lparr>dr_version = V2, dr_data = sr_data r, dr_changed_at = Some (sr_changed_at r)\<rparr>
    \<and> is_int64 (sr_changed_at r)
    \<and> encode_v2 r = Some \<lparr>enc_status = WIRE_SUCCESS, enc_bytes = v2_datagram sample_record\<rparr>"
proof -
  have "decode_v2 (Ptr (v2_datagram sample_record)) = Some \<lparr>dec_status = WIRE_SUCCESS,
      dec_record = Some \<lparr>dr_version = V2, dr_data = sr_data sample_record,
        dr_changed_at = Some (sr_changed_at sample_record)\<rparr>\<rparr>"
    by (rule decode_v2_datagram)
      (simp_all add: sample_record_def v2_payload_def is_int64_def)
  from wire_v2_canonical [OF this] show ?thesis by (simp add: sample_record_def)
qed

lemma decode_v2_payload_record:
  "decode_v2_payload bs h = Some d \<Longrightarrow> dec_status d = WIRE_SUCCESS \<longleftrightarrow> dec_record d \<noteq> None"
  by (auto simp: make_decode_error_def decode_v2_payload_def Let_def bind_eq_Some_conv
      split: if_splits option.splits)

lemma decode_v2_record:
  "decode_v2 b = Some d \<Longrightarrow> dec_status d = WIRE_SUCCESS \<longleftrightarrow> dec_record d \<noteq> None"
  by (rule decode_v2_cases [of b])
    (auto simp: make_decode_error_def dest: decode_v2_payload_record [OF sym])

lemma decode_v1_record:
  "decode_v1 b = Some d \<Longrightarrow> dec_status d = WIRE_SUCCESS \<longleftrightarrow> dec_record d \<noteq> None"
  by (cases b)
    (auto simp: make_decode_error_def decode_v1_numeric_def decode_v1_string_def Let_def
      bind_eq_Some_conv split: if_splits)

text \<open>
  C15: decoding is memory safe and total. On every input, null pointers, short
  and hostile datagrams included, \<^const>\<open>decode\<close> stays inside the datagram and
  returns a result, which carries a record exactly when the status is success.
\<close>

theorem wire_decode_safe:
  "\<exists>d. decode b = Some d \<and> (dec_status d = WIRE_SUCCESS \<longleftrightarrow> dec_record d \<noteq> None)"
proof (cases b)
  case (NullPtr n)
  then show ?thesis by (simp add: make_decode_error_def)
next
  case (Ptr data)
  obtain d1 d2 where "decode_v1 b = Some d1" "decode_v2 b = Some d2"
    using decode_v1_total [of b] decode_v2_total [of b] by blast
  with decode_v1_record [of b d1] decode_v2_record [of b d2] Ptr show ?thesis
    by (simp add: make_decode_error_def del: decode_v1.simps)
qed

text \<open>
  Encoding is total and bounded. \<^const>\<open>encode_v2\<close> never writes outside the
  datagram it allocates; it fails only for a valueless variant or when header,
  description and value exceed 1200 bytes, and a successful datagram has
  exactly their summed length.
\<close>

theorem wire_v2_encode_bounds:
  "\<exists>e. encode_v2 r = Some e
     \<and> (enc_status e = WIRE_SUCCESS \<longleftrightarrow> md_value (sr_data r) \<noteq> Valueless
         \<and> 40 + length (md_description (sr_data r)) + length (v2_payload (md_value (sr_data r))) \<le> 1200)
     \<and> (enc_status e = DATAGRAM_TOO_LARGE \<longleftrightarrow> md_value (sr_data r) \<noteq> Valueless
         \<and> 1200 < 40 + length (md_description (sr_data r)) + length (v2_payload (md_value (sr_data r))))
     \<and> length (enc_bytes e) = (if enc_status e = WIRE_SUCCESS
         then 40 + length (md_description (sr_data r)) + length (v2_payload (md_value (sr_data r))) else 0)"
  by (auto simp: encode_v2_eq make_encode_error_def v2_datagram_def)

text \<open>
  C23: version 1 delivers key and value. What \<^const>\<open>encode_v1\<close> encodes,
  \<^const>\<open>decode\<close> reads back without description and time, a string value cut at its
  first NUL.
\<close>

theorem wire_v1_roundtrip:
  assumes "encode_v1 r = Some e" and "enc_status e = WIRE_SUCCESS"
  shows "decode (Ptr (enc_bytes e)) = Some \<lparr>dec_status = WIRE_SUCCESS,
    dec_record = Some \<lparr>dr_version = V1,
      dr_data = \<lparr>md_key = md_key (sr_data r), md_description = [],
        md_value = (case md_value (sr_data r) of
            VString s \<Rightarrow> VString (takeWhile (\<lambda>c. c \<noteq> CHR 0x00) s) | v \<Rightarrow> v)\<rparr>,
      dr_changed_at = None\<rparr>\<rparr>"
proof -
  have content: "v1_content s = takeWhile (\<lambda>c. c \<noteq> CHR 0x00) s" for s
    by (simp add: v1_content_def find_idx_takeWhile takeWhile_eq_take [symmetric])
  from assms obtain rest where "enc_bytes e = V1 # rest"
    by (cases "md_value (sr_data r)")
      (auto simp: encode_v1_eq make_encode_error_def v1_header_bytes_def split: if_splits)
  with decode_v1_datagram [OF assms] show ?thesis
    by (simp add: content del: decode_v1.simps split: monitor_value.split)
qed

theorem wire_v1_roundtrip_witness:
  "decode (Ptr (enc_bytes (the (encode_v1 sample_record)))) = Some \<lparr>dec_status = WIRE_SUCCESS,
    dec_record = Some \<lparr>dr_version = V1,
      dr_data = \<lparr>md_key = MonitorKey 1 2 3 4, md_description = [],
        md_value = VNumeric \<lparr>num_value = 7, num_state = 2\<rparr>\<rparr>,
      dr_changed_at = None\<rparr>\<rparr>"
proof -
  obtain e where e: "encode_v1 sample_record = Some e" and "enc_status e = WIRE_SUCCESS"
    by (simp add: encode_v1_eq sample_record_def)
  from wire_v1_roundtrip [OF this] e show ?thesis
    by (simp add: sample_record_def del: decode.simps)
qed

text \<open>
  C24: joining a timestamp is exact and never overflows. For every pair, the smallest second
  included, \<^const>\<open>join_timestamp\<close> performs no signed 64-bit operation that overflows; it returns
  the nanosecond count whenever that fits a signed 64-bit integer and the nanosecond part is below
  one second, and rejects every other pair.
\<close>

theorem timestamp_join_exact:
  "join_timestamp s n = Some
     (if uint n < 1000000000 \<and> - (2 ^ 63) \<le> s * 1000000000 + uint n \<and> s * 1000000000 + uint n < 2 ^ 63
      then Some (s * 1000000000 + uint n) else None)"
  by (simp add: join_timestamp_exact is_valid_nanoseconds_def word_less_def is_int64_def)

end
