(* ===== verification/Monitor_Engine.thy ===== *)
theory Monitor_Engine
  imports Aio_Manager Monitor_Reporter Monitor_Wire
begin

text \<open>
  The engine (\<^verbatim>\<open>src/monitor/engine.cpp\<close>): its phases, the context with the store, the reporter and the
  event loop, and the guards of every operation. The reporter refers to the module registry of
  the engine and both managers to one callback registry; the record holds each of these once and
  the views below hand them to the components. \<open>'e\<close> is the state of the publishers, \<open>'k\<close> the state
  of the kernel and of everything the callbacks work on. No result stands for an exception, for
  undefined behaviour or for a call that does not return.
\<close>

section \<open>State\<close>

datatype engine_phase = PHASE_CREATED | PHASE_INITIALIZING | PHASE_READY | PHASE_RUNNING | PHASE_STOPPING | PHASE_STOPPED


record mon_config =
  cfg_name :: string
  cfg_port :: u16
  cfg_id :: u8

text \<open>\<open>cx_callbacks\<close> are the callback objects, which the entries of the two managers own.\<close>

record ('e, 'k) engine_context =
  cx_config :: mon_config
  cx_reporter :: "'e monitor_reporter"
  cx_cbs :: callback_registry
  cx_callbacks :: "nat \<Rightarrow> 'k enhanced_callback option"
  cx_wakeup :: wake_pipe
  cx_aio :: aio_manager
  cx_timers :: timer_manager
  cx_wakeup_handle :: "u64 option"

record ('e, 'k) engine =
  eg_config :: mon_config
  eg_modules :: monitor_module_registry
  eg_context :: "('e, 'k) engine_context option"
  eg_phase :: engine_phase






section \<open>Views of the components\<close>


definition put_reporter :: "('e, 'k) engine \<Rightarrow> ('e, 'k) engine_context \<Rightarrow> 'e monitor_reporter \<Rightarrow> ('e, 'k) engine" where
  "put_reporter eg cx s = eg\<lparr>eg_context := Some (cx\<lparr>cx_reporter := s\<rparr>)\<rparr>"

definition aio_view :: "('e, 'k) engine_context \<Rightarrow> aio_manager" where
  "aio_view cx = (cx_aio cx)\<lparr>am_registry := cx_cbs cx\<rparr>"

definition put_aio :: "('e, 'k) engine_context \<Rightarrow> aio_manager \<Rightarrow> ('e, 'k) engine_context" where
  "put_aio cx am = cx\<lparr>cx_aio := am, cx_cbs := am_registry am\<rparr>"

definition timer_view :: "('e, 'k) engine_context \<Rightarrow> timer_manager" where
  "timer_view cx = (cx_timers cx)\<lparr>tm_registry := cx_cbs cx\<rparr>"

definition put_timers :: "('e, 'k) engine_context \<Rightarrow> timer_manager \<Rightarrow> ('e, 'k) engine_context" where
  "put_timers cx tm = cx\<lparr>cx_timers := tm, cx_cbs := tm_registry tm\<rparr>"

text \<open>A callback object dies with the entry that owns it.\<close>

definition owned :: "('e, 'k) engine_context \<Rightarrow> nat \<Rightarrow> bool" where
  "owned cx a \<longleftrightarrow> callback_alive (cx_aio cx) a
     \<or> list_ex (\<lambda>t. case t of Some t \<Rightarrow> map_option cb_addr (te_cb t) = Some a | None \<Rightarrow> False) (tm_timers (cx_timers cx))"

definition free_callbacks :: "('e, 'k) engine_context \<Rightarrow> ('e, 'k) engine_context" where
  "free_callbacks cx = cx\<lparr>cx_callbacks := (\<lambda>a. if owned cx a then cx_callbacks cx a else None)\<rparr>"

section \<open>Life cycle\<close>






section \<open>Registration\<close>





section \<open>Monitoring data\<close>












section \<open>The event loop\<close>









section \<open>Only the end of a run cleans up\<close>

text \<open>An engine with a context whose managers have not been cleaned up.\<close>

definition live :: "('e, 'k) engine \<Rightarrow> bool" where
  "live eg \<longleftrightarrow> (\<exists>cx. eg_context eg = Some cx \<and> \<not> am_cleaned_up (cx_aio cx) \<and> \<not> tm_cleaned_up (cx_timers cx))"

named_theorems live_simps \<open>unfolding of views and updates of the context\<close>

lemmas [live_simps] = live_def aio_view_def put_aio_def timer_view_def put_timers_def put_reporter_def free_callbacks_def

















section \<open>Properties\<close>









end
