(* ===== verification/Cpu_Topology.thy ===== *)
theory Cpu_Topology
  imports TLSS_Prelude "HOL-Library.Multiset"
begin

text \<open>
  The processors the memory copy library may use (\<^verbatim>\<open>src/common/memory/internal\<close>): the capabilities
  read from the processor, the topology read from the system, and the selection of worker
  processors for a caller. What \<^verbatim>\<open>cpuid\<close>, the affinity calls and the files of \<^verbatim>\<open>/sys\<close> answer is a
  parameter; no result stands for an exception.
\<close>

section \<open>Capabilities (\<^verbatim>\<open>cpu_capabilities.cpp\<close>)\<close>

record cpu_capabilities =
  avx_hardware :: bool
  avx2_hardware :: bool
  osxsave :: bool
  avx_usable :: bool
  avx2_usable :: bool
  erms :: bool

text \<open>
  \<open>leaf1\<close> is the register ECX of leaf 1 where the processor has that leaf, \<open>xcr0\<close> the control
  register, \<open>max_leaf\<close> the highest leaf and \<open>ebx7\<close> the register EBX of leaf 7.
\<close>

definition detect_cpu_capabilities :: "u32 option \<Rightarrow> u64 \<Rightarrow> u32 \<Rightarrow> u32 \<Rightarrow> cpu_capabilities" where
  "detect_cpu_capabilities leaf1 xcr0 max_leaf ebx7 =
     (let c = \<lparr>avx_hardware = False, avx2_hardware = False, osxsave = False, avx_usable = False, avx2_usable = False,
               erms = False\<rparr>;
          c = (case leaf1 of
                 None \<Rightarrow> c
               | Some ecx \<Rightarrow>
                   let c = c\<lparr>osxsave := (ecx AND push_bit 27 1 \<noteq> 0), avx_hardware := (ecx AND push_bit 28 1 \<noteq> 0)\<rparr>
                   in if avx_hardware c \<and> osxsave c
                      then let required = push_bit 1 1 OR push_bit 2 1 in c\<lparr>avx_usable := (xcr0 AND required = required)\<rparr>
                      else c)
      in if max_leaf \<ge> 7
         then let hw = (ebx7 AND push_bit 5 1 \<noteq> 0)
              in c\<lparr>avx2_hardware := hw, erms := (ebx7 AND push_bit 9 1 \<noteq> 0), avx2_usable := hw \<and> avx_usable c\<rparr>
         else c)"

section \<open>Core types (\<^verbatim>\<open>cpu_core_type.cpp\<close>)\<close>

datatype cpu_core_type = Core_Unknown | IntelCore | IntelAtom

definition CPU_SETSIZE :: int where "CPU_SETSIZE = 1024"

text \<open>\<open>eax\<close> is the register EAX of leaf 26 of the processor the thread runs on.\<close>

definition detect_current_cpu_core_type :: "u32 \<Rightarrow> u32 \<Rightarrow> cpu_core_type" where
  "detect_current_cpu_core_type max_leaf eax =
     (if max_leaf < 26 then Core_Unknown
      else if eax = 0 then Core_Unknown
      else let core_type = drop_bit 24 eax AND 255
      in if core_type = 64 then IntelCore else if core_type = 32 then IntelAtom else Core_Unknown)"

record affinity_sys =
  get_affinity_ok :: bool
  pin_ok :: "int \<Rightarrow> bool"
  restore_ok :: "int \<Rightarrow> bool"
  cpuid_max :: "int \<Rightarrow> u32"
  cpuid_1a :: "int \<Rightarrow> u32"

definition detect_cpu_core_type :: "affinity_sys \<Rightarrow> int \<Rightarrow> cpu_core_type" where
  "detect_cpu_core_type sys cpu_id =
     (if cpu_id < 0 \<or> cpu_id \<ge> CPU_SETSIZE then Core_Unknown
      else if \<not> get_affinity_ok sys then Core_Unknown
      else if \<not> pin_ok sys cpu_id then Core_Unknown
      else let core_type = detect_current_cpu_core_type (cpuid_max sys cpu_id) (cpuid_1a sys cpu_id)
      in if \<not> restore_ok sys cpu_id then Core_Unknown else core_type)"

section \<open>Available processors (\<^verbatim>\<open>cpu_affinity.cpp\<close>)\<close>

text \<open>\<open>affinity\<close> is the processor set of the thread, if the call succeeds.\<close>

definition detect_available_cpu_ids :: "(int \<Rightarrow> bool) option \<Rightarrow> int list option" where
  "detect_available_cpu_ids affinity =
     (case affinity of
        None \<Rightarrow> None
      | Some cpu_set \<Rightarrow>
          let cpu_ids = filter cpu_set [0..CPU_SETSIZE - 1] in if cpu_ids = [] then None else Some cpu_ids)"

section \<open>Topology (\<^verbatim>\<open>cpu_topology.cpp\<close>)\<close>

record cpu_info =
  ci_cpu_id :: int
  ci_package_id :: int
  ci_core_id :: int
  ci_topology_known :: bool
  ci_core_type :: cpu_core_type

record physical_core =
  pc_package_id :: int
  pc_core_id :: int
  pc_core_type :: cpu_core_type
  pc_logical_cpu_ids :: "int list"

record cpu_topology =
  topo_cpus :: "cpu_info list"
  topo_physical_cores :: "physical_core list"

record worker_candidates =
  intel_core_cpu_ids :: "int list"
  intel_atom_cpu_ids :: "int list"
  unknown_cpu_ids :: "int list"

datatype topology_file = Physical_Package_Id | Core_Id

text \<open>\<open>read_integer_file\<close> of a file of a processor: success, and the variable after the call.\<close>

type_synonym sysfs = "int \<Rightarrow> topology_file \<Rightarrow> int \<Rightarrow> bool \<times> int"

definition read_cpu_info :: "sysfs \<Rightarrow> int \<Rightarrow> cpu_info" where
  "read_cpu_info fs cpu_id =
     (let (package_ok, package_id) = fs cpu_id Physical_Package_Id (-1);
          (core_ok, core_id) = fs cpu_id Core_Id (-1)
      in \<lparr>ci_cpu_id = cpu_id, ci_package_id = package_id, ci_core_id = core_id, ci_topology_known = package_ok \<and> core_ok,
          ci_core_type = Core_Unknown\<rparr>)"

fun add_logical_cpu :: "cpu_info \<Rightarrow> physical_core list \<Rightarrow> physical_core list" where
  "add_logical_cpu cpu [] =
     [\<lparr>pc_package_id = ci_package_id cpu, pc_core_id = ci_core_id cpu, pc_core_type = Core_Unknown,
       pc_logical_cpu_ids = [ci_cpu_id cpu]\<rparr>]"
| "add_logical_cpu cpu (core # cores) =
     (if pc_package_id core = ci_package_id cpu \<and> pc_core_id core = ci_core_id cpu
      then core\<lparr>pc_logical_cpu_ids := pc_logical_cpu_ids core @ [ci_cpu_id cpu]\<rparr> # cores
      else core # add_logical_cpu cpu cores)"

fun group_cores :: "cpu_info list \<Rightarrow> physical_core list \<Rightarrow> physical_core list" where
  "group_cores [] cores = cores"
| "group_cores (cpu # cpus) cores =
     (if \<not> ci_topology_known cpu then group_cores cpus cores else group_cores cpus (add_logical_cpu cpu cores))"

definition set_core_type :: "(int \<Rightarrow> cpu_core_type) \<Rightarrow> physical_core \<Rightarrow> physical_core" where
  "set_core_type core_type core =
     (case pc_logical_cpu_ids core of [] \<Rightarrow> core | cpu # _ \<Rightarrow> core\<lparr>pc_core_type := core_type cpu\<rparr>)"

definition detect_cpu_topology :: "sysfs \<Rightarrow> (int \<Rightarrow> cpu_core_type) \<Rightarrow> int list \<Rightarrow> cpu_topology" where
  "detect_cpu_topology fs core_type available_cpu_ids =
     (let cpus = map (read_cpu_info fs) available_cpu_ids
      in \<lparr>topo_cpus = cpus, topo_physical_cores = map (set_core_type core_type) (group_cores cpus [])\<rparr>)"

fun find_core :: "physical_core list \<Rightarrow> int \<Rightarrow> physical_core option" where
  "find_core [] cpu_id = None"
| "find_core (core # cores) cpu_id = (if cpu_id \<in> set (pc_logical_cpu_ids core) then Some core else find_core cores cpu_id)"

definition find_physical_core :: "cpu_topology \<Rightarrow> int \<Rightarrow> physical_core option" where
  "find_physical_core topology cpu_id = find_core (topo_physical_cores topology) cpu_id"

fun add_candidates :: "physical_core option \<Rightarrow> physical_core list \<Rightarrow> worker_candidates \<Rightarrow> worker_candidates" where
  "add_candidates caller [] candidates = candidates"
| "add_candidates caller (core # cores) candidates =
     (if (case caller of
            Some c \<Rightarrow> pc_package_id core = pc_package_id c \<and> pc_core_id core = pc_core_id c
          | None \<Rightarrow> False)
      then add_candidates caller cores candidates
      else case pc_logical_cpu_ids core of
        [] \<Rightarrow> add_candidates caller cores candidates
      | cpu_id # _ \<Rightarrow>
          add_candidates caller cores
            (case pc_core_type core of
               IntelCore \<Rightarrow> candidates\<lparr>intel_core_cpu_ids := intel_core_cpu_ids candidates @ [cpu_id]\<rparr>
             | IntelAtom \<Rightarrow> candidates\<lparr>intel_atom_cpu_ids := intel_atom_cpu_ids candidates @ [cpu_id]\<rparr>
             | Core_Unknown \<Rightarrow> candidates\<lparr>unknown_cpu_ids := unknown_cpu_ids candidates @ [cpu_id]\<rparr>))"

definition select_worker_candidates :: "cpu_topology \<Rightarrow> int \<Rightarrow> worker_candidates" where
  "select_worker_candidates topology caller_cpu_id =
     add_candidates (find_physical_core topology caller_cpu_id) (topo_physical_cores topology)
       \<lparr>intel_core_cpu_ids = [], intel_atom_cpu_ids = [], unknown_cpu_ids = []\<rparr>"

section \<open>Worker selection (\<^verbatim>\<open>worker_selection.cpp\<close>)\<close>

definition select_worker_set :: "worker_candidates \<Rightarrow> nat \<Rightarrow> int list" where
  "select_worker_set candidates desired_worker_count =
     (if desired_worker_count = 0 then []
      else let actual_worker_count = min desired_worker_count (length (intel_core_cpu_ids candidates))
      in take actual_worker_count (intel_core_cpu_ids candidates))"

fun select_active_workers :: "int list \<Rightarrow> int list \<Rightarrow> nat list" where
  "select_active_workers pool_cpu_ids [] = []"
| "select_active_workers pool_cpu_ids (cpu_id # cpu_ids) =
     (let i = find_idx cpu_id pool_cpu_ids
      in if i = length pool_cpu_ids then select_active_workers pool_cpu_ids cpu_ids
         else i # select_active_workers pool_cpu_ids cpu_ids)"

fun master_cpus :: "physical_core list \<Rightarrow> int list" where
  "master_cpus [] = []"
| "master_cpus (core # cores) =
     (case pc_logical_cpu_ids core of
        [] \<Rightarrow> master_cpus cores
      | cpu # _ \<Rightarrow> if pc_core_type core \<noteq> IntelCore then master_cpus cores else cpu # master_cpus cores)"

definition select_master_worker_cpu_ids :: "cpu_topology \<Rightarrow> int list" where
  "select_master_worker_cpu_ids topology = master_cpus (topo_physical_cores topology)"

section \<open>Properties of the topology\<close>

text \<open>Every processor belongs to one core, and no core is empty.\<close>

definition logical_cpus :: "physical_core list \<Rightarrow> int list" where
  "logical_cpus cores = concat (map pc_logical_cpu_ids cores)"

lemma logical_cpus_Nil [simp]: "logical_cpus [] = []"
  and logical_cpus_Cons [simp]: "logical_cpus (core # cores) = pc_logical_cpu_ids core @ logical_cpus cores"
  by (simp_all add: logical_cpus_def)

lemma add_logical_cpu_cpus: "mset (logical_cpus (add_logical_cpu cpu cores)) = add_mset (ci_cpu_id cpu) (mset (logical_cpus cores))"
  by (induction cores) auto

lemma group_cores_distinct:
  "distinct (map ci_cpu_id cpus @ logical_cpus cores) \<Longrightarrow> distinct (logical_cpus (group_cores cpus cores))"
proof (induction cpus arbitrary: cores)
  case (Cons cpu cpus)
  have "mset (map ci_cpu_id cpus @ logical_cpus (add_logical_cpu cpu cores)) = mset (map ci_cpu_id (cpu # cpus) @ logical_cpus cores)"
    by (simp add: add_logical_cpu_cpus)
  then have "distinct (map ci_cpu_id cpus @ logical_cpus (add_logical_cpu cpu cores))"
    using Cons.prems mset_eq_imp_distinct_iff by blast
  then show ?case using Cons.IH [of "add_logical_cpu cpu cores"] Cons.IH [of cores] Cons.prems by simp
qed simp

lemma logical_cpus_set_core_type: "logical_cpus (map (set_core_type f) cores) = logical_cpus cores"
proof -
  have "pc_logical_cpu_ids (set_core_type f core) = pc_logical_cpu_ids core" for core
    by (simp add: set_core_type_def split: list.split)
  then show ?thesis by (simp add: logical_cpus_def comp_def)
qed

lemma detect_cpu_topology_distinct:
  assumes "distinct ids"
  shows "distinct (logical_cpus (topo_physical_cores (detect_cpu_topology fs core_type ids)))"
proof -
  have "map ci_cpu_id (map (read_cpu_info fs) ids) = ids"
    by (induction ids) (simp_all add: read_cpu_info_def split: prod.split)
  then have "distinct (map ci_cpu_id (map (read_cpu_info fs) ids) @ logical_cpus [])"
    using assms by simp
  from group_cores_distinct [OF this] show ?thesis
    by (simp add: detect_cpu_topology_def Let_def logical_cpus_set_core_type del: map_map)
qed

lemma detect_available_distinct: "detect_available_cpu_ids affinity = Some ids \<Longrightarrow> distinct ids \<and> (\<forall>i \<in> set ids. 0 \<le> i \<and> i < CPU_SETSIZE)"
  by (auto simp: detect_available_cpu_ids_def Let_def split: option.split_asm if_split_asm)

lemma master_cpus_subset: "set (master_cpus cores) \<subseteq> set (logical_cpus cores)"
  by (induction cores) (auto split: list.split)

lemma master_cpus_distinct: "distinct (logical_cpus cores) \<Longrightarrow> distinct (master_cpus cores)"
proof (induction cores)
  case (Cons core cores)
  then show ?case using master_cpus_subset [of cores] by (auto split: list.split)
qed simp

lemma add_candidates_cores:
  "intel_core_cpu_ids (add_candidates caller cores candidates) = intel_core_cpu_ids candidates @
     master_cpus (filter (\<lambda>core. \<not> (case caller of
            Some c \<Rightarrow> pc_package_id core = pc_package_id c \<and> pc_core_id core = pc_core_id c
          | None \<Rightarrow> False)) cores)"
  by (induction cores arbitrary: candidates) (auto split: list.split cpu_core_type.split)

lemma master_cpus_filter: "set (master_cpus (filter P cores)) \<subseteq> set (master_cpus cores)"
  by (induction cores) (auto split: list.split)

lemma logical_cpus_filter: "distinct (logical_cpus cores) \<Longrightarrow> distinct (logical_cpus (filter P cores))"
proof (induction cores)
  case (Cons core cores)
  have "set (logical_cpus (filter P cores)) \<subseteq> set (logical_cpus cores)" by (auto simp: logical_cpus_def)
  with Cons show ?case by auto
qed simp

lemma candidates_ok:
  assumes "distinct (logical_cpus (topo_physical_cores topology))"
  shows "distinct (intel_core_cpu_ids (select_worker_candidates topology cpu))"
    and "set (intel_core_cpu_ids (select_worker_candidates topology cpu)) \<subseteq> set (select_master_worker_cpu_ids topology)"
  using master_cpus_distinct [OF logical_cpus_filter [OF assms]] master_cpus_filter
  by (auto simp: select_worker_candidates_def add_candidates_cores select_master_worker_cpu_ids_def)

text \<open>
  The set of workers chosen for a caller: different threads of the pool, one for each chosen
  processor, and as many as wanted and available.
\<close>

lemma select_active_workers_map:
  "set sel \<subseteq> set pool \<Longrightarrow> select_active_workers pool sel = map (\<lambda>c. find_idx c pool) sel"
proof (induction sel)
  case (Cons c sel)
  then have "find_idx c pool < length pool" by (simp add: find_idx_less_iff)
  with Cons show ?case by (simp add: Let_def)
qed simp

lemma find_idx_inj: "find_idx x xs = find_idx y xs \<Longrightarrow> x \<in> set xs \<Longrightarrow> y \<in> set xs \<Longrightarrow> x = y"
  by (induction xs) (auto split: if_split_asm)

definition workers_ok :: "nat \<Rightarrow> nat list \<Rightarrow> bool" where
  "workers_ok pool_size active \<longleftrightarrow> distinct active \<and> (\<forall>i \<in> set active. i < pool_size)"

lemma select_active_workers_ok:
  assumes "distinct sel" and "set sel \<subseteq> set pool"
  shows "workers_ok (length pool) (select_active_workers pool sel)" and "length (select_active_workers pool sel) = length sel"
proof -
  have "inj_on (\<lambda>c. find_idx c pool) (set sel)" using assms(2) by (auto intro!: inj_onI dest: find_idx_inj)
  then show "workers_ok (length pool) (select_active_workers pool sel)"
    using assms find_idx_less_iff [of _ pool] unfolding select_active_workers_map [OF assms(2)] workers_ok_def
    by (auto simp: distinct_map)
  show "length (select_active_workers pool sel) = length sel" by (simp add: select_active_workers_map [OF assms(2)])
qed

lemma worker_set_ok:
  assumes "distinct (logical_cpus (topo_physical_cores topology))"
  shows "distinct (select_worker_set (select_worker_candidates topology cpu) n)"
    and "set (select_worker_set (select_worker_candidates topology cpu) n) \<subseteq> set (select_master_worker_cpu_ids topology)"
  using candidates_ok [OF assms, of cpu] by (auto simp: select_worker_set_def Let_def dest: in_set_takeD)

end
