(* ===== verification/Memory_Copy.thy ===== *)
theory Memory_Copy
  imports Cpu_Topology
begin

text \<open>
  The memory copy library (\<^verbatim>\<open>src/common/memory\<close>): the choice of a strategy by size, hint and
  processor, the partition of a copy into a prefix, a body of whole blocks and a tail, the pool
  of worker threads that share the body, and the dispatch of \<^verbatim>\<open>TLSS::MEMORY::memcpy\<close>. Memory is a
  function from addresses to bytes. The assembly kernels are a parameter with the requirements
  their sources state. A turn of a worker is one step, and a schedule gives their order; the
  workers and the caller write disjoint ranges. No result stands for an exception, a fault of a
  kernel or a caller that still waits.
\<close>

section \<open>Memory and kernels\<close>

type_synonym memory = "nat \<Rightarrow> u8"

datatype copy_kernel = Kernel_Avx2 | Kernel_Libc | Kernel_Rep | Kernel_Nt

type_synonym kernels = "copy_kernel \<Rightarrow> nat \<Rightarrow> nat \<Rightarrow> nat \<Rightarrow> memory \<Rightarrow> memory option"

section \<open>Partition (\<^verbatim>\<open>copy_partition.cpp\<close>)\<close>

record copy_partition =
  prefix_size :: nat
  body_size :: nat
  tail_size :: nat

definition k_nt_alignment :: nat where "k_nt_alignment = 32"

definition k_nt_block_size :: nat where "k_nt_block_size = 8192"

definition make_copy_partition :: "nat \<Rightarrow> nat \<Rightarrow> nat \<Rightarrow> copy_partition" where
  "make_copy_partition dst n worker_count =
     (if dst = 0 \<or> n = 0 \<or> worker_count = 0 then \<lparr>prefix_size = 0, body_size = 0, tail_size = 0\<rparr>
      else
        let misalignment = dst AND (k_nt_alignment - 1);
            prefix = (if misalignment \<noteq> 0 then k_nt_alignment - misalignment else 0);
            prefix = (if prefix > n then n else prefix);
            remaining_size = n - prefix;
            block_count = remaining_size div k_nt_block_size
        in if block_count < worker_count then \<lparr>prefix_size = prefix, body_size = 0, tail_size = remaining_size\<rparr>
           else let body = block_count * k_nt_block_size
           in \<lparr>prefix_size = prefix, body_size = body, tail_size = remaining_size - body\<rparr>)"

section \<open>Strategy (\<^verbatim>\<open>copy_policy.cpp\<close>, \<^verbatim>\<open>copy_capability_policy.cpp\<close>)\<close>

datatype copy_backend = Backend_Auto | Backend_Avx2 | Backend_RepMovsb | Backend_NonTemporal

datatype copy_hint = Hint_Default | Hint_Streaming

datatype copy_strategy = LibcMemcpy | Avx2Cached | RepMovsb | DirectNt | ParallelNt

record copy_plan =
  cp_strategy :: copy_strategy
  cp_worker_count :: nat

definition select_copy_plan :: "nat \<Rightarrow> copy_hint \<Rightarrow> copy_plan" where
  "select_copy_plan n hint =
     (if hint = Hint_Default
      then if n \<le> 2 * 1024 then \<lparr>cp_strategy = Avx2Cached, cp_worker_count = 1\<rparr>
           else \<lparr>cp_strategy = RepMovsb, cp_worker_count = 1\<rparr>
      else if n \<le> 2 * 1024 then \<lparr>cp_strategy = Avx2Cached, cp_worker_count = 1\<rparr>
      else if n < 3 * 1024 then \<lparr>cp_strategy = LibcMemcpy, cp_worker_count = 1\<rparr>
      else if n < 8 * 1024 then \<lparr>cp_strategy = Avx2Cached, cp_worker_count = 1\<rparr>
      else if n < 64 * 1024 then \<lparr>cp_strategy = DirectNt, cp_worker_count = 1\<rparr>
      else if n < 128 * 1024 then \<lparr>cp_strategy = ParallelNt, cp_worker_count = 4\<rparr>
      else \<lparr>cp_strategy = ParallelNt, cp_worker_count = 8\<rparr>)"

definition adapt_auto_plan_for_capabilities :: "copy_plan \<Rightarrow> cpu_capabilities \<Rightarrow> copy_plan" where
  "adapt_auto_plan_for_capabilities plan caps =
     (if cp_strategy plan \<in> {LibcMemcpy, RepMovsb} then plan
      else if avx2_usable caps then plan else \<lparr>cp_strategy = LibcMemcpy, cp_worker_count = 1\<rparr>)"

definition select_safe_auto_copy_plan :: "nat \<Rightarrow> copy_hint \<Rightarrow> cpu_capabilities \<Rightarrow> copy_plan" where
  "select_safe_auto_copy_plan n hint caps = adapt_auto_plan_for_capabilities (select_copy_plan n hint) caps"

fun is_backend_supported :: "copy_backend \<Rightarrow> cpu_capabilities \<Rightarrow> bool" where
  "is_backend_supported Backend_Auto caps = True"
| "is_backend_supported Backend_RepMovsb caps = True"
| "is_backend_supported Backend_Avx2 caps = avx2_usable caps"
| "is_backend_supported Backend_NonTemporal caps = avx2_usable caps"

fun make_copy_plan_for_backend :: "nat \<Rightarrow> copy_hint \<Rightarrow> copy_backend \<Rightarrow> cpu_capabilities \<Rightarrow> copy_plan option" where
  "make_copy_plan_for_backend n hint Backend_Auto caps = Some (select_safe_auto_copy_plan n hint caps)"
| "make_copy_plan_for_backend n hint Backend_Avx2 caps =
     (if \<not> is_backend_supported Backend_Avx2 caps then None else Some \<lparr>cp_strategy = Avx2Cached, cp_worker_count = 1\<rparr>)"
| "make_copy_plan_for_backend n hint Backend_RepMovsb caps = Some \<lparr>cp_strategy = RepMovsb, cp_worker_count = 1\<rparr>"
| "make_copy_plan_for_backend n hint Backend_NonTemporal caps =
     (if \<not> is_backend_supported Backend_NonTemporal caps then None
      else Some \<lparr>cp_strategy = DirectNt, cp_worker_count = 1\<rparr>)"

section \<open>One thread (\<^verbatim>\<open>direct_nt_copy.cpp\<close>)\<close>

definition direct_nt_copy :: "kernels \<Rightarrow> nat \<Rightarrow> nat \<Rightarrow> nat \<Rightarrow> memory \<Rightarrow> memory option" where
  "direct_nt_copy kern dst src n m =
     (if n = 0 then Some m
      else let p = make_copy_partition dst n 1
      in if body_size p = 0 then kern Kernel_Avx2 dst src n m
      else do {
        m \<leftarrow> (if prefix_size p \<noteq> 0 then kern Kernel_Avx2 dst src (prefix_size p) m else Some m);
        m \<leftarrow> kern Kernel_Nt (dst + prefix_size p) (src + prefix_size p) (body_size p) m;
        if tail_size p \<noteq> 0
        then let off = prefix_size p + body_size p in kern Kernel_Avx2 (dst + off) (src + off) (tail_size p) m
        else Some m })"

section \<open>The pool of workers (\<^verbatim>\<open>parallel_copy_pool.cpp\<close>)\<close>

record copy_task =
  task_dst :: nat
  task_src :: nat
  task_size :: nat

text \<open>\<open>pool_observed\<close> holds the generation each worker has last seen, a local variable of its loop.\<close>

record copy_pool =
  pool_worker_count :: nat
  pool_tasks :: "copy_task list"
  pool_generation :: "u64 list"
  pool_observed :: "u64 list"
  pool_completed :: nat
  pool_expected :: nat
  pool_in_flight :: bool
  pool_stopping :: bool
  pool_submitted :: u64

definition no_task :: copy_task where "no_task = \<lparr>task_dst = 0, task_src = 0, task_size = 0\<rparr>"

text \<open>\<open>pinned\<close> tells whether a thread can be bound to a processor.\<close>

definition pin_current_thread_to_cpu :: "(int \<Rightarrow> bool) \<Rightarrow> int \<Rightarrow> bool" where
  "pin_current_thread_to_cpu pinned cpu_id = (if cpu_id < 0 \<or> cpu_id \<ge> CPU_SETSIZE then False else pinned cpu_id)"

definition new_copy_pool :: "(int \<Rightarrow> bool) \<Rightarrow> int list \<Rightarrow> copy_pool option" where
  "new_copy_pool pinned cpu_ids =
     (if cpu_ids = [] then None
      else if \<not> list_all (pin_current_thread_to_cpu pinned) cpu_ids then None
      else Some \<lparr>pool_worker_count = length cpu_ids, pool_tasks = replicate (length cpu_ids) no_task,
                 pool_generation = replicate (length cpu_ids) 0, pool_observed = replicate (length cpu_ids) 0,
                 pool_completed = 0, pool_expected = 0, pool_in_flight = False, pool_stopping = False, pool_submitted = 0\<rparr>)"

definition is_aligned :: "nat \<Rightarrow> nat \<Rightarrow> bool" where
  "is_aligned a alignment \<longleftrightarrow> a AND (alignment - 1) = 0"

definition validate_request :: "nat \<Rightarrow> nat \<Rightarrow> nat \<Rightarrow> bool" where
  "validate_request dst src n \<longleftrightarrow>
     dst \<noteq> 0 \<and> src \<noteq> 0 \<and> n \<noteq> 0 \<and> is_aligned dst k_nt_alignment \<and> n mod k_nt_block_size = 0"

fun valid_worker_indices :: "nat \<Rightarrow> nat list \<Rightarrow> bool" where
  "valid_worker_indices worker_count [] = True"
| "valid_worker_indices worker_count (i # active) =
     (if i \<ge> worker_count then False else if i \<in> set active then False else valid_worker_indices worker_count active)"

fun assign_tasks ::
    "nat \<Rightarrow> nat \<Rightarrow> nat \<Rightarrow> nat \<Rightarrow> nat list \<Rightarrow> nat \<Rightarrow> nat \<Rightarrow> copy_task list \<Rightarrow> copy_task list \<times> nat" where
  "assign_tasks base extra dst src [] rank off tasks = (tasks, off)"
| "assign_tasks base extra dst src (i # active) rank off tasks =
     (let worker_block_count = base + (if rank < extra then 1 else 0);
          worker_size = worker_block_count * k_nt_block_size
      in assign_tasks base extra dst src active (rank + 1) (off + worker_size)
           (tasks[i := \<lparr>task_dst = dst + off, task_src = src + off, task_size = worker_size\<rparr>]))"

fun publish :: "u64 \<Rightarrow> nat list \<Rightarrow> u64 list \<Rightarrow> u64 list" where
  "publish g [] gens = gens"
| "publish g (i # active) gens = publish g active (gens[i := g])"

definition dispatch_copy :: "nat list \<Rightarrow> nat \<Rightarrow> nat \<Rightarrow> nat \<Rightarrow> copy_pool \<Rightarrow> copy_pool option" where
  "dispatch_copy active dst src n pool =
     (if \<not> validate_request dst src n then None
      else if active = [] then None
      else if \<not> valid_worker_indices (pool_worker_count pool) active then None
      else
        let block_count = n div k_nt_block_size
        in if block_count < length active then None
        else if pool_stopping pool then None
        else if pool_in_flight pool then None
        else
          let (tasks, off) = assign_tasks (block_count div length active) (block_count mod length active) dst src active 0 0
                (replicate (length (pool_tasks pool)) no_task)
          in if off \<noteq> n then None
          else Some (pool\<lparr>pool_tasks := tasks, pool_expected := length active, pool_completed := 0,
                 pool_submitted := pool_submitted pool + 1, pool_in_flight := True,
                 pool_generation := publish (pool_submitted pool + 1) active (pool_generation pool)\<rparr>))"

text \<open>A turn of a worker: nothing while its generation is the one it has seen.\<close>

definition copy_worker_turn :: "kernels \<Rightarrow> nat \<Rightarrow> copy_pool \<times> memory \<Rightarrow> (copy_pool \<times> memory) option" where
  "copy_worker_turn kern i s =
     (case s of (pool, m) \<Rightarrow>
        if pool_stopping pool then Some (pool, m)
        else let current = pool_generation pool ! i
        in if current = pool_observed pool ! i then Some (pool, m)
        else
          let pool = pool\<lparr>pool_observed := (pool_observed pool)[i := current]\<rparr>;
              task = pool_tasks pool ! i
          in if task_size task = 0 then Some (pool, m)
             else do { m \<leftarrow> kern Kernel_Nt (task_dst task) (task_src task) (task_size task) m;
                       Some (pool\<lparr>pool_completed := pool_completed pool + 1\<rparr>, m) })"

fun run_workers :: "kernels \<Rightarrow> nat list \<Rightarrow> copy_pool \<times> memory \<Rightarrow> (copy_pool \<times> memory) option" where
  "run_workers kern [] s = Some s"
| "run_workers kern (i # schedule) s =
     (if i < pool_worker_count (fst s) then copy_worker_turn kern i s else Some s) \<bind> run_workers kern schedule"

definition pool_wait :: "copy_pool \<Rightarrow> copy_pool option" where
  "pool_wait pool =
     (if \<not> pool_in_flight pool then Some pool
      else if pool_completed pool = pool_expected pool then Some (pool\<lparr>pool_in_flight := False\<rparr>)
      else None)"

text \<open>
  \<open>early\<close> are the turns the workers take before the caller has copied the tail, \<open>late\<close> those
  they take before it looks whether they are done.
\<close>

definition parallel_nt_copy ::
    "kernels \<Rightarrow> nat list \<Rightarrow> nat list \<Rightarrow> nat list \<Rightarrow> nat \<Rightarrow> nat \<Rightarrow> nat \<Rightarrow> copy_pool \<times> memory \<Rightarrow> (copy_pool \<times> memory) option" where
  "parallel_nt_copy kern early late active dst src n s =
     (if n = 0 then Some s
      else if active = [] then map_option (Pair (fst s)) (kern Kernel_Avx2 dst src n (snd s))
      else
        let p = make_copy_partition dst n (length active);
            off = prefix_size p + body_size p
        in do {
          m \<leftarrow> (if prefix_size p \<noteq> 0 then kern Kernel_Avx2 dst src (prefix_size p) (snd s) else Some (snd s));
          if body_size p \<noteq> 0
          then do {
            pool \<leftarrow> dispatch_copy active (dst + prefix_size p) (src + prefix_size p) (body_size p) (fst s);
            (pool, m) \<leftarrow> run_workers kern early (pool, m);
            m \<leftarrow> (if tail_size p \<noteq> 0 then kern Kernel_Avx2 (dst + off) (src + off) (tail_size p) m else Some m);
            (pool, m) \<leftarrow> run_workers kern late (pool, m);
            pool \<leftarrow> pool_wait pool;
            Some (pool, m) }
          else map_option (Pair (fst s)) (kern Kernel_Avx2 dst src n m) })"

section \<open>The runtime (\<^verbatim>\<open>memory_runtime.cpp\<close>)\<close>

record runtime_worker_plan =
  active_workers_4 :: "nat list"
  active_workers_8 :: "nat list"
  plan_valid :: bool

record memory_runtime =
  rt_topology :: cpu_topology
  rt_master_worker_cpu_ids :: "int list"
  rt_master_pool :: "copy_pool option"
  rt_worker_plans :: "runtime_worker_plan list"
  rt_master_pool_busy :: bool

fun max_cpu_id :: "cpu_info list \<Rightarrow> int \<Rightarrow> int" where
  "max_cpu_id [] i = i"
| "max_cpu_id (cpu # cpus) i = max_cpu_id cpus (if ci_cpu_id cpu > i then ci_cpu_id cpu else i)"

definition worker_plan :: "cpu_topology \<Rightarrow> int list \<Rightarrow> int \<Rightarrow> runtime_worker_plan option" where
  "worker_plan topology master_cpu_ids cpu_id =
     (let candidates = select_worker_candidates topology cpu_id;
          selected_4 = select_worker_set candidates 4;
          active_4 = select_active_workers master_cpu_ids selected_4;
          selected_8 = select_worker_set candidates 8;
          active_8 = select_active_workers master_cpu_ids selected_8
      in if length active_4 \<noteq> length selected_4 \<or> length active_8 \<noteq> length selected_8 then None
         else Some \<lparr>active_workers_4 = active_4, active_workers_8 = active_8, plan_valid = True\<rparr>)"

fun plan_cpus :: "cpu_topology \<Rightarrow> int list \<Rightarrow> cpu_info list \<Rightarrow> runtime_worker_plan list \<Rightarrow> runtime_worker_plan list" where
  "plan_cpus topology master_cpu_ids [] plans = plans"
| "plan_cpus topology master_cpu_ids (cpu # cpus) plans =
     plan_cpus topology master_cpu_ids cpus
       (if ci_cpu_id cpu < 0 then plans
        else case worker_plan topology master_cpu_ids (ci_cpu_id cpu) of
               None \<Rightarrow> plans
             | Some plan \<Rightarrow> plans[nat (ci_cpu_id cpu) := plan])"

definition build_runtime_worker_plans :: "memory_runtime \<Rightarrow> memory_runtime" where
  "build_runtime_worker_plans rt =
     (let max_id = max_cpu_id (topo_cpus (rt_topology rt)) (-1)
      in if max_id < 0 then rt\<lparr>rt_worker_plans := []\<rparr>
         else rt\<lparr>rt_worker_plans := plan_cpus (rt_topology rt) (rt_master_worker_cpu_ids rt) (topo_cpus (rt_topology rt))
                   (replicate (nat max_id + 1) \<lparr>active_workers_4 = [], active_workers_8 = [], plan_valid = False\<rparr>)\<rparr>)"

definition new_memory_runtime ::
    "(int \<Rightarrow> bool) option \<Rightarrow> sysfs \<Rightarrow> affinity_sys \<Rightarrow> (int \<Rightarrow> bool) \<Rightarrow> memory_runtime option" where
  "new_memory_runtime affinity fs sys pinned = do {
     ids \<leftarrow> detect_available_cpu_ids affinity;
     let topology = detect_cpu_topology fs (detect_cpu_core_type sys) ids;
     let master = select_master_worker_cpu_ids topology;
     let rt = \<lparr>rt_topology = topology, rt_master_worker_cpu_ids = master, rt_master_pool = None, rt_worker_plans = [],
               rt_master_pool_busy = False\<rparr>;
     if master = [] then Some rt
     else do { pool \<leftarrow> new_copy_pool pinned master;
               Some (build_runtime_worker_plans (rt\<lparr>rt_master_pool := Some pool\<rparr>)) } }"

definition find_runtime_worker_plan :: "memory_runtime \<Rightarrow> int \<Rightarrow> runtime_worker_plan option" where
  "find_runtime_worker_plan rt caller_cpu =
     (if caller_cpu < 0 then None
      else let i = nat caller_cpu
      in if i \<ge> length (rt_worker_plans rt) \<or> \<not> plan_valid (rt_worker_plans rt ! i) then None
         else Some (rt_worker_plans rt ! i))"

definition execute_parallel_copy ::
    "kernels \<Rightarrow> nat list \<Rightarrow> nat list \<Rightarrow> int \<Rightarrow> nat \<Rightarrow> nat \<Rightarrow> nat \<Rightarrow> nat \<Rightarrow> memory_runtime \<times> memory
     \<Rightarrow> (memory_runtime \<times> memory) option" where
  "execute_parallel_copy kern early late caller_cpu desired dst src n s =
     (let (rt, m) = s; direct = map_option (Pair rt) (direct_nt_copy kern dst src n m)
      in case rt_master_pool rt of
        None \<Rightarrow> direct
      | Some pool \<Rightarrow>
          (case find_runtime_worker_plan rt caller_cpu of
             None \<Rightarrow> direct
           | Some plan \<Rightarrow>
               if desired \<noteq> 4 \<and> desired \<noteq> 8 then direct
               else let active = (if desired = 4 then active_workers_4 plan else active_workers_8 plan)
               in if length active < 2 then direct
               else if rt_master_pool_busy rt then direct
               else do { (pool, m) \<leftarrow> parallel_nt_copy kern early late active dst src n (pool, m);
                         Some (rt\<lparr>rt_master_pool := Some pool, rt_master_pool_busy := False\<rparr>, m) }))"

section \<open>Dispatch (\<^verbatim>\<open>copy_executor.cpp\<close>, \<^verbatim>\<open>memcpy_dispatch.cpp\<close>)\<close>

definition execute_copy_plan ::
    "kernels \<Rightarrow> nat list \<Rightarrow> nat list \<Rightarrow> int \<Rightarrow> copy_plan \<Rightarrow> nat \<Rightarrow> nat \<Rightarrow> nat \<Rightarrow> memory_runtime option \<times> memory
     \<Rightarrow> (memory_runtime option \<times> memory) option" where
  "execute_copy_plan kern early late caller_cpu plan dst src n s =
     (let (rt, m) = s; keep = map_option (Pair rt)
      in case cp_strategy plan of
        Avx2Cached \<Rightarrow> keep (kern Kernel_Avx2 dst src n m)
      | LibcMemcpy \<Rightarrow> keep (kern Kernel_Libc dst src n m)
      | RepMovsb \<Rightarrow> keep (kern Kernel_Rep dst src n m)
      | DirectNt \<Rightarrow> keep (direct_nt_copy kern dst src n m)
      | ParallelNt \<Rightarrow>
          (case rt of
             None \<Rightarrow> keep (direct_nt_copy kern dst src n m)
           | Some r \<Rightarrow>
               map_option (\<lambda>(r, m). (Some r, m)) (execute_parallel_copy kern early late caller_cpu (cp_worker_count plan) dst src n (r, m))))"

text \<open>
  \<open>rt\<close> is the shared runtime, made by \<open>construct\<close> at its first use; a construction that throws
  is tried again at the next use.
\<close>

definition try_get_memory_runtime :: "memory_runtime option \<Rightarrow> memory_runtime option \<Rightarrow> memory_runtime option" where
  "try_get_memory_runtime construct rt = (case rt of Some r \<Rightarrow> Some r | None \<Rightarrow> construct)"

definition memcpy_with ::
    "kernels \<Rightarrow> cpu_capabilities \<Rightarrow> memory_runtime option \<Rightarrow> nat list \<Rightarrow> nat list \<Rightarrow> int \<Rightarrow> copy_backend \<Rightarrow> copy_hint
     \<Rightarrow> nat \<Rightarrow> nat \<Rightarrow> nat \<Rightarrow> memory_runtime option \<times> memory \<Rightarrow> (memory_runtime option \<times> memory) option" where
  "memcpy_with kern caps construct early late caller_cpu backend hint dst src n s =
     (if n = 0 then Some s
      else do {
        plan \<leftarrow> make_copy_plan_for_backend n hint backend caps;
        let s = (if cp_strategy plan = ParallelNt then (try_get_memory_runtime construct (fst s), snd s) else s);
        execute_copy_plan kern early late caller_cpu plan dst src n s })"

definition tlss_memcpy ::
    "kernels \<Rightarrow> cpu_capabilities \<Rightarrow> memory_runtime option \<Rightarrow> nat list \<Rightarrow> nat list \<Rightarrow> int
     \<Rightarrow> nat \<Rightarrow> nat \<Rightarrow> nat \<Rightarrow> memory_runtime option \<times> memory \<Rightarrow> (memory_runtime option \<times> memory) option" where
  "tlss_memcpy kern caps construct early late caller_cpu dst src n s =
     memcpy_with kern caps construct early late caller_cpu Backend_Auto Hint_Default dst src n s"

section \<open>Copying ranges\<close>

text \<open>The memory after the addresses in \<open>D\<close> of a copy from \<open>src\<close> to \<open>dst\<close> have been written.\<close>

definition copied_on :: "nat \<Rightarrow> nat \<Rightarrow> nat set \<Rightarrow> memory \<Rightarrow> memory" where
  "copied_on dst src D m = (\<lambda>a. if a \<in> D then m (src + (a - dst)) else m a)"

definition copied :: "nat \<Rightarrow> nat \<Rightarrow> nat \<Rightarrow> memory \<Rightarrow> memory" where
  "copied dst src n = copied_on dst src {dst..<dst + n}"

definition apart :: "nat \<Rightarrow> nat \<Rightarrow> nat \<Rightarrow> bool" where
  "apart dst src n \<longleftrightarrow> dst + n \<le> src \<or> src + n \<le> dst"

text \<open>
  What the kernels promise: ranges that do not overlap are copied; the AVX2 kernels need that
  instruction set, and the non-temporal one an aligned destination and whole blocks.
\<close>

definition kernels_ok :: "cpu_capabilities \<Rightarrow> kernels \<Rightarrow> bool" where
  "kernels_ok caps kern \<longleftrightarrow>
     (\<forall>k dst src n m. apart dst src n \<and> (k = Kernel_Avx2 \<or> k = Kernel_Nt \<longrightarrow> avx2_usable caps)
        \<and> (k = Kernel_Nt \<longrightarrow> dst mod 32 = 0 \<and> n mod 8192 = 0) \<longrightarrow> kern k dst src n m = Some (copied dst src n m))"

lemma copied_on_empty [simp]: "copied_on dst src {} m = m"
  by (simp add: copied_on_def)

lemma copied_on_union:
  assumes "apart dst src n" and "D \<subseteq> {dst..<dst + n}" and "E \<subseteq> {dst..<dst + n}"
  shows "copied_on dst src E (copied_on dst src D m) = copied_on dst src (D \<union> E) m"
proof
  fix a
  have "src + (a - dst) \<notin> D" if "a \<in> E"
  proof
    assume "src + (a - dst) \<in> D"
    with assms(2) have "dst \<le> src + (a - dst)" "src + (a - dst) < dst + n" by auto
    moreover from that assms(3) have "dst \<le> a" "a < dst + n" by auto
    ultimately show False using assms(1) by (auto simp: apart_def)
  qed
  then show "copied_on dst src E (copied_on dst src D m) a = copied_on dst src (D \<union> E) m a"
    by (auto simp: copied_on_def)
qed

lemma copied_shift: "copied (dst + off) (src + off) k m = copied_on dst src {dst + off..<dst + off + k} m"
  unfolding copied_def copied_on_def by (rule ext) (auto simp: algebra_simps)

lemma apart_part: "apart dst src n \<Longrightarrow> off + k \<le> n \<Longrightarrow> apart (dst + off) (src + off) k"
  by (auto simp: apart_def)

lemma kernel_part:
  assumes "kernels_ok caps kern" and "avx2_usable caps" and "apart dst src n" and "off + k \<le> n" and "D \<subseteq> {dst..<dst + n}"
    and "kn = Kernel_Nt \<Longrightarrow> (dst + off) mod 32 = 0 \<and> k mod 8192 = 0"
  shows "kern kn (dst + off) (src + off) k (copied_on dst src D m)
    = Some (copied_on dst src (D \<union> {dst + off..<dst + off + k}) m)"
proof -
  have "kern kn (dst + off) (src + off) k (copied_on dst src D m) = Some (copied (dst + off) (src + off) k (copied_on dst src D m))"
    using assms(2,6) apart_part [OF assms(3,4)]
    by (intro assms(1) [unfolded kernels_ok_def, rule_format]) blast
  also have "\<dots> = Some (copied_on dst src (D \<union> {dst + off..<dst + off + k}) m)"
    unfolding copied_shift using assms(4,5) by (subst copied_on_union [OF assms(3)]) auto
  finally show ?thesis .
qed

section \<open>The partition\<close>

lemma and_31: "a AND ((32 :: nat) - 1) = a mod 32"
proof -
  have "a AND mask 5 = take_bit 5 a" by (simp add: take_bit_eq_mask)
  then show ?thesis by (simp add: mask_eq_exp_minus_1 take_bit_eq_mod)
qed

lemma partition_facts:
  fixes dst n w :: nat
  defines "p \<equiv> make_copy_partition dst n w"
  assumes "dst \<noteq> 0" and "n \<noteq> 0" and "w \<noteq> 0"
  shows "prefix_size p + body_size p + tail_size p = n"
    and "body_size p mod 8192 = 0"
    and "body_size p \<noteq> 0 \<Longrightarrow> (dst + prefix_size p) mod 32 = 0 \<and> w \<le> body_size p div 8192"
proof -
  define mis where "mis = dst mod 32"
  define pre where "pre = (if mis \<noteq> 0 then 32 - mis else 0)"
  define pre' where "pre' = (if pre > n then n else pre)"
  define blocks where "blocks = (n - pre') div 8192"
  have p: "p = (if blocks < w then \<lparr>prefix_size = pre', body_size = 0, tail_size = n - pre'\<rparr>
      else \<lparr>prefix_size = pre', body_size = blocks * 8192, tail_size = n - pre' - blocks * 8192\<rparr>)"
    using assms(2-4)
    unfolding p_def make_copy_partition_def Let_def k_nt_alignment_def k_nt_block_size_def blocks_def pre'_def pre_def mis_def and_31
    by (simp only: if_False simp_thms)
  have le: "pre' \<le> n" "blocks * 8192 \<le> n - pre'" by (simp_all add: pre'_def blocks_def)
  show "prefix_size p + body_size p + tail_size p = n" using le by (simp add: p)
  show "body_size p mod 8192 = 0" by (simp add: p)
  show "(dst + prefix_size p) mod 32 = 0 \<and> w \<le> body_size p div 8192" if b: "body_size p \<noteq> 0"
  proof -
    have "\<not> blocks < w" "blocks \<noteq> 0" using b by (auto simp: p split: if_split_asm)
    then have "pre' < n" using le by (auto simp: blocks_def)
    then have "pre' = pre" by (auto simp: pre'_def split: if_split_asm)
    moreover have "(dst + pre) mod 32 = 0"
    proof (cases "mis = 0")
      case False
      have "(dst + (32 - dst mod 32)) mod 32 = 0" by presburger
      then show ?thesis using False by (simp add: pre_def mis_def)
    qed (simp add: mis_def pre_def)
    ultimately show ?thesis using \<open>\<not> blocks < w\<close> by (simp add: p)
  qed
qed

lemma direct_nt_copy_exact:
  assumes k: "kernels_ok caps kern" "avx2_usable caps" and "apart dst src n" and "dst \<noteq> 0"
  shows "direct_nt_copy kern dst src n m = Some (copied dst src n m)"
proof (cases "n = 0")
  case True
  then show ?thesis by (simp add: direct_nt_copy_def copied_def)
next
  case False
  define p where "p = make_copy_partition dst n 1"
  note f = partition_facts [OF assms(4) False one_neq_zero, folded p_def]
  show ?thesis
  proof (cases "body_size p = 0")
    case True
    then show ?thesis using False kernel_part [OF k assms(3), of 0 n "{}" Kernel_Avx2 m]
      by (simp add: direct_nt_copy_def p_def Let_def copied_def)
  next
    case body: False
    let ?A = "{dst..<dst + prefix_size p}"
    let ?B = "{dst + prefix_size p..<dst + prefix_size p + body_size p}"
    let ?C = "{dst + (prefix_size p + body_size p)..<dst + (prefix_size p + body_size p) + tail_size p}"
    have 1: "(if prefix_size p \<noteq> 0 then kern Kernel_Avx2 dst src (prefix_size p) m else Some m) = Some (copied_on dst src ?A m)"
      using kernel_part [OF k assms(3), of 0 "prefix_size p" "{}" Kernel_Avx2 m] f(1) by simp
    have 2: "kern Kernel_Nt (dst + prefix_size p) (src + prefix_size p) (body_size p) (copied_on dst src ?A m)
        = Some (copied_on dst src (?A \<union> ?B) m)"
      using kernel_part [OF k assms(3), of "prefix_size p" "body_size p" ?A Kernel_Nt m] f(1,2) f(3) [OF body] by simp
    have 3: "(if tail_size p \<noteq> 0 then kern Kernel_Avx2 (dst + (prefix_size p + body_size p)) (src + (prefix_size p + body_size p)) (tail_size p)
        (copied_on dst src (?A \<union> ?B) m) else Some (copied_on dst src (?A \<union> ?B) m)) = Some (copied_on dst src (?A \<union> ?B \<union> ?C) m)"
      using kernel_part [OF k assms(3), of "prefix_size p + body_size p" "tail_size p" "?A \<union> ?B" Kernel_Avx2 m] f(1) by auto
    have 4: "?A \<union> ?B \<union> ?C = {dst..<dst + n}" using f(1) by auto
    show ?thesis using False body 2 unfolding direct_nt_copy_def p_def [symmetric] Let_def
      by (simp only: if_False 1 bind.bind_lunit 2 3 4 copied_def)
  qed
qed

section \<open>The pool\<close>

definition pool_ok :: "copy_pool \<Rightarrow> bool" where
  "pool_ok pool \<longleftrightarrow>
     length (pool_tasks pool) = pool_worker_count pool \<and> length (pool_generation pool) = pool_worker_count pool
     \<and> pool_observed pool = pool_generation pool \<and> (\<forall>g \<in> set (pool_generation pool). g \<le> pool_submitted pool)
     \<and> \<not> pool_in_flight pool \<and> \<not> pool_stopping pool"

lemma valid_worker_indices_iff: "valid_worker_indices n active \<longleftrightarrow> workers_ok n active"
  by (induction active) (auto simp: workers_ok_def)

definition task_range :: "copy_task \<Rightarrow> nat set" where
  "task_range t = {task_dst t..<task_dst t + task_size t}"

text \<open>A task of a copy from \<open>src\<close> to \<open>dst\<close>: whole blocks of the part between two offsets.\<close>

definition task_within :: "nat \<Rightarrow> nat \<Rightarrow> nat \<Rightarrow> nat \<Rightarrow> copy_task \<Rightarrow> bool" where
  "task_within dst src a b t \<longleftrightarrow>
     (\<exists>off. t = \<lparr>task_dst = dst + off, task_src = src + off, task_size = task_size t\<rparr> \<and> a \<le> off \<and> off + task_size t \<le> b
        \<and> off mod 8192 = 0 \<and> task_size t mod 8192 = 0 \<and> task_size t \<noteq> 0)"

lemma task_within_mono: "task_within dst src a b t \<Longrightarrow> a' \<le> a \<Longrightarrow> b \<le> b' \<Longrightarrow> task_within dst src a' b' t"
  unfolding task_within_def by (meson order_trans)

lemma assign_tasks_end:
  "snd (assign_tasks base extra dst src active rank off tasks)
     = off + (base * length active + (min (rank + length active) extra - min rank extra)) * 8192"
proof (induction active arbitrary: rank off tasks)
  case (Cons i active)
  define x where "x = (if rank < extra then 1 else 0 :: nat)"
  define y where "y = min (Suc rank + length active) extra - min (Suc rank) extra"
  have xy: "min (rank + length (i # active)) extra - min rank extra = x + y" by (auto simp: x_def y_def)
  have "snd (assign_tasks base extra dst src (i # active) rank off tasks)
      = off + (base + x) * 8192 + (base * length active + y) * 8192"
    by (simp add: Let_def Cons.IH k_nt_block_size_def x_def y_def)
  also have "\<dots> = off + (base * length (i # active) + (x + y)) * 8192" by (simp add: algebra_simps)
  finally show ?case unfolding xy .
qed (simp add: min_def)

lemma assign_tasks_facts:
  assumes "workers_ok (length tasks) active" and "base \<noteq> 0" and "off mod 8192 = 0"
    and "assign_tasks base extra dst src active rank off tasks = (tasks', e)"
  shows "length tasks' = length tasks \<and> off \<le> e \<and> (\<forall>j. j \<notin> set active \<longrightarrow> tasks' ! j = tasks ! j)
    \<and> (\<forall>j \<in> set active. task_within dst src off e (tasks' ! j))
    \<and> (\<Union>j \<in> set active. task_range (tasks' ! j)) = {dst + off..<dst + e}"
  using assms
proof (induction active arbitrary: rank off tasks)
  case (Cons i active)
  let ?n = "(base + (if rank < extra then 1 else 0)) * 8192"
  let ?t = "\<lparr>task_dst = dst + off, task_src = src + off, task_size = ?n\<rparr>"
  have rec: "assign_tasks base extra dst src active (rank + 1) (off + ?n) (tasks[i := ?t]) = (tasks', e)"
    using Cons.prems(4) by (simp add: Let_def k_nt_block_size_def)
  have ok: "workers_ok (length (tasks[i := ?t])) active" "i < length tasks" "i \<notin> set active"
    using Cons.prems(1) by (auto simp: workers_ok_def)
  have "(off + ?n) mod 8192 = 0" using Cons.prems(3) by (simp add: mod_add_left_eq [symmetric])
  note ih = Cons.IH [OF ok(1) Cons.prems(2) this rec]
  have ti: "tasks' ! i = ?t" using ih ok(2,3) by simp
  have r: "task_range ?t = {dst + off..<dst + off + ?n}" by (simp add: task_range_def)
  have "task_within dst src off (off + ?n) ?t"
    unfolding task_within_def using Cons.prems(2,3) by (intro exI [of _ off]) auto
  then have "task_within dst src off e (tasks' ! i)" using task_within_mono ih ti by fastforce
  moreover have "task_within dst src off e (tasks' ! j)" if "j \<in> set active" for j
    using ih that task_within_mono [of dst src "off + ?n" e "tasks' ! j" off e] by simp
  moreover have "{dst + off..<dst + off + ?n} \<union> {dst + (off + ?n)..<dst + e} = {dst + off..<dst + e}"
    using ih by auto
  ultimately show ?case using ih ti r ok by auto
qed (auto simp: task_range_def)

lemma publish_nth: "length (publish g active gens) = length gens \<and>
    (workers_ok (length gens) active \<longrightarrow> (\<forall>j < length gens. publish g active gens ! j = (if j \<in> set active then g else gens ! j)))"
proof (induction active arbitrary: gens)
  case (Cons i active)
  have "workers_ok (length gens) (i # active) \<Longrightarrow> workers_ok (length (gens[i := g])) active" by (auto simp: workers_ok_def)
  with Cons [of "gens[i := g]"] show ?case by (auto simp: workers_ok_def nth_list_update)
qed simp

text \<open>What a dispatch sets up for a request of whole blocks.\<close>

lemma dispatch_copy_facts:
  assumes "pool_ok pool" and "workers_ok (pool_worker_count pool) active" and "active \<noteq> []"
    and "dst \<noteq> 0" and "src \<noteq> 0" and "n \<noteq> 0" and "dst mod 32 = 0" and "n mod 8192 = 0" and "length active \<le> n div 8192"
  obtains tasks where
    "dispatch_copy active dst src n pool = Some (pool\<lparr>pool_tasks := tasks, pool_expected := length active, pool_completed := 0,
        pool_submitted := pool_submitted pool + 1, pool_in_flight := True,
        pool_generation := publish (pool_submitted pool + 1) active (pool_generation pool)\<rparr>)"
    and "length tasks = pool_worker_count pool" and "\<forall>j \<in> set active. task_within dst src 0 n (tasks ! j)"
    and "(\<Union>j \<in> set active. task_range (tasks ! j)) = {dst..<dst + n}"
proof -
  let ?w = "length active" and ?b = "n div 8192"
  obtain tasks e where t: "assign_tasks (?b div ?w) (?b mod ?w) dst src active 0 0 (replicate (length (pool_tasks pool)) no_task) = (tasks, e)"
    by fastforce
  have "?w \<noteq> 0" using assms(3) by simp
  have "e = (?b div ?w * ?w + min ?w (?b mod ?w)) * 8192"
    using assign_tasks_end [of "?b div ?w" "?b mod ?w" dst src active 0 0 "replicate (length (pool_tasks pool)) no_task"] t by simp
  also have "min ?w (?b mod ?w) = ?b mod ?w" using \<open>?w \<noteq> 0\<close> by (simp add: min_absorb2 less_imp_le)
  also have "(?b div ?w * ?w + ?b mod ?w) * 8192 = n" using assms(8) div_mult_mod_eq [of n 8192] by simp
  finally have e: "e = n" .
  have "?b div ?w \<noteq> 0" using \<open>?w \<noteq> 0\<close> assms(9) by (simp add: div_eq_0_iff)
  note f = assign_tasks_facts [OF _ this _ t, unfolded e]
  have f': "length tasks = length (pool_tasks pool)" "\<forall>j \<in> set active. task_within dst src 0 n (tasks ! j)"
    "(\<Union>j \<in> set active. task_range (tasks ! j)) = {dst..<dst + n}"
    using f assms(1,2) by (simp_all add: pool_ok_def)
  have "validate_request dst src n" 
    using assms(4-8) unfolding validate_request_def is_aligned_def k_nt_alignment_def k_nt_block_size_def and_31 by simp
  then have "dispatch_copy active dst src n pool = Some (pool\<lparr>pool_tasks := tasks, pool_expected := length active, pool_completed := 0,
        pool_submitted := pool_submitted pool + 1, pool_in_flight := True,
        pool_generation := publish (pool_submitted pool + 1) active (pool_generation pool)\<rparr>)"
    using assms(1-3,9) t e by (simp add: dispatch_copy_def valid_worker_indices_iff Let_def k_nt_block_size_def pool_ok_def)
  with f' assms(1) show ?thesis by (intro that) (auto simp: pool_ok_def)
qed

text \<open>
  While a dispatched copy is in flight: the workers in \<open>W\<close> have done their part, and those parts
  and the addresses in \<open>E\<close>, which the caller has copied, have been written.
\<close>

definition in_flight_state ::
    "nat \<Rightarrow> nat \<Rightarrow> memory \<Rightarrow> copy_pool \<Rightarrow> nat set \<Rightarrow> nat set \<Rightarrow> copy_pool \<times> memory \<Rightarrow> bool" where
  "in_flight_state dst src m0 pool W E s \<longleftrightarrow>
     fst s = pool\<lparr>pool_observed := map (\<lambda>i. if i \<in> W then pool_generation pool ! i else pool_observed pool ! i)
                    [0..<pool_worker_count pool], pool_completed := card W\<rparr>
     \<and> snd s = copied_on dst src ((\<Union>i \<in> W. task_range (pool_tasks pool ! i)) \<union> E) m0"

text \<open>The pool right after a dispatch to the workers \<open>active\<close> of a copy of \<open>n\<close> bytes at offset \<open>off\<close>.\<close>

definition dispatched :: "nat \<Rightarrow> nat \<Rightarrow> nat \<Rightarrow> nat \<Rightarrow> nat set \<Rightarrow> copy_pool \<Rightarrow> bool" where
  "dispatched dst src off n active pool \<longleftrightarrow>
     finite active \<and> (dst + off) mod 32 = 0 \<and> \<not> pool_stopping pool \<and> (\<forall>i \<in> active. i < pool_worker_count pool)
     \<and> length (pool_observed pool) = pool_worker_count pool
     \<and> (\<forall>i < pool_worker_count pool. pool_generation pool ! i \<noteq> pool_observed pool ! i \<longleftrightarrow> i \<in> active)
     \<and> (\<forall>i \<in> active. task_within (dst + off) (src + off) 0 n (pool_tasks pool ! i))"

lemma task_range_within: "task_within dst src a b t \<Longrightarrow> task_range t \<subseteq> {dst + a..<dst + b}"
proof -
  assume "task_within dst src a b t"
  then obtain off where "task_dst t = dst + off" "a \<le> off" "off + task_size t \<le> b"
    unfolding task_within_def by (metis copy_task.select_convs(1))
  then show ?thesis by (auto simp: task_range_def)
qed

lemma copy_worker_turn_step:
  assumes k: "kernels_ok caps kern" "avx2_usable caps" and "apart dst src len" and "off + n \<le> len"
    and d: "dispatched dst src off n active pool" and s: "in_flight_state dst src m0 pool W E s"
    and "W \<subseteq> active" and "E \<subseteq> {dst..<dst + len}" and "i < pool_worker_count pool"
  shows "\<exists>s'. copy_worker_turn kern i s = Some s' \<and> in_flight_state dst src m0 pool (W \<union> ({i} \<inter> active)) E s'"
proof -
  let ?obs = "\<lambda>W. map (\<lambda>i. if i \<in> W then pool_generation pool ! i else pool_observed pool ! i) [0..<pool_worker_count pool]"
  let ?D = "\<lambda>W. (\<Union>i \<in> W. task_range (pool_tasks pool ! i)) \<union> E"
  have st: "s = (pool\<lparr>pool_observed := ?obs W, pool_completed := card W\<rparr>, copied_on dst src (?D W) m0)"
    using s by (cases s) (simp add: in_flight_state_def)
  have ns: "\<not> pool_stopping pool" using d by (simp add: dispatched_def)
  have obs: "?obs W ! i = (if i \<in> W then pool_generation pool ! i else pool_observed pool ! i)" using assms(9) by simp
  have gen: "pool_generation pool ! i \<noteq> pool_observed pool ! i \<longleftrightarrow> i \<in> active"
    using d assms(9) unfolding dispatched_def by blast
  show ?thesis
  proof (cases "i \<in> active \<and> i \<notin> W")
    case False
    then have "?obs W ! i = pool_generation pool ! i" using gen obs by (cases "i \<in> W") simp_all
    then have "copy_worker_turn kern i s = Some s" using ns by (simp add: copy_worker_turn_def st)
    moreover have "W \<union> ({i} \<inter> active) = W" using False by auto
    ultimately show ?thesis using s by simp
  next
    case True
    then have ne: "?obs W ! i \<noteq> pool_generation pool ! i" using gen obs by simp
    let ?t = "pool_tasks pool ! i"
    have tw: "task_within (dst + off) (src + off) 0 n ?t" using d True by (simp add: dispatched_def)
    then obtain o' where t: "task_dst ?t = dst + (off + o')" "task_src ?t = src + (off + o')" "o' + task_size ?t \<le> n"
        "o' mod 8192 = 0" "task_size ?t mod 8192 = 0" "task_size ?t \<noteq> 0"
      unfolding task_within_def by (metis add.assoc copy_task.select_convs)
    have sub: "?D W \<subseteq> {dst..<dst + len}"
    proof -
      have "task_range (pool_tasks pool ! j) \<subseteq> {dst..<dst + len}" if "j \<in> W" for j
        using d that assms(4,7) task_range_within [of "dst + off" "src + off" 0 n "pool_tasks pool ! j"]
        by (force simp: dispatched_def)
      then show ?thesis using assms(8) by blast
    qed
    have "(32 :: nat) dvd 8192" by simp
    then have "32 dvd o'" using t(4) dvd_trans by (metis mod_0_imp_dvd)
    moreover have "32 dvd dst + off" using d unfolding dispatched_def by (simp add: mod_0_imp_dvd)
    ultimately have al: "(dst + (off + o')) mod 32 = 0" by (metis add.assoc dvd_add mod_eq_0_iff_dvd)
    have tr: "task_range ?t = {dst + (off + o')..<dst + (off + o') + task_size ?t}" by (simp add: task_range_def t(1))
    have ker: "kern Kernel_Nt (task_dst ?t) (task_src ?t) (task_size ?t) (copied_on dst src (?D W) m0)
        = Some (copied_on dst src (?D W \<union> task_range ?t) m0)"
      unfolding tr t(1,2) using t(3,5) assms(4) al by (intro kernel_part [OF k assms(3) _ sub]) auto
    have "?D W \<union> task_range ?t = ?D (insert i W)" by auto
    moreover have "(?obs W)[i := pool_generation pool ! i] = ?obs (insert i W)"
      using assms(9) by (intro nth_equalityI) (auto simp: nth_list_update)
    moreover have "card (insert i W) = card W + 1"
      using True d finite_subset [OF assms(7)] unfolding dispatched_def by simp
    ultimately have "copy_worker_turn kern i s = Some (pool\<lparr>pool_observed := ?obs (insert i W), pool_completed := card (insert i W)\<rparr>,
        copied_on dst src (?D (insert i W)) m0)"
      using ns ne t(6) ker by (simp add: copy_worker_turn_def st Let_def)
    moreover have "W \<union> ({i} \<inter> active) = insert i W" using True by auto
    ultimately show ?thesis by (simp add: in_flight_state_def)
  qed
qed

lemma run_workers_steps:
  assumes k: "kernels_ok caps kern" "avx2_usable caps" and "apart dst src len" and "off + n \<le> len"
    and d: "dispatched dst src off n active pool" and "E \<subseteq> {dst..<dst + len}"
  shows "in_flight_state dst src m0 pool W E s \<Longrightarrow> W \<subseteq> active \<Longrightarrow>
    \<exists>s'. run_workers kern schedule s = Some s' \<and> in_flight_state dst src m0 pool (W \<union> (set schedule \<inter> active)) E s'"
proof (induction schedule arbitrary: W s)
  case (Cons i schedule)
  have cnt: "pool_worker_count (fst s) = pool_worker_count pool" using Cons.prems(1) by (simp add: in_flight_state_def)
  have in_W: "W \<union> ({i} \<inter> active) \<subseteq> active" using Cons.prems(2) by auto
  have set_eq: "W \<union> ({i} \<inter> active) \<union> (set schedule \<inter> active) = W \<union> (set (i # schedule) \<inter> active)" by auto
  show ?case
  proof (cases "i < pool_worker_count pool")
    case True
    from copy_worker_turn_step [OF k assms(3,4) d Cons.prems(1,2) assms(6) True] obtain s1 where
      s1: "copy_worker_turn kern i s = Some s1" "in_flight_state dst src m0 pool (W \<union> ({i} \<inter> active)) E s1" by blast
    from Cons.IH [OF s1(2) in_W] s1(1) True cnt show ?thesis unfolding set_eq by simp
  next
    case False
    then have "{i} \<inter> active = {}" using d by (auto simp: dispatched_def)
    then have "W \<union> (set schedule \<inter> active) = W \<union> (set (i # schedule) \<inter> active)" by auto
    with Cons.IH [OF Cons.prems] False cnt show ?thesis by simp
  qed
qed simp

lemma word_Suc_greater: "g \<le> (n :: u64) \<Longrightarrow> n \<noteq> -1 \<Longrightarrow> g < n + 1"
proof -
  assume a: "g \<le> n" "n \<noteq> -1"
  have "n + 1 \<noteq> 0"
  proof
    assume "n + 1 = 0"
    then have "n = -1" by (simp add: eq_neg_iff_add_eq_0)
    with a(2) show False by simp
  qed
  with word_less_Suc [OF a(1)] show ?thesis by blast
qed

text \<open>The body of a copy, shared by the workers while the caller copies the tail.\<close>

lemma shared_body_exact:
  assumes k: "kernels_ok caps kern" "avx2_usable caps" and ap: "apart dst src len" and "dst \<noteq> 0" and "src \<noteq> 0"
    and ok: "pool_ok pool" "workers_ok (pool_worker_count pool) active" "active \<noteq> []" "pool_submitted pool \<noteq> -1"
    and len: "len = pre + body + post" "body \<noteq> 0" "body mod 8192 = 0" "(dst + pre) mod 32 = 0" "length active \<le> body div 8192"
    and served: "set active \<subseteq> set (early @ late)"
  shows "\<exists>pool'. (do {
      pool \<leftarrow> dispatch_copy active (dst + pre) (src + pre) body pool;
      (pool, m) \<leftarrow> run_workers kern early (pool, copied_on dst src {dst..<dst + pre} m);
      m \<leftarrow> (if post \<noteq> 0 then kern Kernel_Avx2 (dst + (pre + body)) (src + (pre + body)) post m else Some m);
      (pool, m) \<leftarrow> run_workers kern late (pool, m);
      pool \<leftarrow> pool_wait pool;
      Some (pool, m) }) = Some (pool', copied dst src len m) \<and> pool_ok pool' \<and> pool_worker_count pool' = pool_worker_count pool"
proof -
  let ?A = "{dst..<dst + pre}" and ?C = "{dst + (pre + body)..<dst + (pre + body) + post}"
  obtain tasks where t: "dispatch_copy active (dst + pre) (src + pre) body pool = Some (pool\<lparr>pool_tasks := tasks,
        pool_expected := length active, pool_completed := 0, pool_submitted := pool_submitted pool + 1, pool_in_flight := True,
        pool_generation := publish (pool_submitted pool + 1) active (pool_generation pool)\<rparr>)"
      "length tasks = pool_worker_count pool" "\<forall>j \<in> set active. task_within (dst + pre) (src + pre) 0 body (tasks ! j)"
      "(\<Union>j \<in> set active. task_range (tasks ! j)) = {dst + pre..<dst + pre + body}"
    using dispatch_copy_facts [OF ok(1-3), of "dst + pre" "src + pre" body] assms(4,5) len(2-5) by auto
  define p1 where "p1 = pool\<lparr>pool_tasks := tasks, pool_expected := length active, pool_completed := 0,
      pool_submitted := pool_submitted pool + 1, pool_in_flight := True,
      pool_generation := publish (pool_submitted pool + 1) active (pool_generation pool)\<rparr>"
  let ?gens = "pool_generation p1"
  have lens: "length (pool_observed pool) = pool_worker_count pool" "length ?gens = pool_worker_count pool"
    using ok(1) publish_nth [of "pool_submitted pool + 1" active "pool_generation pool"] by (auto simp: pool_ok_def p1_def)
  have gens: "?gens ! i = (if i \<in> set active then pool_submitted pool + 1 else pool_observed pool ! i)" if "i < pool_worker_count pool" for i
    using that ok(1,2) publish_nth [of "pool_submitted pool + 1" active "pool_generation pool"] by (auto simp: pool_ok_def p1_def)
  have less: "pool_observed pool ! i < pool_submitted pool + 1" if "i < pool_worker_count pool" for i
    using that ok(1,4) lens(1) by (intro word_Suc_greater) (auto simp: pool_ok_def)
  have d: "dispatched dst src pre body (set active) p1"
    unfolding dispatched_def
  proof (intro conjI allI impI ballI)
    show "(pool_generation p1 ! i \<noteq> pool_observed p1 ! i) = (i \<in> set active)" if "i < pool_worker_count p1" for i
      using gens [of i] less [of i] that by (auto simp: p1_def)
  qed (use ok t lens len(4) in \<open>auto simp: p1_def workers_ok_def pool_ok_def\<close>)
  have s0: "in_flight_state dst src m p1 {} ?A (p1, copied_on dst src ?A m)"
    using lens(1) map_nth [of "pool_observed pool"] by (simp add: in_flight_state_def p1_def)
  have pb: "pre + body \<le> len" and subA: "?A \<subseteq> {dst..<dst + len}" using len(1) by auto
  from run_workers_steps [OF k ap pb d subA s0, of early] obtain s1 where
    s1: "run_workers kern early (p1, copied_on dst src ?A m) = Some s1" "in_flight_state dst src m p1 (set early \<inter> set active) ?A s1" by auto
  let ?D = "(\<Union>i \<in> set early \<inter> set active. task_range (tasks ! i)) \<union> ?A"
  have m1: "snd s1 = copied_on dst src ?D m" "pool_tasks (fst s1) = tasks" using s1(2) by (simp_all add: in_flight_state_def p1_def)
  have "(\<Union>i \<in> set early \<inter> set active. task_range (tasks ! i)) \<subseteq> {dst + pre..<dst + pre + body}" using t(4) by blast
  then have subD: "?D \<subseteq> {dst..<dst + len}" using pb by auto
  have tail: "(if post \<noteq> 0 then kern Kernel_Avx2 (dst + (pre + body)) (src + (pre + body)) post (snd s1) else Some (snd s1))
      = Some (copied_on dst src (?D \<union> ?C) m)"
    unfolding m1 using kernel_part [OF k ap _ subD, of "pre + body" post Kernel_Avx2 m] len(1) by simp
  have s2: "in_flight_state dst src m p1 (set early \<inter> set active) (?A \<union> ?C) (fst s1, copied_on dst src (?D \<union> ?C) m)"
    using s1(2) by (simp add: in_flight_state_def p1_def Un_assoc)
  have subAC: "?A \<union> ?C \<subseteq> {dst..<dst + len}" using len(1) by auto
  from run_workers_steps [OF k ap pb d subAC s2, of late] obtain s3 where
    s3: "run_workers kern late (fst s1, copied_on dst src (?D \<union> ?C) m) = Some s3"
      "in_flight_state dst src m p1 (set early \<inter> set active \<union> (set late \<inter> set active)) (?A \<union> ?C) s3" by auto
  have all: "set early \<inter> set active \<union> (set late \<inter> set active) = set active" using served by auto
  have "{dst + pre..<dst + pre + body} \<union> (?A \<union> ?C) = {dst..<dst + len}" using len(1) by auto
  then have mem: "snd s3 = copied dst src len m" using s3(2) t(4) unfolding all by (simp add: in_flight_state_def copied_def p1_def)
  have pool3: "fst s3 = p1\<lparr>pool_observed := map (\<lambda>i. if i \<in> set active then ?gens ! i else pool_observed p1 ! i)
      [0..<pool_worker_count p1], pool_completed := card (set active)\<rparr>"
    using s3(2) unfolding all by (simp add: in_flight_state_def)
  have obs: "map (\<lambda>i. if i \<in> set active then ?gens ! i else pool_observed p1 ! i) [0..<pool_worker_count p1] = ?gens"
    using lens gens by (intro nth_equalityI) (auto simp: p1_def)
  have fl: "pool_in_flight (fst s3)" "pool_completed (fst s3) = pool_expected (fst s3)"
    using ok(2) by (simp_all add: pool3 p1_def workers_ok_def distinct_card)
  let ?p = "(fst s3)\<lparr>pool_in_flight := False\<rparr>"
  have wait: "pool_wait (fst s3) = Some ?p" using fl by (simp add: pool_wait_def)
  have bound: "g \<le> pool_submitted pool + 1" if g: "g \<in> set ?gens" for g
  proof -
    obtain i where "i < pool_worker_count pool" "g = ?gens ! i" using g lens(2) by (auto simp: in_set_conv_nth)
    then show ?thesis using gens less by (auto simp: order.strict_implies_order)
  qed
  have "pool_ok ?p" using ok(1) t(2) lens bound unfolding pool3 obs pool_ok_def by (auto simp: p1_def)
  moreover have "pool_worker_count ?p = pool_worker_count pool" by (simp add: pool3 p1_def)
  moreover have "(do {
      pool \<leftarrow> dispatch_copy active (dst + pre) (src + pre) body pool;
      (pool, m) \<leftarrow> run_workers kern early (pool, copied_on dst src ?A m);
      m \<leftarrow> (if post \<noteq> 0 then kern Kernel_Avx2 (dst + (pre + body)) (src + (pre + body)) post m else Some m);
      (pool, m) \<leftarrow> run_workers kern late (pool, m);
      pool \<leftarrow> pool_wait pool;
      Some (pool, m) }) = Some (?p, copied dst src len m)"
    using s1(1) tail s3(1) wait mem unfolding t(1) p1_def [symmetric]
    by (cases s1; cases s3) (simp only: bind.bind_lunit prod.case fst_conv snd_conv)
  ultimately show ?thesis by blast
qed


lemma parallel_nt_copy_exact:
  assumes k: "kernels_ok caps kern" "avx2_usable caps" and ap: "apart dst src n" and "dst \<noteq> 0" and "src \<noteq> 0"
    and ok: "pool_ok pool" "workers_ok (pool_worker_count pool) active" "pool_submitted pool \<noteq> -1"
    and served: "set active \<subseteq> set (early @ late)"
  shows "\<exists>pool'. parallel_nt_copy kern early late active dst src n (pool, m) = Some (pool', copied dst src n m)
    \<and> pool_ok pool' \<and> pool_worker_count pool' = pool_worker_count pool"
proof (cases "n = 0 \<or> active = []")
  case True
  then show ?thesis using ok(1) kernel_part [OF k ap, of 0 n "{}" Kernel_Avx2 m]
    by (auto simp: parallel_nt_copy_def copied_def)
next
  case False
  define p where "p = make_copy_partition dst n (length active)"
  note f = partition_facts [OF assms(4), of n "length active", folded p_def]
  have f1: "prefix_size p + body_size p + tail_size p = n" "body_size p mod 8192 = 0"
    and f2: "body_size p \<noteq> 0 \<Longrightarrow> (dst + prefix_size p) mod 32 = 0 \<and> length active \<le> body_size p div 8192"
    using f False by auto
  have pre: "(if prefix_size p \<noteq> 0 then kern Kernel_Avx2 dst src (prefix_size p) m else Some m)
      = Some (copied_on dst src {dst..<dst + prefix_size p} m)"
    using kernel_part [OF k ap, of 0 "prefix_size p" "{}" Kernel_Avx2 m] f1(1) by simp
  show ?thesis
  proof (cases "body_size p = 0")
    case True
    have "kern Kernel_Avx2 dst src n (copied_on dst src {dst..<dst + prefix_size p} m)
        = Some (copied_on dst src ({dst..<dst + prefix_size p} \<union> {dst..<dst + n}) m)"
      using kernel_part [OF k ap, of 0 n "{dst..<dst + prefix_size p}" Kernel_Avx2 m] f1(1) by simp
    moreover have "{dst..<dst + prefix_size p} \<union> {dst..<dst + n} = {dst..<dst + n}" using f1(1) by auto
    moreover have "parallel_nt_copy kern early late active dst src n (pool, m)
        = map_option (Pair pool) (kern Kernel_Avx2 dst src n (copied_on dst src {dst..<dst + prefix_size p} m))"
      using False True unfolding parallel_nt_copy_def p_def [symmetric] Let_def
      by (simp only: if_False if_True simp_thms fst_conv snd_conv pre bind.bind_lunit de_Morgan_disj)
    ultimately show ?thesis using ok(1) by (simp add: copied_def)
  next
    case body: False
    have "active \<noteq> []" using False by simp
    from shared_body_exact [OF k ap assms(4,5) ok(1,2) this ok(3) f1(1) [symmetric] body f1(2)] f2 [OF body] served
    show ?thesis using False body unfolding parallel_nt_copy_def p_def [symmetric] Let_def
      by (simp only: if_False simp_thms fst_conv snd_conv pre bind.bind_lunit if_True de_Morgan_disj)
  qed
qed


section \<open>The runtime\<close>

definition runtime_ok :: "memory_runtime \<Rightarrow> bool" where
  "runtime_ok rt \<longleftrightarrow>
     (\<forall>pool. rt_master_pool rt = Some pool \<longrightarrow>
        (\<not> rt_master_pool_busy rt \<longrightarrow> pool_ok pool)
        \<and> (\<forall>plan \<in> set (rt_worker_plans rt). plan_valid plan \<longrightarrow>
             workers_ok (pool_worker_count pool) (active_workers_4 plan) \<and> workers_ok (pool_worker_count pool) (active_workers_8 plan)))"

definition plans_ok :: "nat \<Rightarrow> runtime_worker_plan list \<Rightarrow> bool" where
  "plans_ok n plans \<longleftrightarrow> (\<forall>plan \<in> set plans. plan_valid plan \<longrightarrow> workers_ok n (active_workers_4 plan) \<and> workers_ok n (active_workers_8 plan))"

lemma plans_ok_replicate: "plans_ok n (replicate k \<lparr>active_workers_4 = [], active_workers_8 = [], plan_valid = False\<rparr>)"
  by (simp add: plans_ok_def)

lemma plan_cpus_ok:
  assumes "distinct (logical_cpus (topo_physical_cores topology))"
  shows "plans_ok (length (select_master_worker_cpu_ids topology)) plans \<Longrightarrow>
    plans_ok (length (select_master_worker_cpu_ids topology)) (plan_cpus topology (select_master_worker_cpu_ids topology) cpus plans)"
proof (induction cpus arbitrary: plans)
  case (Cons cpu cpus)
  let ?n = "length (select_master_worker_cpu_ids topology)"
  have sel: "workers_ok ?n (select_active_workers (select_master_worker_cpu_ids topology) (select_worker_set (select_worker_candidates topology c) k))" for c k
    by (rule select_active_workers_ok(1) [OF worker_set_ok [OF assms]])
  have "plans_ok ?n (plans[i := plan])" if "worker_plan topology (select_master_worker_cpu_ids topology) c = Some plan" for i c plan
    using Cons.prems that sel set_update_subset_insert [of plans i plan]
    by (auto simp: plans_ok_def worker_plan_def Let_def split: if_split_asm)
  with Cons show ?case by (simp split: option.split)
qed simp

text \<open>Whatever processors the machine has, the constructed runtime is sound.\<close>

lemma new_memory_runtime_ok: "new_memory_runtime affinity fs sys pinned = Some rt \<Longrightarrow> runtime_ok rt"
proof -
  assume a: "new_memory_runtime affinity fs sys pinned = Some rt"
  then obtain ids where ids: "detect_available_cpu_ids affinity = Some ids"
    by (auto simp: new_memory_runtime_def elim!: bind_SomeE)
  define topology where "topology = detect_cpu_topology fs (detect_cpu_core_type sys) ids"
  let ?master = "select_master_worker_cpu_ids topology"
  have d: "distinct (logical_cpus (topo_physical_cores topology))"
    unfolding topology_def using detect_available_distinct [OF ids] by (intro detect_cpu_topology_distinct) blast
  show ?thesis
  proof (cases "?master = []")
    case True
    then show ?thesis using a ids by (simp add: new_memory_runtime_def Let_def topology_def [symmetric]) (auto simp: runtime_ok_def)
  next
    case False
    let ?rt = "\<lambda>pool. \<lparr>rt_topology = topology, rt_master_worker_cpu_ids = ?master, rt_master_pool = Some pool, rt_worker_plans = [],
        rt_master_pool_busy = False\<rparr>"
    from a ids False obtain pool where pool: "new_copy_pool pinned ?master = Some pool" "rt = build_runtime_worker_plans (?rt pool)"
      by (auto simp: new_memory_runtime_def Let_def topology_def [symmetric] elim!: bind_SomeE)
    have p: "pool_ok pool" "pool_worker_count pool = length ?master"
      using pool(1) by (auto simp: new_copy_pool_def pool_ok_def split: if_split_asm)
    have "plans_ok (length ?master) (rt_worker_plans rt)"
      using plan_cpus_ok [OF d plans_ok_replicate, of "topo_cpus topology" "nat (max_cpu_id (topo_cpus topology) (-1)) + 1"]
      unfolding pool(2) build_runtime_worker_plans_def Let_def
      by (cases "max_cpu_id (topo_cpus topology) (-1) < 0") (simp_all, simp add: plans_ok_def)
    moreover have "rt_master_pool rt = Some pool" "\<not> rt_master_pool_busy rt"
      unfolding pool(2) build_runtime_worker_plans_def Let_def by auto
    ultimately show ?thesis using p by (auto simp: runtime_ok_def plans_ok_def)
  qed
qed

lemma execute_parallel_copy_exact:
  assumes k: "kernels_ok caps kern" "avx2_usable caps" and ap: "apart dst src n" and "dst \<noteq> 0" and "src \<noteq> 0"
    and ok: "runtime_ok rt" and "\<And>pool. rt_master_pool rt = Some pool \<Longrightarrow> pool_submitted pool \<noteq> -1"
    and served: "\<And>pool. rt_master_pool rt = Some pool \<Longrightarrow> {..<pool_worker_count pool} \<subseteq> set (early @ late)"
  shows "\<exists>rt'. execute_parallel_copy kern early late cpu desired dst src n (rt, m) = Some (rt', copied dst src n m) \<and> runtime_ok rt'"
proof -
  let ?run = "execute_parallel_copy kern early late cpu desired dst src n (rt, m)"
  have direct: "?thesis" if "?run = map_option (Pair rt) (direct_nt_copy kern dst src n m)"
    using that direct_nt_copy_exact [OF k ap assms(4)] ok by simp
  show ?thesis
  proof (cases "rt_master_pool rt")
    case None
    then show ?thesis by (intro direct) (simp add: execute_parallel_copy_def)
  next
    case pool: (Some pool)
    show ?thesis
    proof (cases "find_runtime_worker_plan rt cpu")
      case None
      with pool show ?thesis by (intro direct) (simp add: execute_parallel_copy_def)
    next
      case plan: (Some plan)
      define active where "active = (if desired = 4 then active_workers_4 plan else active_workers_8 plan)"
      show ?thesis
      proof (cases "desired \<noteq> 4 \<and> desired \<noteq> 8 \<or> length active < 2 \<or> rt_master_pool_busy rt")
        case True
        with pool plan show ?thesis by (intro direct) (auto simp: execute_parallel_copy_def active_def Let_def)
      next
        case False
        have "plan \<in> set (rt_worker_plans rt) \<and> plan_valid plan"
          using plan by (auto simp: find_runtime_worker_plan_def Let_def split: if_split_asm)
        then have w: "workers_ok (pool_worker_count pool) active" and p: "pool_ok pool"
          using ok pool False by (auto simp: runtime_ok_def active_def)
        have "set active \<subseteq> set (early @ late)" using served [OF pool] w by (auto simp: workers_ok_def)
        from parallel_nt_copy_exact [OF k ap assms(4,5) p w assms(7) [OF pool] this] obtain pool' where
          r: "parallel_nt_copy kern early late active dst src n (pool, m) = Some (pool', copied dst src n m)"
            "pool_ok pool'" "pool_worker_count pool' = pool_worker_count pool" by blast
        have "?run = Some (rt\<lparr>rt_master_pool := Some pool', rt_master_pool_busy := False\<rparr>, copied dst src n m)"
          using pool plan False r(1) by (auto simp: execute_parallel_copy_def active_def [symmetric] Let_def)
        moreover have "runtime_ok (rt\<lparr>rt_master_pool := Some pool', rt_master_pool_busy := False\<rparr>)"
          using ok pool r(2,3) by (simp add: runtime_ok_def)
        ultimately show ?thesis by blast
      qed
    qed
  qed
qed

section \<open>Properties\<close>

text \<open>The bytes of a range of addresses, as a buffer.\<close>

definition load :: "memory \<Rightarrow> nat \<Rightarrow> nat \<Rightarrow> bytes" where
  "load m a n = map (\<lambda>i. m (a + i)) [0..<n]"

lemma load_copied_src: "load (copied dst src n m) dst n = load m src n"
  by (simp add: load_def copied_def copied_on_def)

text \<open>In a buffer that holds the destination, a copy is \<^const>\<open>copy_in\<close>.\<close>

lemma load_copied:
  assumes "off + n \<le> len"
  shows "copy_in (load m a len) off (load m src n) = Some (load (copied (a + off) src n m) a len)"
proof -
  have "take off (load m a len) @ load m src n @ drop (off + n) (load m a len) = load (copied (a + off) src n m) a len"
    using assms by (intro nth_equalityI) (auto simp: load_def copied_def copied_on_def nth_append)
  then show ?thesis using assms by (simp add: copy_in_Some load_def)
qed

lemma supported_plan:
  assumes "is_backend_supported backend caps"
  shows "\<exists>plan. make_copy_plan_for_backend n hint backend caps = Some plan
    \<and> (cp_strategy plan \<notin> {LibcMemcpy, RepMovsb} \<longrightarrow> avx2_usable caps)"
  using assms
  by (cases backend; cases "avx2_usable caps") (simp_all add: select_safe_auto_copy_plan_def adapt_auto_plan_for_capabilities_def)

text \<open>
  C5. \<^verbatim>\<open>TLSS::MEMORY::memcpy\<close> copies. For ranges that do not overlap, any size, hint and backend the
  processor supports, the bytes of the source are in the destination afterwards and no other
  byte has changed; a backend that needs AVX2 is refused where the processor lacks it and memory
  is left alone. AVX2 code never runs on a processor without it, the non-temporal kernel always
  gets an aligned destination and whole blocks, and the workers that share a large copy cover it
  exactly, in whatever order they and the caller run, as long as each gets a turn. The shared
  runtime stays sound; it is sound when constructed, whatever processors the machine has.
\<close>

theorem memcpy_exact:
  assumes "kernels_ok caps kern" and "apart dst src n" and "dst \<noteq> 0" and "src \<noteq> 0"
    and "\<forall>r. rt = Some r \<longrightarrow> runtime_ok r" and "\<forall>r. construct = Some r \<longrightarrow> (\<exists>affinity fs sys pinned. new_memory_runtime affinity fs sys pinned = Some r)"
    and "\<forall>r pool. (rt = Some r \<or> construct = Some r) \<and> rt_master_pool r = Some pool \<longrightarrow>
           pool_submitted pool \<noteq> -1 \<and> (\<forall>i < pool_worker_count pool. i \<in> set (early @ late))"
  shows "(n = 0 \<or> is_backend_supported backend caps \<longrightarrow>
      (\<exists>rt'. memcpy_with kern caps construct early late cpu backend hint dst src n (rt, m) = Some (rt', copied dst src n m)
        \<and> (\<forall>r. rt' = Some r \<longrightarrow> runtime_ok r)
        \<and> (\<forall>a off len. dst = a + off \<and> off + n \<le> len \<longrightarrow>
             copy_in (load m a len) off (load m src n) = Some (load (copied dst src n m) a len))
        \<and> (\<forall>a. a < dst \<or> dst + n \<le> a \<longrightarrow> copied dst src n m a = m a))) \<and>
    (n \<noteq> 0 \<and> \<not> is_backend_supported backend caps \<longrightarrow>
      memcpy_with kern caps construct early late cpu backend hint dst src n (rt, m) = None)"
proof (intro conjI impI)
  show "memcpy_with kern caps construct early late cpu backend hint dst src n (rt, m) = None"
    if "n \<noteq> 0 \<and> \<not> is_backend_supported backend caps"
    using that by (cases backend) (simp_all add: memcpy_with_def)
next
  assume sup: "n = 0 \<or> is_backend_supported backend caps"
  let ?run = "memcpy_with kern caps construct early late cpu backend hint dst src n (rt, m)"
  have "\<exists>rt'. ?run = Some (rt', copied dst src n m) \<and> (\<forall>r. rt' = Some r \<longrightarrow> runtime_ok r)"
  proof (cases "n = 0")
    case True
    then show ?thesis using assms(5) by (simp add: memcpy_with_def copied_def)
  next
    case False
    then obtain plan where plan: "make_copy_plan_for_backend n hint backend caps = Some plan"
        "cp_strategy plan \<notin> {LibcMemcpy, RepMovsb} \<Longrightarrow> avx2_usable caps"
      using sup supported_plan by blast
    have kern: "kern k dst src n m = Some (copied dst src n m)" if "k \<noteq> Kernel_Nt" "k = Kernel_Avx2 \<Longrightarrow> avx2_usable caps" for k
      using that assms(2) by (intro assms(1) [unfolded kernels_ok_def, rule_format]) auto
    define st where "st = try_get_memory_runtime construct rt"
    have st: "runtime_ok r" "rt = Some r \<or> construct = Some r" if "st = Some r" for r
      using that assms(5,6) new_memory_runtime_ok by (auto simp: st_def try_get_memory_runtime_def split: option.split_asm)
    have par: "\<exists>rt'. execute_copy_plan kern early late cpu plan dst src n (st, m) = Some (rt', copied dst src n m) \<and> (\<forall>r. rt' = Some r \<longrightarrow> runtime_ok r)"
      if p: "cp_strategy plan = ParallelNt"
    proof (cases st)
      case None
      then show ?thesis using direct_nt_copy_exact [OF assms(1) plan(2) assms(2,3)] p by (simp add: execute_copy_plan_def)
    next
      case (Some r)
      have "\<exists>rt'. execute_parallel_copy kern early late cpu (cp_worker_count plan) dst src n (r, m) = Some (rt', copied dst src n m) \<and> runtime_ok rt'"
        using assms(7) st(2) [OF Some] plan(2) p
        by (intro execute_parallel_copy_exact [OF assms(1) _ assms(2-4) st(1) [OF Some]]) auto
      then show ?thesis using p Some by (auto simp: execute_copy_plan_def)
    qed
    show ?thesis
    proof (cases "cp_strategy plan = ParallelNt")
      case True
      with par plan(1) False show ?thesis by (simp add: memcpy_with_def st_def)
    next
      case np: False
      have "execute_copy_plan kern early late cpu plan dst src n (rt, m) = Some (rt, copied dst src n m)"
        using np kern plan(2) direct_nt_copy_exact [OF assms(1) plan(2) assms(2,3)]
        by (cases "cp_strategy plan") (auto simp: execute_copy_plan_def)
      then show ?thesis using np plan(1) False assms(5) by (simp add: memcpy_with_def)
    qed
  qed
  moreover have "\<forall>a off len. dst = a + off \<and> off + n \<le> len \<longrightarrow>
      copy_in (load m a len) off (load m src n) = Some (load (copied dst src n m) a len)"
    using load_copied by blast
  moreover have "\<forall>a. a < dst \<or> dst + n \<le> a \<longrightarrow> copied dst src n m a = m a" by (simp add: copied_def copied_on_def)
  ultimately show "\<exists>rt'. ?run = Some (rt', copied dst src n m) \<and> (\<forall>r. rt' = Some r \<longrightarrow> runtime_ok r)
        \<and> (\<forall>a off len. dst = a + off \<and> off + n \<le> len \<longrightarrow>
             copy_in (load m a len) off (load m src n) = Some (load (copied dst src n m) a len))
        \<and> (\<forall>a. a < dst \<or> dst + n \<le> a \<longrightarrow> copied dst src n m a = m a)"
    by blast
qed

text \<open>A machine with four performance cores, kernels that copy, and a large streaming copy by three workers.\<close>

definition plain_kernels :: kernels where
  "plain_kernels k dst src n m = Some (copied dst src n m)"

definition four_cores :: "memory_runtime option" where
  "four_cores = new_memory_runtime (Some (\<lambda>i. i < 4)) (\<lambda>i f _. (True, case f of Physical_Package_Id \<Rightarrow> 0 | Core_Id \<Rightarrow> i))
     \<lparr>get_affinity_ok = True, pin_ok = (\<lambda>_. True), restore_ok = (\<lambda>_. True), cpuid_max = (\<lambda>_. 31), cpuid_1a = (\<lambda>_. 1073741825)\<rparr>
     (\<lambda>_. True)"

definition avx2_machine :: cpu_capabilities where
  "avx2_machine = detect_cpu_capabilities (Some (push_bit 27 3)) 7 7 (push_bit 5 1)"

lemma four_cores_facts:
  "map_option (\<lambda>r. (rt_master_worker_cpu_ids r, rt_worker_plans r)) four_cores =
     Some ([0, 1, 2, 3], map (\<lambda>a. \<lparr>active_workers_4 = a, active_workers_8 = a, plan_valid = True\<rparr>) [[1, 2, 3], [0, 2, 3], [0, 1, 3], [0, 1, 2]])"
  by code_simp

theorem memcpy_exact_witness:
  "\<exists>rt' m'. memcpy_with plain_kernels avx2_machine four_cores [3, 1] [0, 2] 0 Backend_Auto Hint_Streaming 300007 7 100000
      (None, \<lambda>a. word_of_nat a) = Some (rt', m') \<and> load m' 300007 100000 = load (\<lambda>a. word_of_nat a) 7 100000"
proof -
  have k: "kernels_ok avx2_machine plain_kernels" by (simp add: kernels_ok_def plain_kernels_def)
  obtain r where r: "four_cores = Some r" using four_cores_facts by auto
  have pool: "map_option (\<lambda>r. map_option (\<lambda>p. (pool_submitted p, pool_worker_count p)) (rt_master_pool r)) four_cores = Some (Some (0, 4))"
    by code_simp
  have c: "\<forall>r'. four_cores = Some r' \<longrightarrow> (\<exists>affinity fs sys pinned. new_memory_runtime affinity fs sys pinned = Some r')"
    unfolding four_cores_def by blast
  have served: "\<forall>r' pool. ((None :: memory_runtime option) = Some r' \<or> four_cores = Some r') \<and> rt_master_pool r' = Some pool \<longrightarrow>
      pool_submitted pool \<noteq> -1 \<and> (\<forall>i < pool_worker_count pool. i \<in> set ([3, 1] @ [0, 2]))"
  proof (intro allI impI)
    fix r' p assume a: "(None = Some r' \<or> four_cores = Some r') \<and> rt_master_pool r' = Some p"
    then have r': "four_cores = Some r'" "rt_master_pool r' = Some p" by simp_all
    from pool have "pool_submitted p = 0" "pool_worker_count p = 4" unfolding r'(1) by (simp_all add: r'(2))
    then show "pool_submitted p \<noteq> -1 \<and> (\<forall>i < pool_worker_count p. i \<in> set ([3, 1] @ [0, 2]))"
      by (auto simp: less_Suc_eq numeral_eq_Suc)
  qed
  have "\<exists>rt'. memcpy_with plain_kernels avx2_machine four_cores [3, 1] [0, 2] 0 Backend_Auto Hint_Streaming 300007 7 100000
      (None, \<lambda>a. word_of_nat a) = Some (rt', copied 300007 7 100000 (\<lambda>a. word_of_nat a))"
    using memcpy_exact [OF k, of 300007 7 100000 None four_cores "[3, 1]" "[0, 2]" Backend_Auto 0 Hint_Streaming "\<lambda>a. word_of_nat a"]
      c served by (auto simp: apart_def)
  then show ?thesis using load_copied_src by blast
qed

end
