(* ===== verification/Spec2Isabelle.thy ===== *)
theory Spec2Isabelle
  imports Alarm_Stream Arc_Cache Monitor_Policy Monitor_Engine Memory_Copy
begin

text \<open>
  \<^bold>\<open>Verification of TLSS, a file storage service in C++17\<close> (sources under \<^verbatim>\<open>src/\<close>).

  \<^bold>\<open>The program.\<close> A storage service on an epoll reactor keeps metadata in a sharded adaptive cache
  and copies bytes with its own memory copy library. It reports measurements and errors to a
  monitoring subsystem: an engine runs timers, descriptors and callbacks in one event loop, a
  reporter completes samples and puts them into a store, and datagrams carry records to a
  collector; errors go through reliable alarm frames on a byte stream. This development models
  the monitoring subsystem up to its sockets, the cache and the memory copy library.

  \<^bold>\<open>Conventions.\<close> \<open>TLSS_Prelude\<close> fixes them: machine integers are words (\<open>u8\<close> to \<open>u64\<close>), signed
  64-bit values are integers with a range predicate, byte buffers are lists of \<open>u8\<close> with
  bounds-checked access, \<^verbatim>\<open>std::string\<close> is \<^typ>\<open>string\<close>. No result (\<^term>\<open>None\<close>) stands for what the
  theory at hand names: an access outside a buffer, a signed overflow, an exception that leaves
  a function, or a loop that does not end. Memory that may run out is a parameter asked at the
  allocations of the operations that change state. Clocks, system calls, callbacks and publishers are parameters that work on a state
  of their own; what a theorem needs of them is a hypothesis, and a witness instantiates it.

  \<^bold>\<open>Wire formats.\<close> \<open>Byte_Codec\<close>: the big-endian integer codecs (\<^verbatim>\<open>monitor_wire_detail.h\<close> and those of
  the alarm envelope). \<open>Monitor_Data\<close>: keys, values, records and levels. \<open>Monitor_Wire\<close>
  (\<^verbatim>\<open>monitor_wire.cpp\<close>): encoders and decoders of versions 1 and 2; round trips in both
  directions, canonicity, memory safety of decoding any datagram, exact joining of timestamps.
  \<open>Alarm_Protocol\<close> (\<^verbatim>\<open>alarm_protocol.cpp\<close>): the alarm frame with its CRC32; changing one
  byte is always detected, and (below) a record in an ALARM frame survives the whole way.
  \<open>Alarm_Stream\<close> (\<^verbatim>\<open>alarm_stream_decoder.cpp\<close>): the incremental decoder; it delivers exactly the
  frames of the stream however it is cut, in bounded memory, and a prefix when memory runs out.

  \<^bold>\<open>Cache.\<close> \<open>Arc_Node\<close> (\<^verbatim>\<open>arc_node.h\<close>): nodes and linked lists on an explicit heap. \<open>Cache_Contract\<close>:
  the interfaces as locales, a bounded partition with ghosts and a lossy map. \<open>Arc_Lru\<close>, \<open>Arc_Lfu\<close>
  (\<^verbatim>\<open>arc_lru.h\<close>, \<^verbatim>\<open>arc_lfu.h\<close>): the partitions at pointer level, each refining a list specification
  and interpreting the partition contract; what they evict. \<open>Arc_Cache\<close> (\<^verbatim>\<open>arc_cache.h\<close>): the
  adaptive cache and the sliced cache; quotas, coherence, promotion exactly at the threshold, and adaptation. Both interpret
  the lossy map.

  \<^bold>\<open>Monitoring.\<close> \<open>Ordered_Map\<close>: \<^verbatim>\<open>std::map\<close> as a sorted list. \<open>Monitor_Store\<close> (\<^verbatim>\<open>monitor_store.cpp\<close>):
  atomic updates behind a prepare callback, the log of candidates, exact queries. \<open>Monitor_Policy\<close>
  (\<^verbatim>\<open>monitor_policy.cpp\<close>): three sampling policies under one contract, each equal to its definition
  over the whole history of samples. \<open>Module_Registry\<close> (\<^verbatim>\<open>monitor_module_registry.cpp\<close>): two indexes
  that agree. \<open>Monitor_Reporter\<close> (\<^verbatim>\<open>monitor_reporter.cpp\<close>): errors are durable before they are
  stored, and published records mirror the store.

  \<^bold>\<open>Event loop.\<close> \<open>Wake_Pipe\<close> (\<^verbatim>\<open>wake_pipe.cpp\<close>): the non-blocking pipe over system calls; its
  retry loops return exactly when a call settles them.
  \<open>Callback_Registry\<close> (\<^verbatim>\<open>callback_registry.cpp\<close>): callbacks, their worker threads as steps between
  releases of the mutex, and the registry; in every fair schedule an activation is served.
  \<open>Timer_Manager\<close> (\<^verbatim>\<open>timer_manager.cpp\<close>): a check fires each due timer once per planned time, in
  order, and returns the time to the next; it ends for a bounded clock. \<open>Aio_Manager\<close>
  (\<^verbatim>\<open>aio_manager.cpp\<close>): a round of \<^verbatim>\<open>select\<close> follows no dangling pointer whatever other threads and
  callbacks register and remove meanwhile. \<open>Monitor_Engine\<close> (\<^verbatim>\<open>engine.cpp\<close>, \<^verbatim>\<open>monitor_collector.cpp\<close>):
  the engine composes all of these; its phases guard every operation, and a run ends clean and
  keeps the stored data readable.

  \<^bold>\<open>Memory copy.\<close> \<open>Cpu_Topology\<close>: detection of processors and selection of workers (files \<^verbatim>\<open>cpu_*.cpp\<close>
  and \<^verbatim>\<open>worker_selection.cpp\<close> of \<^verbatim>\<open>common/memory/internal\<close>). \<open>Memory_Copy\<close>: partition, strategy, worker
  pool, runtime and dispatch of \<^verbatim>\<open>TLSS::MEMORY::memcpy\<close>, which copies exactly for every size, hint,
  machine and order of the workers' turns.

  \<^bold>\<open>Loops.\<close> Loops over data are structural recursion or have a termination proof. The decoder loop
  recurses on the bytes left. Loops that depend on the system (\<open>wakeup_loop\<close>, \<open>drain_loop\<close>,
  \<open>check_loop\<close>, \<open>engine_loop\<close>) are partial functions whose non-termination is \<^term>\<open>None\<close>. When the first
  two return is characterised for every kernel; that \<open>check_loop\<close> returns is proved for clocks that stay
  below a limit. That the event loop ends is not claimed: it runs until it is stopped. No
  definition uses fuel.

  \<^bold>\<open>Not modelled.\<close> Locks are taken as making the code between them one step; memory ordering,
  condition variables of the copy pool and the statistics output are left out. The assembly
  copy kernels are a parameter with the requirements their sources state. The sockets (UDP
  transport, alarm publisher and collector, command line), the alarm spool (a file system whose
  behaviour after a crash would all be assumed), the metric tables and their sampling, the
  reactor with its buffers and write scheduler, the thread pool, MySQL, authentication, the file
  service and its client, logging, the programs and the third-party libraries are not modelled.
\<close>

section \<open>Properties across components\<close>

text \<open>
  C12. A record survives the whole way of a reliable alarm: encoded as a version 2 datagram and
  put as payload into an ALARM frame. The datagram always fits the envelope, so the frame encodes; the resulting
  buffer, and no other one, decodes to that frame (given memory for the payload); and
  its payload decodes to the record, description, value and change time.
\<close>

theorem alarm_record_roundtrip:
  assumes "encode_v2 r = Some e" and "enc_status e = WIRE_SUCCESS" and "is_int64 (sr_changed_at r)"
    and "alarm_frame_wf f" and "af_type f = ALARM" and "af_payload f = enc_bytes e" and "alloc (length (enc_bytes e))"
  shows "\<exists>bs. encode_alarm_frame (\<lambda>_. True) f = Some \<lparr>aer_status = A_SUCCESS, aer_bytes = bs\<rparr>
    \<and> (\<forall>buf. decode_alarm_frame alloc (Ptr buf) = Some \<lparr>adr_status = A_SUCCESS, adr_frame = Some f\<rparr> \<longleftrightarrow> buf = bs)
    \<and> decode (Ptr (af_payload f)) = Some \<lparr>dec_status = WIRE_SUCCESS,
        dec_record = Some \<lparr>dr_version = V2, dr_data = sr_data r, dr_changed_at = Some (sr_changed_at r)\<rparr>\<rparr>"
proof -
  have "af_payload f \<noteq> []" "length (af_payload f) \<le> 4096"
    using encoded_v2_length [OF assms(1,2)] assms(6) by auto
  then have valid: "alarm_frame_valid f" using assms(4,5)
    by (simp add: alarm_frame_valid_def validate_frame_description_def is_valid_alarm_frame_type_def is_alarm_control_frame_def
        alarm_frame_requires_payload_def)
  have enc: "encode_alarm_frame (\<lambda>_. True) f = Some \<lparr>aer_status = A_SUCCESS, aer_bytes = alarm_frame_bytes f\<rparr>"
    using valid by (simp add: encode_alarm_frame_iff [OF assms(4)])
  have "decode_alarm_frame alloc (Ptr buf) = Some \<lparr>adr_status = A_SUCCESS, adr_frame = Some f\<rparr> \<longleftrightarrow> buf = alarm_frame_bytes f" for buf
    using valid assms(6,7) by (simp add: decode_alarm_frame_iff)
  with enc decode_encoded_v2 [OF assms(1-3)] show ?thesis by (simp add: assms(6))
qed

theorem alarm_record_roundtrip_witness:
  "\<exists>bs. let f = \<lparr>af_type = ALARM, af_source_id = 7, af_message_id = replicate 16 9, af_timestamp_ms = 5,
             af_payload = v2_datagram sample_record\<rparr>
     in encode_alarm_frame (\<lambda>_. True) f = Some \<lparr>aer_status = A_SUCCESS, aer_bytes = bs\<rparr>
        \<and> decode_alarm_frame (\<lambda>_. True) (Ptr bs) = Some \<lparr>adr_status = A_SUCCESS, adr_frame = Some f\<rparr>
        \<and> decode (Ptr (af_payload f)) = Some \<lparr>dec_status = WIRE_SUCCESS,
             dec_record = Some \<lparr>dr_version = V2, dr_data = sr_data sample_record, dr_changed_at = Some (- 500000000)\<rparr>\<rparr>"
proof -
  let ?f = "\<lparr>af_type = ALARM, af_source_id = 7, af_message_id = replicate 16 9, af_timestamp_ms = 5,
      af_payload = v2_datagram sample_record\<rparr>"
  have "alarm_frame_wf ?f" by (simp add: alarm_frame_wf_def)
  moreover have at: "sr_changed_at sample_record = - 500000000" by (simp add: sample_record_def)
  ultimately show ?thesis
    using alarm_record_roundtrip [OF encode_v2_sample, of ?f "\<lambda>_. True"]
    unfolding Let_def by (auto simp: is_int64_def simp del: decode.simps)
qed

text \<open>
  The envelope does not look into the payload: an ALARM frame whose payload is no datagram decodes
  as well, although the comment of \<^verbatim>\<open>decode_alarm_frame\<close> speaks of checking it.
\<close>

lemma alarm_payload_unchecked:
  "decode_alarm_frame (\<lambda>n. True) (Ptr (alarm_frame_bytes sample_alarm)) = Some \<lparr>adr_status = A_SUCCESS, adr_frame = Some sample_alarm\<rparr>
   \<and> af_type sample_alarm = ALARM \<and> dec_status (the (decode (Ptr (af_payload sample_alarm)))) \<noteq> WIRE_SUCCESS"
proof (intro conjI)
  show "decode_alarm_frame (\<lambda>n. True) (Ptr (alarm_frame_bytes sample_alarm)) = Some \<lparr>adr_status = A_SUCCESS, adr_frame = Some sample_alarm\<rparr>"
    by (simp add: decode_alarm_frame_iff sample_alarm_valid)
  show "af_type sample_alarm = ALARM" by (simp add: sample_alarm_def)
  show "dec_status (the (decode (Ptr (af_payload sample_alarm)))) \<noteq> WIRE_SUCCESS" by code_simp
qed

end
